theory Spec2Isabelle
  imports Main
begin

section \<open>Values, callbacks and the object store\<close>

text \<open>
  The repository is a promise implementation (\<open>promise.js\<close>) and an HTTP helper built
  on it (\<open>fetch.js\<close>). Promises are objects mutated in place and shared by reference, and
  their handlers are closures, so the embedding uses an explicit store: a promise is
  named by its index in \<open>heap\<close>, and every closure the engine itself creates is one
  constructor of \<open>cb\<close>.

  JavaScript values. \<open>VPromise a\<close> is a reference to the promise at index \<open>a\<close>;
  \<open>x instanceof Promise\<close> holds exactly for these values.
\<close>

datatype val = VUndefined | VNull | VBool bool | VNum int | VStr string
  | VArr "val list" | VError string | VPromise nat

text \<open>
  A user-written executor \<open>(resolve, reject) => { ... }\<close>: its name (for the trace), the
  calls it makes to the two functions it is given, in order, and the error it raises at
  the end, if any.
\<close>

datatype action = CallResolve "val list" | CallReject "val list"

datatype script = Script string "action list" "val option"

text \<open>
  What a user-written continuation does with its arguments: return a value (possibly a
  reference to an existing promise), raise an error, or build a promise with
  \<open>new Promise(executor)\<close> and return it (\<open>Promise.resolve(x)\<close> is the script with the
  single action \<open>CallResolve [x]\<close>).
\<close>

datatype outcome = Return val | Throw val | ReturnNew script

text \<open>
  The functions that are passed as callbacks: \<open>null\<close>/\<open>undefined\<close>; the \<open>resolve\<close> and
  \<open>reject\<close> functions bound to the promise at an index; the arrow function that \<open>all\<close>
  attaches to its input number \<open>idx\<close> (it shares the variables of closure cell \<open>c\<close>);
  and a named user continuation.
\<close>

datatype cb = Absent | BoundResolve nat | BoundReject nat | AllItem nat nat
  | User string "val list \<Rightarrow> outcome"

datatype event = CallbackRun string "val list" | ExecutorRun string

datatype completion = Returned val | Thrown val

text \<open>
  The \<open>handler\<close> object of \<open>then\<close>: its two methods close over the two callbacks given to
  \<open>then\<close> and over \<open>resolve\<close>/\<open>reject\<close> of the derived promise.
\<close>

record handler =
  cbFulfilled :: cb
  cbRejected :: cb
  derived :: nat

text \<open>The fields of a \<open>Promise\<close> instance; \<open>None\<close> is \<open>null\<close>.\<close>

record promise =
  state :: nat
  pvalue :: "val list option"
  reason :: "val list option"
  handlers :: "handler list"

text \<open>The local variables of one call of \<open>all\<close>, shared by its item callbacks.\<close>

record closure =
  result :: "val list"
  completed :: nat
  plength :: nat
  owner :: nat

text \<open>The \<open>opts\<close> object of \<open>fetch.js\<close>; \<open>None\<close> is an absent (or nullish) property.\<close>

record opts =
  url :: "string option"
  httpMethod :: "string option"
  timeout :: "int option"
  readTimeout :: "int option"
  followRedirect :: "bool option"
  headers :: "(string \<times> string) list option"
  json :: "bool option"
  fullResponse :: "bool option"

text \<open>
  The store: promise objects, closure cells, option objects, the background threads
  that have been started (option object, \<open>resolve\<close>, \<open>reject\<close>), and a trace of the
  user code that has been run.
\<close>

record world =
  heap :: "promise list"
  closures :: "closure list"
  objects :: "opts list"
  threads :: "(nat \<times> cb \<times> cb) list"
  trace :: "event list"

type_synonym hmethod = "handler \<Rightarrow> val list \<Rightarrow> world \<Rightarrow> world option"

section \<open>promise.js\<close>

text \<open>The first parameter of a function called with the spread arguments.\<close>

definition first_arg :: "val list \<Rightarrow> val" where
  "first_arg args = (case args of [] \<Rightarrow> VUndefined | v # _ \<Rightarrow> v)"

text \<open>
  \<open>result[idx] = value\<close>: an assignment past the end extends the array; the holes read
  as \<open>undefined\<close>.
\<close>

definition array_set :: "val list \<Rightarrow> nat \<Rightarrow> val \<Rightarrow> val list" where
  "array_set xs i v =
     (if i < length xs then xs[i := v]
      else xs @ replicate (i - length xs) VUndefined @ [v])"

primrec forEach :: "('a \<Rightarrow> world \<Rightarrow> world option) \<Rightarrow> 'a list \<Rightarrow> world \<Rightarrow> world option" where
  "forEach f [] w = Some w"
| "forEach f (it # rest) w =
     (case f it w of None \<Rightarrow> None | Some w1 \<Rightarrow> forEach f rest w1)"

text \<open>
  The engine calls a handler's method from \<open>_resolve\<close>, \<open>_reject\<close> and \<open>then\<close>, and a
  handler calls these in turn. The functions below take the two methods as
  parameters \<open>onF\<close> and \<open>onR\<close>; \<open>handler_onFulfilled\<close> and \<open>handler_onRejected\<close> at the end
  of the section close the recursion. A result \<open>None\<close> means that the nesting budget of
  the methods is used up, or that a reference points outside the store.
\<close>

definition promise_resolve :: "hmethod \<Rightarrow> nat \<Rightarrow> val list \<Rightarrow> world \<Rightarrow> world option" where
  "promise_resolve onF this args w =
     (if length (heap w) \<le> this then None
      else if state (heap w ! this) \<noteq> 0 then Some w
      else forEach (\<lambda>it. onF it args) (handlers (heap w ! this))
             (w\<lparr>heap := (heap w)[this := (heap w ! this)\<lparr>state := 1, pvalue := Some args\<rparr>]\<rparr>))"

definition promise_reject :: "hmethod \<Rightarrow> nat \<Rightarrow> val list \<Rightarrow> world \<Rightarrow> world option" where
  "promise_reject onR this args w =
     (if length (heap w) \<le> this then None
      else if state (heap w ! this) \<noteq> 0 then Some w
      else forEach (\<lambda>it. onR it args) (handlers (heap w ! this))
             (w\<lparr>heap := (heap w)[this := (heap w ! this)\<lparr>state := 2, reason := Some args\<rparr>]\<rparr>))"

text \<open>
  \<open>new Promise(cb)\<close>. The executor \<open>cb\<close> gets the index of the new instance, which stands
  for the two bound functions; it returns the error it raised, if any.
\<close>

definition construct ::
  "hmethod \<Rightarrow> (nat \<Rightarrow> world \<Rightarrow> (val option \<times> world) option) \<Rightarrow> world \<Rightarrow> (nat \<times> world) option" where
  "construct onR cb w =
     (let this = length (heap w);
          w0 = w\<lparr>heap := heap w @ [\<lparr>state = 0, pvalue = None, reason = None, handlers = []\<rparr>]\<rparr>
      in case cb this w0 of
           None \<Rightarrow> None
         | Some (None, w1) \<Rightarrow> Some (this, w1)
         | Some (Some err, w1) \<Rightarrow>
             (case promise_reject onR this [err] w1 of
                None \<Rightarrow> None
              | Some w2 \<Rightarrow> Some (this, w2)))"

text \<open>
  \<open>then\<close>: \<open>then_executor\<close> is the arrow function it passes to \<open>new Promise\<close>, with
  \<open>d2\<close> the new instance. State 1 is only ever stored together with \<open>value\<close>, and
  state 2 together with \<open>reason\<close>; a store where the field is still \<open>null\<close> is answered
  with \<open>None\<close>.
\<close>

definition then_executor ::
  "hmethod \<Rightarrow> hmethod \<Rightarrow> nat \<Rightarrow> cb \<Rightarrow> cb \<Rightarrow> nat \<Rightarrow> world \<Rightarrow> (val option \<times> world) option" where
  "then_executor onF onR this onFulfilled onRejected d2 w0 =
     (let handler = \<lparr>cbFulfilled = onFulfilled, cbRejected = onRejected, derived = d2\<rparr>
      in if length (heap w0) \<le> this then None
         else if state (heap w0 ! this) = 1 then
           (case pvalue (heap w0 ! this) of
              None \<Rightarrow> None
            | Some v \<Rightarrow>
                (case onF handler v w0 of None \<Rightarrow> None | Some w1 \<Rightarrow> Some (None, w1)))
         else if state (heap w0 ! this) = 2 then
           (case reason (heap w0 ! this) of
              None \<Rightarrow> None
            | Some v \<Rightarrow>
                (case onR handler v w0 of None \<Rightarrow> None | Some w1 \<Rightarrow> Some (None, w1)))
         else Some (None, w0\<lparr>heap := (heap w0)[this := (heap w0 ! this)
                              \<lparr>handlers := handlers (heap w0 ! this) @ [handler]\<rparr>]\<rparr>))"

definition promise_then ::
  "hmethod \<Rightarrow> hmethod \<Rightarrow> nat \<Rightarrow> cb \<Rightarrow> cb \<Rightarrow> world \<Rightarrow> (nat \<times> world) option" where
  "promise_then onF onR this onFulfilled onRejected w =
     construct onR (then_executor onF onR this onFulfilled onRejected) w"

definition promise_catch ::
  "hmethod \<Rightarrow> hmethod \<Rightarrow> nat \<Rightarrow> cb \<Rightarrow> world \<Rightarrow> (nat \<times> world) option" where
  "promise_catch onF onR this onRejected w = promise_then onF onR this Absent onRejected w"

definition static_resolve :: "hmethod \<Rightarrow> hmethod \<Rightarrow> val list \<Rightarrow> world \<Rightarrow> (nat \<times> world) option" where
  "static_resolve onF onR args w =
     construct onR
       (\<lambda>this w0. case promise_resolve onF this args w0 of
                     None \<Rightarrow> None | Some w1 \<Rightarrow> Some (None, w1))
       w"

definition static_reject :: "hmethod \<Rightarrow> hmethod \<Rightarrow> val list \<Rightarrow> world \<Rightarrow> (nat \<times> world) option" where
  "static_reject onF onR args w =
     construct onR
       (\<lambda>this w0. case promise_reject onR this args w0 of
                     None \<Rightarrow> None | Some w1 \<Rightarrow> Some (None, w1))
       w"

text \<open>\<open>new Promise\<close> with a user-written executor.\<close>

primrec run_actions :: "hmethod \<Rightarrow> hmethod \<Rightarrow> action list \<Rightarrow> nat \<Rightarrow> world \<Rightarrow> world option" where
  "run_actions onF onR [] this w = Some w"
| "run_actions onF onR (act # rest) this w =
     (case (case act of
              CallResolve args \<Rightarrow> promise_resolve onF this args w
            | CallReject args \<Rightarrow> promise_reject onR this args w) of
        None \<Rightarrow> None
      | Some w1 \<Rightarrow> run_actions onF onR rest this w1)"

definition script_executor ::
  "hmethod \<Rightarrow> hmethod \<Rightarrow> script \<Rightarrow> nat \<Rightarrow> world \<Rightarrow> (val option \<times> world) option" where
  "script_executor onF onR s this w0 =
     (case s of Script name acts thrown \<Rightarrow>
        (case run_actions onF onR acts this (w0\<lparr>trace := trace w0 @ [ExecutorRun name]\<rparr>) of
           None \<Rightarrow> None
         | Some w1 \<Rightarrow> Some (thrown, w1)))"

definition new_promise :: "hmethod \<Rightarrow> hmethod \<Rightarrow> script \<Rightarrow> world \<Rightarrow> (nat \<times> world) option" where
  "new_promise onF onR s w = construct onR (script_executor onF onR s) w"

text \<open>
  Calling a callback with the spread arguments (\<open>f?.call(null, ...args)\<close>: an absent
  callback is not called and the expression is \<open>undefined\<close>). The item callback of
  \<open>all\<close> is the arrow function of lines 128 to 133.
\<close>

definition call ::
  "hmethod \<Rightarrow> hmethod \<Rightarrow> cb \<Rightarrow> val list \<Rightarrow> world \<Rightarrow> (completion \<times> world) option" where
  "call onF onR f args w =
     (case f of
        Absent \<Rightarrow> Some (Returned VUndefined, w)
      | BoundResolve a \<Rightarrow>
          (case promise_resolve onF a args w of
             None \<Rightarrow> None
           | Some w1 \<Rightarrow> Some (Returned VUndefined, w1))
      | BoundReject a \<Rightarrow>
          (case promise_reject onR a args w of
             None \<Rightarrow> None
           | Some w1 \<Rightarrow> Some (Returned VUndefined, w1))
      | AllItem c idx \<Rightarrow>
          (if length (closures w) \<le> c then None
           else
             let cl = closures w ! c;
                 cl1 = cl\<lparr>result := array_set (result cl) idx (first_arg args),
                          completed := completed cl + 1\<rparr>;
                 w1 = w\<lparr>closures := (closures w)[c := cl1]\<rparr>
             in if completed cl1 = plength cl1
                then (case promise_resolve onF (owner cl1) [VArr (result cl1)] w1 of
                        None \<Rightarrow> None
                      | Some w2 \<Rightarrow> Some (Returned VUndefined, w2))
                else Some (Returned VUndefined, w1))
      | User name g \<Rightarrow>
          (let w1 = w\<lparr>trace := trace w @ [CallbackRun name args]\<rparr>
           in case g args of
                Return v \<Rightarrow> Some (Returned v, w1)
              | Throw err \<Rightarrow> Some (Thrown err, w1)
              | ReturnNew s \<Rightarrow>
                  (case new_promise onF onR s w1 of
                     None \<Rightarrow> None
                   | Some (a, w2) \<Rightarrow> Some (Returned (VPromise a), w2))))"

text \<open>The two methods of the handler object (lines 47 to 66).\<close>

definition onFulfilled_body :: "hmethod \<Rightarrow> hmethod \<Rightarrow> hmethod" where
  "onFulfilled_body onF onR h v w =
     (case call onF onR (cbFulfilled h) v w of
        None \<Rightarrow> None
      | Some (Thrown err, w1) \<Rightarrow> promise_reject onR (derived h) [err] w1
      | Some (Returned res, w1) \<Rightarrow>
          (case res of
             VPromise r \<Rightarrow>
               (case promise_then onF onR r
                       (BoundResolve (derived h)) (BoundReject (derived h)) w1 of
                  None \<Rightarrow> None
                | Some (d, w2) \<Rightarrow> Some w2)
           | _ \<Rightarrow> promise_resolve onF (derived h) v w1))"

definition onRejected_body :: "hmethod \<Rightarrow> hmethod \<Rightarrow> hmethod" where
  "onRejected_body onF onR h v w =
     (case call onF onR (cbRejected h) v w of
        None \<Rightarrow> None
      | Some (Thrown err, w1) \<Rightarrow> promise_reject onR (derived h) [err] w1
      | Some (Returned res, w1) \<Rightarrow>
          (case res of
             VPromise r \<Rightarrow>
               (case promise_then onF onR r
                       (BoundResolve (derived h)) (BoundReject (derived h)) w1 of
                  None \<Rightarrow> None
                | Some (d, w2) \<Rightarrow> Some w2)
           | _ \<Rightarrow> promise_reject onR (derived h) v w1))"

text \<open>
  The recursion closed: a method with budget \<open>Suc n\<close> runs its body with methods of
  budget \<open>n\<close>, so the budget bounds how deeply handler calls are nested; the handlers
  of one \<open>forEach\<close> all run with the same budget.
\<close>

fun handler_onFulfilled :: "nat \<Rightarrow> hmethod"
and handler_onRejected :: "nat \<Rightarrow> hmethod" where
  "handler_onFulfilled 0 h v w = None"
| "handler_onFulfilled (Suc n) h v w =
     onFulfilled_body (\<lambda>h v w. handler_onFulfilled n h v w)
       (\<lambda>h v w. handler_onRejected n h v w) h v w"
| "handler_onRejected 0 h v w = None"
| "handler_onRejected (Suc n) h v w =
     onRejected_body (\<lambda>h v w. handler_onFulfilled n h v w)
       (\<lambda>h v w. handler_onRejected n h v w) h v w"

text \<open>\<open>all\<close> and \<open>race\<close>. An element that is not a promise has no \<open>then\<close> to call.\<close>

primrec all_loop ::
  "hmethod \<Rightarrow> hmethod \<Rightarrow> val list \<Rightarrow> nat \<Rightarrow> nat \<Rightarrow> nat \<Rightarrow> world \<Rightarrow> (val option \<times> world) option" where
  "all_loop onF onR [] idx c this w = Some (None, w)"
| "all_loop onF onR (p # rest) idx c this w =
     (case p of
        VPromise a \<Rightarrow>
          (case promise_then onF onR a (AllItem c idx) Absent w of
             None \<Rightarrow> None
           | Some (d2, w1) \<Rightarrow>
               (case promise_catch onF onR d2 (BoundReject this) w1 of
                  None \<Rightarrow> None
                | Some (d3, w2) \<Rightarrow> all_loop onF onR rest (Suc idx) c this w2))
      | _ \<Rightarrow> Some (Some (VError ''TypeError''), w))"

definition all_executor ::
  "hmethod \<Rightarrow> hmethod \<Rightarrow> val list \<Rightarrow> nat \<Rightarrow> world \<Rightarrow> (val option \<times> world) option" where
  "all_executor onF onR promises this w0 =
     all_loop onF onR promises 0 (length (closures w0)) this
       (w0\<lparr>closures := closures w0 @
            [\<lparr>result = [], completed = 0, plength = length promises, owner = this\<rparr>]\<rparr>)"

definition promise_all :: "hmethod \<Rightarrow> hmethod \<Rightarrow> val list \<Rightarrow> world \<Rightarrow> (nat \<times> world) option" where
  "promise_all onF onR promises w = construct onR (all_executor onF onR promises) w"

primrec race_loop ::
  "hmethod \<Rightarrow> hmethod \<Rightarrow> val list \<Rightarrow> nat \<Rightarrow> world \<Rightarrow> (val option \<times> world) option" where
  "race_loop onF onR [] this w = Some (None, w)"
| "race_loop onF onR (p # rest) this w =
     (case p of
        VPromise a \<Rightarrow>
          (case promise_then onF onR a (BoundResolve this) Absent w of
             None \<Rightarrow> None
           | Some (d2, w1) \<Rightarrow>
               (case promise_catch onF onR d2 (BoundReject this) w1 of
                  None \<Rightarrow> None
                | Some (d3, w2) \<Rightarrow> race_loop onF onR rest this w2))
      | _ \<Rightarrow> Some (Some (VError ''TypeError''), w))"

definition promise_race :: "hmethod \<Rightarrow> hmethod \<Rightarrow> val list \<Rightarrow> world \<Rightarrow> (nat \<times> world) option" where
  "promise_race onF onR promises w = construct onR (race_loop onF onR promises) w"

section \<open>fetch.js\<close>

text \<open>
  The two string built-ins are modelled on ASCII strings only, where \<open>toUpperCase\<close> maps
  the letters a to z and \<open>trim\<close> removes tab, line feed, vertical tab, form feed,
  carriage return and space at both ends. On a string with a character above 127 the
  built-ins of JavaScript do more (other letters have upper-case forms, other
  characters are white space), so every statement about a method string assumes
  \<open>ascii\<close>.
\<close>

definition ascii :: "string \<Rightarrow> bool" where
  "ascii s = list_all (\<lambda>c. (of_char c :: nat) < 128) s"

definition toUpperCase :: "string \<Rightarrow> string" where
  "toUpperCase s =
     map (\<lambda>c. if 97 \<le> (of_char c :: nat) \<and> (of_char c :: nat) \<le> 122
              then char_of ((of_char c :: nat) - 32) else c) s"

definition whitespace :: "char \<Rightarrow> bool" where
  "whitespace c = ((of_char c :: nat) \<in> {9, 10, 11, 12, 13, 32})"

definition trim :: "string \<Rightarrow> string" where
  "trim s = rev (dropWhile whitespace (rev (dropWhile whitespace s)))"

text \<open>
  \<open>request\<close> works on the option object at index \<open>ob\<close>. The thread it starts does the
  network transfer and is only recorded; what it does later is not part of this model.
\<close>

definition request :: "hmethod \<Rightarrow> hmethod \<Rightarrow> nat \<Rightarrow> cb \<Rightarrow> cb \<Rightarrow> world \<Rightarrow> world option" where
  "request onF onR ob resolve reject w =
     (if length (objects w) \<le> ob then None
      else if (case url (objects w ! ob) of None \<Rightarrow> True | Some u \<Rightarrow> u = [])
      then (case call onF onR reject [VStr ''No url parameter specified in #request''] w of
              None \<Rightarrow> None
            | Some (r, w1) \<Rightarrow> Some w1)
      else
        let p0 = objects w ! ob;
            p1 = p0\<lparr>httpMethod := Some (case httpMethod p0 of
                                       None \<Rightarrow> ''GET''
                                     | Some m \<Rightarrow> trim (toUpperCase m))\<rparr>;
            p2 = p1\<lparr>timeout := Some (case timeout p1 of None \<Rightarrow> 0 | Some t \<Rightarrow> t)\<rparr>;
            p3 = p2\<lparr>readTimeout := (case readTimeout p2 of
                                       None \<Rightarrow> timeout p2
                                     | Some t \<Rightarrow> Some t)\<rparr>;
            p4 = p3\<lparr>followRedirect := Some (case followRedirect p3 of
                                               None \<Rightarrow> True
                                             | Some b \<Rightarrow> b)\<rparr>;
            p5 = p4\<lparr>headers := Some (case headers p4 of None \<Rightarrow> [] | Some h \<Rightarrow> h)\<rparr>;
            p6 = p5\<lparr>json := Some (case json p5 of None \<Rightarrow> False | Some b \<Rightarrow> b)\<rparr>;
            p7 = p6\<lparr>fullResponse := Some (case fullResponse p6 of
                                             None \<Rightarrow> False
                                           | Some b \<Rightarrow> b)\<rparr>
        in Some (w\<lparr>objects := (objects w)[ob := p7],
                   threads := threads w @ [(ob, resolve, reject)]\<rparr>))"

text \<open>
  \<open>fetch(url, opts = {})\<close>: without a second argument a new empty object is used. The
  result is the index of the option object and the index of the promise.
\<close>

definition fetch_executor ::
  "hmethod \<Rightarrow> hmethod \<Rightarrow> nat \<Rightarrow> nat \<Rightarrow> world \<Rightarrow> (val option \<times> world) option" where
  "fetch_executor onF onR ob this w0 =
     (case request onF onR ob (BoundResolve this) (BoundReject this) w0 of
        None \<Rightarrow> None
      | Some w1 \<Rightarrow> Some (None, w1))"

definition fetch ::
  "hmethod \<Rightarrow> hmethod \<Rightarrow> string \<Rightarrow> nat option \<Rightarrow> world \<Rightarrow> (nat \<times> nat \<times> world) option" where
  "fetch onF onR u opt w =
     (let (ob, wa) =
            (case opt of
               Some ob \<Rightarrow> (ob, w)
             | None \<Rightarrow>
                 (length (objects w),
                  w\<lparr>objects := objects w @
                       [\<lparr>url = None, httpMethod = None, timeout = None, readTimeout = None,
                         followRedirect = None, headers = None, json = None,
                         fullResponse = None\<rparr>]\<rparr>))
      in if length (objects wa) \<le> ob then None
         else
           let wb = wa\<lparr>objects := (objects wa)[ob := (objects wa ! ob)\<lparr>url := Some u\<rparr>]\<rparr>
           in case construct onR (fetch_executor onF onR ob) wb of
                None \<Rightarrow> None
              | Some (p, wc) \<Rightarrow> Some (ob, p, wc))"


section \<open>Notions used in the statements\<close>

definition settled :: "promise \<Rightarrow> bool" where
  "settled p = (state p = 1 \<or> state p = 2)"

definition stable :: "world \<Rightarrow> world \<Rightarrow> bool" where
  "stable w w' =
     (length (heap w) \<le> length (heap w') \<and>
      (\<forall>a < length (heap w). settled (heap w ! a) \<longrightarrow> heap w' ! a = heap w ! a))"

definition keeps :: "hmethod \<Rightarrow> bool" where
  "keeps m = (\<forall>h v w w'. m h v w = Some w' \<longrightarrow> stable w w')"


text \<open>Stores and promise objects used in the examples.\<close>

definition fresh :: promise where
  "fresh = \<lparr>state = 0, pvalue = None, reason = None, handlers = []\<rparr>"

definition fulfilled_with :: "val list \<Rightarrow> promise" where
  "fulfilled_with vs = \<lparr>state = 1, pvalue = Some vs, reason = None, handlers = []\<rparr>"

definition rejected_with :: "val list \<Rightarrow> promise" where
  "rejected_with rs = \<lparr>state = 2, pvalue = None, reason = Some rs, handlers = []\<rparr>"

definition empty_world :: world where
  "empty_world = \<lparr>heap = [], closures = [], objects = [], threads = [], trace = []\<rparr>"

definition c1_world :: world where
  "c1_world =
     empty_world\<lparr>heap :=
       [fresh\<lparr>handlers := [\<lparr>cbFulfilled = User ''log'' (\<lambda>args. Return VUndefined),
                              cbRejected = Absent, derived = 1\<rparr>]\<rparr>,
        fresh]\<rparr>"

definition c1_resolved :: world where
  "c1_resolved =
     empty_world\<lparr>heap :=
       [(fulfilled_with [VNum 1])
          \<lparr>handlers := [\<lparr>cbFulfilled = User ''log'' (\<lambda>args. Return VUndefined),
                         cbRejected = Absent, derived = 1\<rparr>]\<rparr>,
        fulfilled_with [VNum 1]],
       trace := [CallbackRun ''log'' [VNum 1]]\<rparr>"

definition c1_rejected :: world where
  "c1_rejected =
     empty_world\<lparr>heap :=
       [(rejected_with [VStr ''no''])
          \<lparr>handlers := [\<lparr>cbFulfilled = User ''log'' (\<lambda>args. Return VUndefined),
                         cbRejected = Absent, derived = 1\<rparr>]\<rparr>,
        rejected_with [VStr ''no'']]\<rparr>"

text \<open>
  The handler that \<open>result.then(resolve, reject)\<close> stores: \<open>resolve\<close> and \<open>reject\<close> belong
  to \<open>d2\<close>, and \<open>d3\<close> is the promise this inner \<open>then\<close> returns.
\<close>

definition forwarding :: "nat \<Rightarrow> nat \<Rightarrow> handler" where
  "forwarding d2 d3 =
     \<lparr>cbFulfilled = BoundResolve d2, cbRejected = BoundReject d2, derived = d3\<rparr>"


text \<open>
  Example continuations: one that returns a plain value, \<open>v => Promise.resolve(v * 2)\<close>,
  one that returns the promise at a given index, and one that raises.
\<close>

definition ignore_args :: "val list \<Rightarrow> outcome" where
  "ignore_args args = Return (VStr ''ignored'')"

definition double :: "val list \<Rightarrow> outcome" where
  "double args =
     (case args of
        VNum k # _ \<Rightarrow> ReturnNew (Script ''Promise.resolve'' [CallResolve [VNum (k * 2)]] None)
      | _ \<Rightarrow> Return VUndefined)"

definition return_promise :: "nat \<Rightarrow> val list \<Rightarrow> outcome" where
  "return_promise r args = Return (VPromise r)"

definition raise_boom :: "val list \<Rightarrow> outcome" where
  "raise_boom args = Throw (VStr ''boom'')"

definition c2_world :: world where
  "c2_world =
     empty_world\<lparr>heap := [fulfilled_with [VNum 3], fulfilled_with [VStr ''r''],
                           rejected_with [VStr ''e''], fresh]\<rparr>"

definition c5_world :: world where
  "c5_world =
     empty_world\<lparr>heap := [rejected_with [VStr ''bad'', VNum 7], fulfilled_with [VStr ''r''],
                           rejected_with [VStr ''e''], fresh]\<rparr>"

text \<open>
  A rejection handler that recovers, \<open>e => Promise.resolve("ok")\<close>, one that fails
  again, \<open>e => Promise.reject("again")\<close>, and a store whose pending promise 1 is
  already observed by a handler.
\<close>

definition recover :: "val list \<Rightarrow> outcome" where
  "recover args = ReturnNew (Script ''Promise.resolve'' [CallResolve [VStr ''ok'']] None)"

definition fail_again :: "val list \<Rightarrow> outcome" where
  "fail_again args = ReturnNew (Script ''Promise.reject'' [CallReject [VStr ''again'']] None)"

definition c5_observed :: world where
  "c5_observed =
     empty_world\<lparr>heap :=
       [rejected_with [VStr ''bad''],
        fresh\<lparr>handlers := [\<lparr>cbFulfilled = User ''seen'' ignore_args, cbRejected = Absent,
                              derived = 2\<rparr>]\<rparr>,
        fresh]\<rparr>"

text \<open>Option objects used in the examples.\<close>

definition no_opts :: opts where
  "no_opts = \<lparr>url = None, httpMethod = None, timeout = None, readTimeout = None,
              followRedirect = None, headers = None, json = None, fullResponse = None\<rparr>"

definition c10_world :: world where
  "c10_world =
     empty_world\<lparr>objects := [no_opts\<lparr>httpMethod := Some '' post '', timeout := Some 5\<rparr>]\<rparr>"

definition c4_world :: world where
  "c4_world =
     empty_world\<lparr>heap :=
       [fresh\<lparr>handlers := [\<lparr>cbFulfilled = Absent, cbRejected = Absent, derived = 1\<rparr>]\<rparr>,
        fresh]\<rparr>"

definition c4_resolved :: world where
  "c4_resolved =
     empty_world\<lparr>heap :=
       [(fulfilled_with [VNum 1])
          \<lparr>handlers := [\<lparr>cbFulfilled = Absent, cbRejected = Absent, derived = 1\<rparr>]\<rparr>,
        fulfilled_with [VNum 1]]\<rparr>"

text \<open>
  A callback that is a user continuation returning a value that is not a promise, and
  the name under which a callback appears in the trace.
\<close>

definition returns_plain :: "cb \<Rightarrow> val list \<Rightarrow> bool" where
  "returns_plain c args =
     (case c of
        User name f \<Rightarrow>
          (case f args of
             Return v \<Rightarrow> (case v of VPromise r \<Rightarrow> False | _ \<Rightarrow> True)
           | _ \<Rightarrow> False)
      | _ \<Rightarrow> False)"

definition cb_name :: "cb \<Rightarrow> string" where
  "cb_name c = (case c of User name f \<Rightarrow> name | _ \<Rightarrow> [])"

text \<open>
  Handlers as \<open>then\<close> leaves them on a pending promise when nothing has been chained to
  the promises they derive: each derived promise is pending without handlers, and no
  two handlers share one.
\<close>

definition leaf_handlers :: "world \<Rightarrow> val list \<Rightarrow> handler list \<Rightarrow> bool" where
  "leaf_handlers w args hs =
     ((\<forall>h \<in> set hs. derived h < length (heap w) \<and> heap w ! derived h = fresh \<and>
                      returns_plain (cbFulfilled h) args) \<and>
      distinct (map derived hs))"

definition c4_leaves :: world where
  "c4_leaves =
     empty_world\<lparr>heap :=
       [fresh\<lparr>handlers := [\<lparr>cbFulfilled = User ''first'' ignore_args, cbRejected = Absent,
                              derived = 1\<rparr>,
                             \<lparr>cbFulfilled = User ''second'' ignore_args, cbRejected = Absent,
                              derived = 2\<rparr>]\<rparr>,
        fresh, fresh]\<rparr>"

definition c4_leaves_resolved :: world where
  "c4_leaves_resolved =
     empty_world\<lparr>heap :=
       [(fulfilled_with [VNum 1])
          \<lparr>handlers := [\<lparr>cbFulfilled = User ''first'' ignore_args, cbRejected = Absent,
                         derived = 1\<rparr>,
                        \<lparr>cbFulfilled = User ''second'' ignore_args, cbRejected = Absent,
                         derived = 2\<rparr>]\<rparr>,
        fulfilled_with [VNum 1], fulfilled_with [VNum 1]],
       trace := [CallbackRun ''first'' [VNum 1], CallbackRun ''second'' [VNum 1]]\<rparr>"

text \<open>
  What \<open>promise.then(f).catch(reject)\<close> leaves in the store when \<open>promise\<close> is pending:
  a handler with the callback \<open>f\<close> on the input, deriving a promise \<open>d2\<close>, and on
  \<open>d2\<close> the handler of \<open>catch\<close>, which holds \<open>reject\<close> of the result \<open>this\<close> and derives
  \<open>d3\<close>.
\<close>

definition then_handler :: "cb \<Rightarrow> nat \<Rightarrow> handler" where
  "then_handler f d2 = \<lparr>cbFulfilled = f, cbRejected = Absent, derived = d2\<rparr>"

definition catch_handler :: "nat \<Rightarrow> nat \<Rightarrow> handler" where
  "catch_handler this d3 = \<lparr>cbFulfilled = Absent, cbRejected = BoundReject this, derived = d3\<rparr>"

text \<open>
  Input number \<open>j\<close> of a combinator whose result has index \<open>L\<close> is subscribed: the two
  promises made for it are those at \<open>L + 1 + 2 * j\<close> and \<open>L + 2 + 2 * j\<close>.
\<close>

definition subscribed :: "nat list \<Rightarrow> (nat \<Rightarrow> cb) \<Rightarrow> nat \<Rightarrow> nat \<Rightarrow> world \<Rightarrow> bool" where
  "subscribed as fcb L j w =
     (heap w ! (as ! j) = fresh\<lparr>handlers := [then_handler (fcb j) (L + 1 + 2 * j)]\<rparr> \<and>
      heap w ! (L + 1 + 2 * j) = fresh\<lparr>handlers := [catch_handler L (L + 2 + 2 * j)]\<rparr> \<and>
      heap w ! (L + 2 + 2 * j) = fresh)"

text \<open>The loop of a combinator after \<open>idx\<close> rounds, on inputs that were pending.\<close>

definition reg_inv :: "nat list \<Rightarrow> (nat \<Rightarrow> cb) \<Rightarrow> nat \<Rightarrow> nat \<Rightarrow> world \<Rightarrow> bool" where
  "reg_inv as fcb L idx w =
     (length (heap w) = L + 1 + 2 * idx \<and> heap w ! L = fresh \<and>
      (\<forall>j < idx. subscribed as fcb L j w) \<and>
      (\<forall>j. idx \<le> j \<and> j < length as \<longrightarrow> heap w ! (as ! j) = fresh))"

text \<open>The inputs of a combinator: different promises of the store, pending, without handlers.\<close>

definition fresh_inputs :: "nat list \<Rightarrow> world \<Rightarrow> bool" where
  "fresh_inputs as w =
     (distinct as \<and> (\<forall>a \<in> set as. a < length (heap w) \<and> heap w ! a = fresh))"







definition ab_world :: world where
  "ab_world = empty_world\<lparr>heap := [fresh, fresh]\<rparr>"

text \<open>
  Two pending promises A and B after \<open>race([A, B])\<close> (result at index 2), after A has been
  resolved with 1, and after B has then been rejected with \<open>x\<close>.
\<close>

definition ab_raced :: world where
  "ab_raced =
     empty_world\<lparr>heap :=
       [fresh\<lparr>handlers := [then_handler (BoundResolve 2) 3]\<rparr>,
        fresh\<lparr>handlers := [then_handler (BoundResolve 2) 5]\<rparr>,
        fresh,
        fresh\<lparr>handlers := [catch_handler 2 4]\<rparr>, fresh,
        fresh\<lparr>handlers := [catch_handler 2 6]\<rparr>, fresh]\<rparr>"

definition ab_resolved :: world where
  "ab_resolved =
     empty_world\<lparr>heap :=
       [(fulfilled_with [VNum 1])\<lparr>handlers := [then_handler (BoundResolve 2) 3]\<rparr>,
        fresh\<lparr>handlers := [then_handler (BoundResolve 2) 5]\<rparr>,
        fulfilled_with [VNum 1],
        (fulfilled_with [VNum 1])\<lparr>handlers := [catch_handler 2 4]\<rparr>, fulfilled_with [VNum 1],
        fresh\<lparr>handlers := [catch_handler 2 6]\<rparr>, fresh]\<rparr>"

definition ab_final :: world where
  "ab_final =
     empty_world\<lparr>heap :=
       [(fulfilled_with [VNum 1])\<lparr>handlers := [then_handler (BoundResolve 2) 3]\<rparr>,
        (rejected_with [VStr ''x''])\<lparr>handlers := [then_handler (BoundResolve 2) 5]\<rparr>,
        fulfilled_with [VNum 1],
        (fulfilled_with [VNum 1])\<lparr>handlers := [catch_handler 2 4]\<rparr>, fulfilled_with [VNum 1],
        (rejected_with [VStr ''x''])\<lparr>handlers := [catch_handler 2 6]\<rparr>,
        rejected_with [VStr ''x'']]\<rparr>"

text \<open>
  A store is well formed when every reference in it points into the store, a settled
  promise has its payload, and a user continuation only returns promises that exist.
\<close>

definition cb_ok :: "world \<Rightarrow> cb \<Rightarrow> bool" where
  "cb_ok w c =
     (case c of
        Absent \<Rightarrow> True
      | BoundResolve a \<Rightarrow> a < length (heap w)
      | BoundReject a \<Rightarrow> a < length (heap w)
      | AllItem cl idx \<Rightarrow> cl < length (closures w)
      | User name f \<Rightarrow> (\<forall>args r. f args = Return (VPromise r) \<longrightarrow> r < length (heap w)))"

definition handler_ok :: "world \<Rightarrow> handler \<Rightarrow> bool" where
  "handler_ok w h =
     (cb_ok w (cbFulfilled h) \<and> cb_ok w (cbRejected h) \<and> derived h < length (heap w))"

definition promise_ok :: "world \<Rightarrow> promise \<Rightarrow> bool" where
  "promise_ok w p =
     ((\<forall>h \<in> set (handlers p). handler_ok w h) \<and>
      (state p = 1 \<longrightarrow> pvalue p \<noteq> None) \<and> (state p = 2 \<longrightarrow> reason p \<noteq> None))"

definition wf :: "world \<Rightarrow> bool" where
  "wf w =
     ((\<forall>p \<in> set (heap w). promise_ok w p) \<and>
      (\<forall>c \<in> set (closures w). owner c < length (heap w)))"

text \<open>
  A bound on the handler calls that can still be nested: each pending promise counts
  one, each handler stored on a pending promise counts one, and four if one of its
  callbacks is a user continuation (which may build a promise and chain to it).
\<close>

definition is_user :: "cb \<Rightarrow> bool" where
  "is_user c = (case c of User name f \<Rightarrow> True | _ \<Rightarrow> False)"

definition weight :: "handler \<Rightarrow> nat" where
  "weight h = (if is_user (cbFulfilled h) \<or> is_user (cbRejected h) then 4 else 1)"

definition pot :: "promise \<Rightarrow> nat" where
  "pot p = (if state p = 0 then Suc (sum_list (map weight (handlers p))) else 0)"

definition potential :: "world \<Rightarrow> nat" where
  "potential w = sum_list (map pot (heap w))"

text \<open>The store only grows.\<close>

definition ext :: "world \<Rightarrow> world \<Rightarrow> bool" where
  "ext w w' =
     (length (heap w) \<le> length (heap w') \<and> length (closures w) \<le> length (closures w'))"

text \<open>
  Handler methods that return on every well-formed store whose bound, together with
  the weight of the handler, is at most \<open>N\<close>.
\<close>

definition returns_within :: "nat \<Rightarrow> hmethod \<Rightarrow> bool" where
  "returns_within N m =
     (\<forall>h v w. wf w \<and> handler_ok w h \<and> potential w + weight h \<le> N \<longrightarrow>
        (\<exists>w'. m h v w = Some w' \<and> wf w' \<and> ext w w' \<and>
              Suc (potential w') \<le> potential w + weight h))"

text \<open>A promise without handlers is settled by any methods: none is called.\<close>

definition bare :: "nat \<Rightarrow> world \<Rightarrow> bool" where
  "bare a w = (a < length (heap w) \<and> handlers (heap w ! a) = [])"


text \<open>
  Framing. A callback avoids the promises \<open>X\<close> and the closure cells \<open>C\<close> when it cannot
  name them: it is not \<open>resolve\<close> or \<open>reject\<close> of a promise in \<open>X\<close>, not an item callback
  of a cell in \<open>C\<close>, and not a continuation that returns a promise in \<open>X\<close>. A store is
  sealed when, outside \<open>X\<close>, every handler that can still run avoids \<open>X\<close> and \<open>C\<close>, and
  no other cell resolves into \<open>X\<close>.
\<close>

definition cb_avoids :: "nat set \<Rightarrow> nat set \<Rightarrow> cb \<Rightarrow> bool" where
  "cb_avoids X C f =
     (case f of
        Absent \<Rightarrow> True
      | BoundResolve a \<Rightarrow> a \<notin> X
      | BoundReject a \<Rightarrow> a \<notin> X
      | AllItem cl idx \<Rightarrow> cl \<notin> C
      | User name g \<Rightarrow> (\<forall>args r. g args = Return (VPromise r) \<longrightarrow> r \<notin> X))"

definition avoids :: "nat set \<Rightarrow> nat set \<Rightarrow> handler \<Rightarrow> bool" where
  "avoids X C h =
     (cb_avoids X C (cbFulfilled h) \<and> cb_avoids X C (cbRejected h) \<and> derived h \<notin> X)"

definition sealed :: "nat set \<Rightarrow> nat set \<Rightarrow> world \<Rightarrow> bool" where
  "sealed X C w =
     ((\<forall>x \<in> X. x < length (heap w)) \<and> (\<forall>c \<in> C. c < length (closures w)) \<and>
      (\<forall>a < length (heap w). a \<notin> X \<longrightarrow> state (heap w ! a) = 0 \<longrightarrow>
         (\<forall>h \<in> set (handlers (heap w ! a)). avoids X C h)) \<and>
      (\<forall>c < length (closures w). c \<notin> C \<longrightarrow> owner (closures w ! c) \<notin> X))"

definition untouched :: "nat set \<Rightarrow> nat set \<Rightarrow> world \<Rightarrow> world \<Rightarrow> bool" where
  "untouched X C w w' =
     ((\<forall>x \<in> X. heap w' ! x = heap w ! x) \<and> (\<forall>c \<in> C. closures w' ! c = closures w ! c))"

definition frames :: "nat set \<Rightarrow> nat set \<Rightarrow> hmethod \<Rightarrow> bool" where
  "frames X C m =
     (\<forall>h v w w'. m h v w = Some w' \<longrightarrow> sealed X C w \<longrightarrow> avoids X C h \<longrightarrow>
        sealed X C w' \<and> untouched X C w w')"

text \<open>
  A combinator whose result is the promise \<open>L\<close> makes two promises for its input number
  \<open>k\<close>: the one \<open>then\<close> returns, at \<open>pslot L k\<close>, and the one \<open>catch\<close> returns, at
  \<open>qslot L k\<close>. \<open>sub_handlers\<close> are the handlers it has stored on the promise \<open>a\<close> after
  \<open>j\<close> rounds, one for each time \<open>a\<close> occurs among the first \<open>j\<close> inputs; \<open>fcb k\<close> is the
  callback for input \<open>k\<close>.
\<close>

definition pslot :: "nat \<Rightarrow> nat \<Rightarrow> nat" where
  "pslot L k = L + 1 + 2 * k"

definition qslot :: "nat \<Rightarrow> nat \<Rightarrow> nat" where
  "qslot L k = L + 2 + 2 * k"

definition sub_handlers :: "(nat \<Rightarrow> cb) \<Rightarrow> nat list \<Rightarrow> nat \<Rightarrow> nat \<Rightarrow> nat \<Rightarrow> handler list" where
  "sub_handlers fcb as L j a =
     map (\<lambda>k. then_handler (fcb k) (pslot L k)) (filter (\<lambda>k. as ! k = a) [0..<j])"




text \<open>
  The store while a call of \<open>all\<close> is under way. The call was made on the inputs \<open>as\<close>;
  its result is the promise \<open>L\<close> and its variables are the closure cell \<open>c\<close>. The handler
  it stores on input \<open>k\<close> is \<open>item_handler c L k\<close>. Input \<open>k\<close> is done when its item
  callback has run, which is when the promise at \<open>pslot L k\<close> is settled; it is in
  flight when the input is settled and the callback has not run yet, which is so only
  while the handlers of the input are being dispatched. The store is dead for the call
  when an input is rejected.
\<close>

definition item_handler :: "nat \<Rightarrow> nat \<Rightarrow> nat \<Rightarrow> handler" where
  "item_handler c L k = then_handler (AllItem c k) (pslot L k)"

definition donek :: "nat list \<Rightarrow> nat \<Rightarrow> world \<Rightarrow> nat set" where
  "donek as L w = {k. k < length as \<and> state (heap w ! pslot L k) \<noteq> 0}"

definition inflight :: "nat list \<Rightarrow> nat \<Rightarrow> world \<Rightarrow> nat set" where
  "inflight as L w =
     {k. k < length as \<and> state (heap w ! (as ! k)) \<noteq> 0 \<and> state (heap w ! pslot L k) = 0}"

definition dead :: "nat list \<Rightarrow> world \<Rightarrow> bool" where
  "dead as w = (\<exists>a \<in> set as. a < length (heap w) \<and> state (heap w ! a) = 2)"

text \<open>A handler that names neither a promise of the call nor its cell.\<close>

definition foreign :: "nat list \<Rightarrow> nat \<Rightarrow> nat \<Rightarrow> handler \<Rightarrow> bool" where
  "foreign as L c h = avoids {L..L + 2 * length as} {c} h"

text \<open>
  \<open>sealedJ\<close>: the handlers of the call are stored on pending inputs only, once for each
  occurrence of the input, and nothing else in the store names the call. \<open>core\<close>: the
  cell has counted the inputs that are done and holds their first values, the result is
  fulfilled with the array exactly when all are done, and the promises made for an
  input that is not done are as \<open>all\<close> left them.
\<close>

definition sealedJ :: "nat list \<Rightarrow> nat \<Rightarrow> nat \<Rightarrow> world \<Rightarrow> bool" where
  "sealedJ as L c w =
     (L + 2 * length as < length (heap w) \<and> c < length (closures w) \<and>
      (\<forall>a \<in> set as. a < L) \<and>
      (\<forall>a < length (heap w). a \<notin> {L..L + 2 * length as} \<longrightarrow> state (heap w ! a) = 0 \<longrightarrow>
         filter (\<lambda>h. \<not> foreign as L c h) (handlers (heap w ! a)) =
           sub_handlers (AllItem c) as L (length as) a) \<and>
      (\<forall>c' < length (closures w). c' \<noteq> c \<longrightarrow>
         owner (closures w ! c') \<notin> {L..L + 2 * length as}))"

definition core :: "nat list \<Rightarrow> nat \<Rightarrow> nat \<Rightarrow> world \<Rightarrow> bool" where
  "core as L c w =
     (owner (closures w ! c) = L \<and> plength (closures w ! c) = length as \<and>
      completed (closures w ! c) = card (donek as L w) \<and>
      length (result (closures w ! c)) \<le> length as \<and>
      (\<forall>k \<in> donek as L w.
         k < length (result (closures w ! c)) \<and>
         result (closures w ! c) ! k = first_arg (the (pvalue (heap w ! (as ! k)))) \<and>
         state (heap w ! (as ! k)) = 1) \<and>
      heap w ! L = (if card (donek as L w) = length as
                    then fulfilled_with [VArr (result (closures w ! c))] else fresh) \<and>
      (\<forall>k < length as. state (heap w ! pslot L k) = 0 \<longrightarrow>
         heap w ! pslot L k = fresh\<lparr>handlers := [catch_handler L (qslot L k)]\<rparr> \<and>
         heap w ! qslot L k = fresh))"

definition mach :: "nat list \<Rightarrow> nat \<Rightarrow> nat \<Rightarrow> world \<Rightarrow> bool" where
  "mach as L c w =
     (sealedJ as L c w \<and> core as L c w \<and> (\<forall>a \<in> set as. state (heap w ! a) \<le> 1))"

definition pres :: "nat list \<Rightarrow> nat \<Rightarrow> nat \<Rightarrow> nat set \<Rightarrow> world \<Rightarrow> bool" where
  "pres as L c I w = (dead as w \<or> (mach as L c w \<and> inflight as L w = I))"

text \<open>
  What the budget induction shows of a fulfilment method: run on a foreign handler it
  keeps the invariant and the inputs in flight, or leaves the store dead; run on the
  handler of an input in flight it makes that input done; run on the handler of \<open>catch\<close>
  it fulfils the promise \<open>catch\<close> returned. A rejection method is only ever run on a
  foreign handler, unless the store is dead.
\<close>

definition safeF :: "nat list \<Rightarrow> nat \<Rightarrow> nat \<Rightarrow> hmethod \<Rightarrow> bool" where
  "safeF as L c m =
     (keeps m \<and>
      (\<forall>h v w w'. m h v w = Some w' \<longrightarrow> mach as L c w \<longrightarrow> foreign as L c h \<longrightarrow>
         dead as w' \<or> (mach as L c w' \<and> inflight as L w' = inflight as L w)) \<and>
      (\<forall>k v w w'. m (item_handler c L k) v w = Some w' \<longrightarrow> mach as L c w \<longrightarrow>
         k \<in> inflight as L w \<longrightarrow> pvalue (heap w ! (as ! k)) = Some v \<longrightarrow>
         mach as L c w' \<and> inflight as L w' = inflight as L w - {k}) \<and>
      (\<forall>q v w w'. m (catch_handler L q) v w = Some w' \<longrightarrow> q < length (heap w) \<longrightarrow>
         heap w ! q = fresh \<longrightarrow> w' = w\<lparr>heap := (heap w)[q := fulfilled_with v]\<rparr>))"

definition safeR :: "nat list \<Rightarrow> nat \<Rightarrow> nat \<Rightarrow> hmethod \<Rightarrow> bool" where
  "safeR as L c m =
     (keeps m \<and>
      (\<forall>h v w w'. m h v w = Some w' \<longrightarrow> mach as L c w \<longrightarrow> foreign as L c h \<longrightarrow>
         dead as w' \<or> (mach as L c w' \<and> inflight as L w' = inflight as L w)))"

text \<open>Calls of \<open>resolve\<close> from outside, one after the other: each is a promise and its values.\<close>

primrec resolve_each :: "nat \<Rightarrow> (nat \<times> val list) list \<Rightarrow> world \<Rightarrow> world option" where
  "resolve_each k [] w = Some w"
| "resolve_each k (e # es) w =
     (case promise_resolve (handler_onFulfilled k) (fst e) (snd e) w of
        None \<Rightarrow> None
      | Some w1 \<Rightarrow> resolve_each k es w1)"

text \<open>
  The store \<open>w'\<close> after \<open>j\<close> rounds of the loop of \<open>all\<close>, called in the store \<open>w\<close> on inputs
  that are pending or fulfilled. \<open>early\<close> are the inputs among the first \<open>j\<close> that were
  fulfilled at the call: \<open>then\<close> has run their item callback at once.
\<close>

definition early :: "nat list \<Rightarrow> world \<Rightarrow> nat \<Rightarrow> nat set" where
  "early as w j = {k. k < j \<and> state (heap w ! (as ! k)) = 1}"

definition all_reg :: "nat list \<Rightarrow> world \<Rightarrow> nat \<Rightarrow> world \<Rightarrow> bool" where
  "all_reg as w j w' =
     (length (heap w') = length (heap w) + 1 + 2 * j \<and>
      length (closures w') = Suc (length (closures w)) \<and>
      (\<forall>a < length (heap w).
         heap w' ! a = (heap w ! a)\<lparr>handlers := handlers (heap w ! a) @
            (if state (heap w ! a) = 0
             then sub_handlers (AllItem (length (closures w))) as (length (heap w)) j a
             else [])\<rparr>) \<and>
      (\<forall>c' < length (closures w). closures w' ! c' = closures w ! c') \<and>
      owner (closures w' ! length (closures w)) = length (heap w) \<and>
      plength (closures w' ! length (closures w)) = length as \<and>
      completed (closures w' ! length (closures w)) = card (early as w j) \<and>
      length (result (closures w' ! length (closures w))) \<le> j \<and>
      (\<forall>k \<in> early as w j.
         k < length (result (closures w' ! length (closures w))) \<and>
         result (closures w' ! length (closures w)) ! k =
           first_arg (the (pvalue (heap w ! (as ! k))))) \<and>
      heap w' ! length (heap w) =
        (if card (early as w j) = length as
         then fulfilled_with [VArr (result (closures w' ! length (closures w)))] else fresh) \<and>
      (\<forall>k < j. if state (heap w ! (as ! k)) = 0
               then heap w' ! pslot (length (heap w)) k =
                      fresh\<lparr>handlers := [catch_handler (length (heap w))
                                            (qslot (length (heap w)) k)]\<rparr> \<and>
                    heap w' ! qslot (length (heap w)) k = fresh
               else state (heap w' ! pslot (length (heap w)) k) = 1))"

section \<open>Settled promises are never written again\<close>

lemma stable_refl [simp]: "stable w w"
  by (simp add: stable_def)

lemma stable_trans:
  assumes "stable w1 w2" and "stable w2 w3"
  shows "stable w1 w3"
  unfolding stable_def
proof (intro conjI allI impI)
  show "length (heap w1) \<le> length (heap w3)"
    using assms by (simp add: stable_def)
next
  fix a assume a: "a < length (heap w1)" "settled (heap w1 ! a)"
  then have 1: "heap w2 ! a = heap w1 ! a" using assms(1) by (simp add: stable_def)
  have "a < length (heap w2)" using a(1) assms(1) by (simp add: stable_def)
  moreover have "settled (heap w2 ! a)" using 1 a(2) by simp
  ultimately have "heap w3 ! a = heap w2 ! a" using assms(2) by (simp add: stable_def)
  with 1 show "heap w3 ! a = heap w1 ! a" by simp
qed

lemma stable_heap_eq: "heap w' = heap w \<Longrightarrow> stable w w'"
  by (simp add: stable_def)

lemma stable_alloc: "stable w (w\<lparr>heap := heap w @ ps\<rparr>)"
  by (simp add: stable_def nth_append)

lemma stable_update:
  assumes "\<not> settled (heap w ! a)"
  shows "stable w (w\<lparr>heap := (heap w)[a := p]\<rparr>)"
  unfolding stable_def
proof (intro conjI allI impI)
  show "length (heap w) \<le> length (heap (w\<lparr>heap := (heap w)[a := p]\<rparr>))" by simp
next
  fix b assume "b < length (heap w)" "settled (heap w ! b)"
  with assms have "a \<noteq> b" by auto
  then show "heap (w\<lparr>heap := (heap w)[a := p]\<rparr>) ! b = heap w ! b" by simp
qed

lemma forEach_stable:
  assumes "\<And>it w w'. f it w = Some w' \<Longrightarrow> stable w w'"
  shows "forEach f xs w = Some w' \<Longrightarrow> stable w w'"
proof (induction xs arbitrary: w)
  case Nil
  then show ?case by simp
next
  case (Cons x xs)
  from Cons.prems obtain w1 where 1: "f x w = Some w1" and 2: "forEach f xs w1 = Some w'"
    by (cases "f x w") auto
  from assms[OF 1] Cons.IH[OF 2] show ?case by (rule stable_trans)
qed


lemma keepsD: "keeps m \<Longrightarrow> m h v w = Some w' \<Longrightarrow> stable w w'"
  unfolding keeps_def by blast

lemma promise_resolve_cases:
  assumes "promise_resolve onF a args w = Some w'"
  obtains (noop) "a < length (heap w)" "state (heap w ! a) \<noteq> 0" "w' = w"
  | (settle) "a < length (heap w)" "state (heap w ! a) = 0"
      "forEach (\<lambda>it. onF it args) (handlers (heap w ! a))
         (w\<lparr>heap := (heap w)[a := (heap w ! a)\<lparr>state := 1, pvalue := Some args\<rparr>]\<rparr>) = Some w'"
  using assms unfolding promise_resolve_def by (simp split: if_splits)

lemma promise_reject_cases:
  assumes "promise_reject onR a args w = Some w'"
  obtains (noop) "a < length (heap w)" "state (heap w ! a) \<noteq> 0" "w' = w"
  | (settle) "a < length (heap w)" "state (heap w ! a) = 0"
      "forEach (\<lambda>it. onR it args) (handlers (heap w ! a))
         (w\<lparr>heap := (heap w)[a := (heap w ! a)\<lparr>state := 2, reason := Some args\<rparr>]\<rparr>) = Some w'"
  using assms unfolding promise_reject_def by (simp split: if_splits)

lemma dispatch_stable:
  assumes "keeps m" and "forEach (\<lambda>it. m it args) hs w = Some w'"
  shows "stable w w'"
proof (rule forEach_stable[where f = "\<lambda>it. m it args"])
  show "stable u u'" if "m it args u = Some u'" for it u u'
    using assms(1) that by (rule keepsD)
  show "forEach (\<lambda>it. m it args) hs w = Some w'" by (rule assms(2))
qed

lemma promise_resolve_stable:
  assumes "keeps onF" and "promise_resolve onF a args w = Some w'"
  shows "stable w w'"
  using assms(2)
proof (cases rule: promise_resolve_cases)
  case noop
  then show ?thesis by simp
next
  case settle
  from settle(2) have "\<not> settled (heap w ! a)" by (simp add: settled_def)
  then have "stable w (w\<lparr>heap := (heap w)[a := (heap w ! a)\<lparr>state := 1, pvalue := Some args\<rparr>]\<rparr>)"
    by (rule stable_update)
  moreover note dispatch_stable[OF assms(1) settle(3)]
  ultimately show ?thesis by (rule stable_trans)
qed

lemma promise_reject_stable:
  assumes "keeps onR" and "promise_reject onR a args w = Some w'"
  shows "stable w w'"
  using assms(2)
proof (cases rule: promise_reject_cases)
  case noop
  then show ?thesis by simp
next
  case settle
  from settle(2) have "\<not> settled (heap w ! a)" by (simp add: settled_def)
  then have "stable w (w\<lparr>heap := (heap w)[a := (heap w ! a)\<lparr>state := 2, reason := Some args\<rparr>]\<rparr>)"
    by (rule stable_update)
  moreover note dispatch_stable[OF assms(1) settle(3)]
  ultimately show ?thesis by (rule stable_trans)
qed

lemma stable_nth:
  "stable w w' \<Longrightarrow> a < length (heap w) \<Longrightarrow> settled (heap w ! a) \<Longrightarrow> heap w' ! a = heap w ! a"
  unfolding stable_def by blast

lemma promise_resolve_first:
  assumes "keeps onF" and "a < length (heap w)" and "state (heap w ! a) = 0"
    and "promise_resolve onF a args w = Some w'"
  shows "heap w' ! a = (heap w ! a)\<lparr>state := 1, pvalue := Some args\<rparr>"
  using assms(4)
proof (cases rule: promise_resolve_cases)
  case noop
  with assms(3) show ?thesis by simp
next
  case settle
  let ?w1 = "w\<lparr>heap := (heap w)[a := (heap w ! a)\<lparr>state := 1, pvalue := Some args\<rparr>]\<rparr>"
  have "heap w' ! a = heap ?w1 ! a"
  proof (rule stable_nth[OF dispatch_stable[OF assms(1) settle(3)]])
    show "a < length (heap ?w1)" using assms(2) by simp
    show "settled (heap ?w1 ! a)" using assms(2) by (simp add: settled_def)
  qed
  then show ?thesis using assms(2) by simp
qed

lemma promise_reject_first:
  assumes "keeps onR" and "a < length (heap w)" and "state (heap w ! a) = 0"
    and "promise_reject onR a args w = Some w'"
  shows "heap w' ! a = (heap w ! a)\<lparr>state := 2, reason := Some args\<rparr>"
  using assms(4)
proof (cases rule: promise_reject_cases)
  case noop
  with assms(3) show ?thesis by simp
next
  case settle
  let ?w1 = "w\<lparr>heap := (heap w)[a := (heap w ! a)\<lparr>state := 2, reason := Some args\<rparr>]\<rparr>"
  have "heap w' ! a = heap ?w1 ! a"
  proof (rule stable_nth[OF dispatch_stable[OF assms(1) settle(3)]])
    show "a < length (heap ?w1)" using assms(2) by simp
    show "settled (heap ?w1 ! a)" using assms(2) by (simp add: settled_def)
  qed
  then show ?thesis using assms(2) by simp
qed

lemma construct_cases:
  assumes "construct onR cb w = Some (a, w')"
  obtains (plain) w1 where "a = length (heap w)"
      "cb (length (heap w))
         (w\<lparr>heap := heap w @ [\<lparr>state = 0, pvalue = None, reason = None, handlers = []\<rparr>]\<rparr>)
       = Some (None, w1)" "w' = w1"
  | (raised) err w1 where "a = length (heap w)"
      "cb (length (heap w))
         (w\<lparr>heap := heap w @ [\<lparr>state = 0, pvalue = None, reason = None, handlers = []\<rparr>]\<rparr>)
       = Some (Some err, w1)"
      "promise_reject onR (length (heap w)) [err] w1 = Some w'"
  using assms unfolding construct_def Let_def
  by (simp split: option.splits prod.splits)

lemma construct_stable:
  assumes cb: "\<And>this w0 r w1. cb this w0 = Some (r, w1) \<Longrightarrow> stable w0 w1"
    and kR: "keeps onR" and run: "construct onR cb w = Some (a, w')"
  shows "stable w w'"
  using run
proof (cases rule: construct_cases)
  case (plain w1)
  from stable_alloc cb[OF plain(2)] have "stable w w1" by (rule stable_trans)
  with plain(3) show ?thesis by simp
next
  case (raised err w1)
  from stable_alloc cb[OF raised(2)] have "stable w w1" by (rule stable_trans)
  then show ?thesis using promise_reject_stable[OF kR raised(3)] by (rule stable_trans)
qed

lemma then_executor_cases:
  assumes "then_executor onF onR d f g d2 w0 = Some (r, w1)"
  obtains (fulfilled) v where "d < length (heap w0)" "state (heap w0 ! d) = 1"
      "pvalue (heap w0 ! d) = Some v" "r = None"
      "onF \<lparr>cbFulfilled = f, cbRejected = g, derived = d2\<rparr> v w0 = Some w1"
  | (rejected) v where "d < length (heap w0)" "state (heap w0 ! d) = 2"
      "reason (heap w0 ! d) = Some v" "r = None"
      "onR \<lparr>cbFulfilled = f, cbRejected = g, derived = d2\<rparr> v w0 = Some w1"
  | (pending) "d < length (heap w0)" "state (heap w0 ! d) \<noteq> 1" "state (heap w0 ! d) \<noteq> 2"
      "r = None"
      "w1 = w0\<lparr>heap := (heap w0)[d := (heap w0 ! d)\<lparr>handlers := handlers (heap w0 ! d) @
               [\<lparr>cbFulfilled = f, cbRejected = g, derived = d2\<rparr>]\<rparr>]\<rparr>"
  using assms unfolding then_executor_def Let_def
  by (simp split: if_splits option.splits)

lemma then_executor_stable:
  assumes kF: "keeps onF" and kR: "keeps onR"
    and run: "then_executor onF onR d f g d2 w0 = Some (r, w1)"
  shows "stable w0 w1"
  using run
proof (cases rule: then_executor_cases)
  case (fulfilled v)
  from kF fulfilled(5) show ?thesis by (rule keepsD)
next
  case (rejected v)
  from kR rejected(5) show ?thesis by (rule keepsD)
next
  case pending
  from pending(2,3) have "\<not> settled (heap w0 ! d)" by (simp add: settled_def)
  then show ?thesis unfolding pending(5) by (rule stable_update)
qed

lemma promise_then_stable:
  assumes kF: "keeps onF" and kR: "keeps onR"
    and run: "promise_then onF onR d f g w = Some (a, w')"
  shows "stable w w'"
proof (rule construct_stable[OF _ kR])
  show "construct onR (then_executor onF onR d f g) w = Some (a, w')"
    using run by (simp add: promise_then_def)
  show "stable w0 w1" if "then_executor onF onR d f g this w0 = Some (r, w1)" for this w0 r w1
    using kF kR that by (rule then_executor_stable)
qed

lemma run_actions_stable:
  assumes kF: "keeps onF" and kR: "keeps onR"
  shows "run_actions onF onR acts this w = Some w' \<Longrightarrow> stable w w'"
proof (induction acts arbitrary: w)
  case Nil
  then show ?case by simp
next
  case (Cons act acts)
  show ?case
  proof (cases act)
    case (CallResolve args)
    with Cons.prems obtain w1 where 1: "promise_resolve onF this args w = Some w1"
      and 2: "run_actions onF onR acts this w1 = Some w'"
      by (cases "promise_resolve onF this args w") auto
    from promise_resolve_stable[OF kF 1] Cons.IH[OF 2] show ?thesis by (rule stable_trans)
  next
    case (CallReject args)
    with Cons.prems obtain w1 where 1: "promise_reject onR this args w = Some w1"
      and 2: "run_actions onF onR acts this w1 = Some w'"
      by (cases "promise_reject onR this args w") auto
    from promise_reject_stable[OF kR 1] Cons.IH[OF 2] show ?thesis by (rule stable_trans)
  qed
qed

lemma stable_trace: "stable w (w\<lparr>trace := t\<rparr>)"
  by (simp add: stable_def)

lemma stable_closures: "stable w (w\<lparr>closures := t\<rparr>)"
  by (simp add: stable_def)

lemma script_executor_stable:
  assumes kF: "keeps onF" and kR: "keeps onR"
    and run: "script_executor onF onR s this w0 = Some (r, w1)"
  shows "stable w0 w1"
proof (cases s)
  case (Script name acts thrown)
  with run have
    "run_actions onF onR acts this (w0\<lparr>trace := trace w0 @ [ExecutorRun name]\<rparr>) = Some w1"
    by (simp add: script_executor_def split: option.splits)
  from stable_trace run_actions_stable[OF kF kR this] show ?thesis
    by (rule stable_trans)
qed

lemma new_promise_stable:
  assumes kF: "keeps onF" and kR: "keeps onR"
    and run: "new_promise onF onR s w = Some (a, w')"
  shows "stable w w'"
proof (rule construct_stable[OF _ kR])
  show "construct onR (script_executor onF onR s) w = Some (a, w')"
    using run by (simp add: new_promise_def)
  show "stable w0 w1" if "script_executor onF onR s this w0 = Some (r, w1)" for this w0 r w1
    using kF kR that by (rule script_executor_stable)
qed

lemma call_stable:
  assumes kF: "keeps onF" and kR: "keeps onR"
    and run: "call onF onR f args w = Some (r, w')"
  shows "stable w w'"
proof (cases f)
  case Absent
  with run show ?thesis by (simp add: call_def)
next
  case (BoundResolve a)
  with run have "promise_resolve onF a args w = Some w'"
    by (simp add: call_def split: option.splits)
  with kF show ?thesis by (rule promise_resolve_stable)
next
  case (BoundReject a)
  with run have "promise_reject onR a args w = Some w'"
    by (simp add: call_def split: option.splits)
  with kR show ?thesis by (rule promise_reject_stable)
next
  case (AllItem c idx)
  define cl1 where "cl1 = (closures w ! c)\<lparr>result := array_set (result (closures w ! c)) idx (first_arg args),
                          completed := completed (closures w ! c) + 1\<rparr>"
  define w1 where "w1 = w\<lparr>closures := (closures w)[c := cl1]\<rparr>"
  have s1: "stable w w1" unfolding w1_def by (rule stable_closures)
  from run AllItem have
    "w' = w1 \<or> promise_resolve onF (owner cl1) [VArr (result cl1)] w1 = Some w'"
    unfolding call_def Let_def cl1_def w1_def
    by (simp split: if_splits option.splits)
  then show ?thesis
  proof
    assume "w' = w1" with s1 show ?thesis by simp
  next
    assume "promise_resolve onF (owner cl1) [VArr (result cl1)] w1 = Some w'"
    from s1 promise_resolve_stable[OF kF this] show ?thesis by (rule stable_trans)
  qed
next
  case (User name g)
  define w1 where "w1 = w\<lparr>trace := trace w @ [CallbackRun name args]\<rparr>"
  have s1: "stable w w1" unfolding w1_def by (rule stable_trace)
  from run User have
    "w' = w1 \<or> (\<exists>s a. new_promise onF onR s w1 = Some (a, w'))"
    unfolding call_def Let_def w1_def
    by (simp split: outcome.splits option.splits prod.splits) blast
  then show ?thesis
  proof
    assume "w' = w1" with s1 show ?thesis by simp
  next
    assume "\<exists>s a. new_promise onF onR s w1 = Some (a, w')"
    then obtain s a where "new_promise onF onR s w1 = Some (a, w')" by blast
    from s1 new_promise_stable[OF kF kR this] show ?thesis by (rule stable_trans)
  qed
qed

lemma onFulfilled_body_cases:
  assumes "onFulfilled_body onF onR h v w = Some w'"
  obtains (thrown) err w1 where "call onF onR (cbFulfilled h) v w = Some (Thrown err, w1)"
      "promise_reject onR (derived h) [err] w1 = Some w'"
  | (chained) r w1 d where "call onF onR (cbFulfilled h) v w = Some (Returned (VPromise r), w1)"
      "promise_then onF onR r (BoundResolve (derived h)) (BoundReject (derived h)) w1 = Some (d, w')"
  | (plain) res w1 where "call onF onR (cbFulfilled h) v w = Some (Returned res, w1)"
      "\<forall>r. res \<noteq> VPromise r" "promise_resolve onF (derived h) v w1 = Some w'"
  using assms unfolding onFulfilled_body_def
  by (simp split: option.splits prod.splits completion.splits val.splits)

lemma onRejected_body_cases:
  assumes "onRejected_body onF onR h v w = Some w'"
  obtains (thrown) err w1 where "call onF onR (cbRejected h) v w = Some (Thrown err, w1)"
      "promise_reject onR (derived h) [err] w1 = Some w'"
  | (chained) r w1 d where "call onF onR (cbRejected h) v w = Some (Returned (VPromise r), w1)"
      "promise_then onF onR r (BoundResolve (derived h)) (BoundReject (derived h)) w1 = Some (d, w')"
  | (plain) res w1 where "call onF onR (cbRejected h) v w = Some (Returned res, w1)"
      "\<forall>r. res \<noteq> VPromise r" "promise_reject onR (derived h) v w1 = Some w'"
  using assms unfolding onRejected_body_def
  by (simp split: option.splits prod.splits completion.splits val.splits)

lemma onFulfilled_body_stable:
  assumes kF: "keeps onF" and kR: "keeps onR"
    and run: "onFulfilled_body onF onR h v w = Some w'"
  shows "stable w w'"
  using run
proof (cases rule: onFulfilled_body_cases)
  case (thrown err w1)
  from call_stable[OF kF kR thrown(1)] promise_reject_stable[OF kR thrown(2)]
  show ?thesis by (rule stable_trans)
next
  case (chained r w1 d)
  from call_stable[OF kF kR chained(1)] promise_then_stable[OF kF kR chained(2)]
  show ?thesis by (rule stable_trans)
next
  case (plain res w1)
  from call_stable[OF kF kR plain(1)] promise_resolve_stable[OF kF plain(3)]
  show ?thesis by (rule stable_trans)
qed

lemma onRejected_body_stable:
  assumes kF: "keeps onF" and kR: "keeps onR"
    and run: "onRejected_body onF onR h v w = Some w'"
  shows "stable w w'"
  using run
proof (cases rule: onRejected_body_cases)
  case (thrown err w1)
  from call_stable[OF kF kR thrown(1)] promise_reject_stable[OF kR thrown(2)]
  show ?thesis by (rule stable_trans)
next
  case (chained r w1 d)
  from call_stable[OF kF kR chained(1)] promise_then_stable[OF kF kR chained(2)]
  show ?thesis by (rule stable_trans)
next
  case (plain res w1)
  from call_stable[OF kF kR plain(1)] promise_reject_stable[OF kR plain(3)]
  show ?thesis by (rule stable_trans)
qed

lemma handlers_keep: "keeps (handler_onFulfilled n) \<and> keeps (handler_onRejected n)"
proof (induction n)
  case 0
  show ?case by (simp add: keeps_def)
next
  case (Suc n)
  then have kF: "keeps (handler_onFulfilled n)" and kR: "keeps (handler_onRejected n)" by simp_all
  have "keeps (handler_onFulfilled (Suc n))"
    unfolding keeps_def
  proof (intro allI impI)
    fix h v w w' assume "handler_onFulfilled (Suc n) h v w = Some w'"
    then have "onFulfilled_body (handler_onFulfilled n) (handler_onRejected n) h v w = Some w'"
      by simp
    with kF kR show "stable w w'" by (rule onFulfilled_body_stable)
  qed
  moreover have "keeps (handler_onRejected (Suc n))"
    unfolding keeps_def
  proof (intro allI impI)
    fix h v w w' assume "handler_onRejected (Suc n) h v w = Some w'"
    then have "onRejected_body (handler_onFulfilled n) (handler_onRejected n) h v w = Some w'"
      by simp
    with kF kR show "stable w w'" by (rule onRejected_body_stable)
  qed
  ultimately show ?case ..
qed


section \<open>Every call returns\<close>

lemma ext_refl [simp]: "ext w w"
  by (simp add: ext_def)

lemma ext_trans: "ext w1 w2 \<Longrightarrow> ext w2 w3 \<Longrightarrow> ext w1 w3"
  by (simp add: ext_def)

lemma cb_ok_ext: "ext w w' \<Longrightarrow> cb_ok w c \<Longrightarrow> cb_ok w' c"
  by (cases c) (auto simp: cb_ok_def ext_def intro: less_le_trans)

lemma handler_ok_ext: "ext w w' \<Longrightarrow> handler_ok w h \<Longrightarrow> handler_ok w' h"
  by (auto simp: handler_ok_def ext_def intro: cb_ok_ext[unfolded ext_def])

lemma promise_ok_ext: "ext w w' \<Longrightarrow> promise_ok w p \<Longrightarrow> promise_ok w' p"
  by (auto simp: promise_ok_def intro: handler_ok_ext)

lemma weight_pos: "0 < weight h"
  by (simp add: weight_def)

lemma potential_append: "potential (w\<lparr>heap := heap w @ [p]\<rparr>) = potential w + pot p"
  by (simp add: potential_def)

lemma potential_update:
  assumes "a < length (heap w)"
  shows "potential (w\<lparr>heap := (heap w)[a := p]\<rparr>) + pot (heap w ! a) = potential w + pot p"
proof -
  have "map pot (heap w) ! a \<le> sum_list (map pot (heap w))"
    using assms by (intro member_le_sum_list) simp_all
  then have "sum_list ((map pot (heap w))[a := pot p]) + map pot (heap w) ! a =
          sum_list (map pot (heap w)) + pot p"
    using assms by (simp add: sum_list_update)
  then show ?thesis using assms by (simp add: potential_def map_update)
qed

lemma pot_le_potential:
  assumes "a < length (heap w)"
  shows "pot (heap w ! a) \<le> potential w"
proof -
  have "map pot (heap w) ! a \<le> sum_list (map pot (heap w))"
    using assms by (intro member_le_sum_list) simp_all
  then show ?thesis using assms by (simp add: potential_def)
qed

lemma wfD:
  assumes "wf w" and "a < length (heap w)"
  shows "promise_ok w (heap w ! a)"
  using assms by (simp add: wf_def)

lemma wf_update:
  assumes "wf w" and "a < length (heap w)" and "promise_ok w p"
  shows "wf (w\<lparr>heap := (heap w)[a := p]\<rparr>)"
  unfolding wf_def
proof (intro conjI ballI)
  let ?w' = "w\<lparr>heap := (heap w)[a := p]\<rparr>"
  have e: "ext w ?w'" by (simp add: ext_def)
  fix q assume "q \<in> set (heap ?w')"
  then have "q = p \<or> q \<in> set (heap w)"
    using set_update_subset_insert[of "heap w" a p] by auto
  with assms(1,3) have "promise_ok w q" by (auto simp: wf_def)
  with e show "promise_ok ?w' q" by (rule promise_ok_ext)
next
  fix c assume "c \<in> set (closures (w\<lparr>heap := (heap w)[a := p]\<rparr>))"
  with assms(1) show "owner c < length (heap (w\<lparr>heap := (heap w)[a := p]\<rparr>))"
    by (simp add: wf_def)
qed

lemma wf_append:
  assumes "wf w" and "promise_ok (w\<lparr>heap := heap w @ [p]\<rparr>) p"
  shows "wf (w\<lparr>heap := heap w @ [p]\<rparr>)"
  unfolding wf_def
proof (intro conjI ballI)
  let ?w' = "w\<lparr>heap := heap w @ [p]\<rparr>"
  have e: "ext w ?w'" by (simp add: ext_def)
  fix q assume "q \<in> set (heap ?w')"
  then have "q = p \<or> q \<in> set (heap w)" by auto
  then show "promise_ok ?w' q"
  proof
    assume "q = p" with assms(2) show ?thesis by simp
  next
    assume "q \<in> set (heap w)"
    with assms(1) have "promise_ok w q" by (simp add: wf_def)
    with e show ?thesis by (rule promise_ok_ext)
  qed
next
  fix c assume "c \<in> set (closures (w\<lparr>heap := heap w @ [p]\<rparr>))"
  with assms(1) have "owner c < length (heap w)" by (simp add: wf_def)
  then show "owner c < length (heap (w\<lparr>heap := heap w @ [p]\<rparr>))" by simp
qed

lemma cb_ok_trace [simp]: "cb_ok (w\<lparr>trace := t\<rparr>) c = cb_ok w c"
  by (cases c) (simp_all add: cb_ok_def)

lemma wf_trace: "wf w \<Longrightarrow> wf (w\<lparr>trace := t\<rparr>)"
  by (simp add: wf_def promise_ok_def handler_ok_def)

lemma potential_trace [simp]: "potential (w\<lparr>trace := t\<rparr>) = potential w"
  by (simp add: potential_def)

lemma potential_closures [simp]: "potential (w\<lparr>closures := t\<rparr>) = potential w"
  by (simp add: potential_def)

lemma fresh_ok: "promise_ok w fresh"
  by (simp add: promise_ok_def fresh_def)

lemma pot_fresh: "pot fresh = 1"
  by (simp add: pot_def fresh_def)

lemma returns_withinD:
  assumes "returns_within N m" and "wf w" and "handler_ok w h" and "potential w + weight h \<le> N"
  obtains w' where "m h v w = Some w'" and "wf w'" and "ext w w'"
    and "Suc (potential w') \<le> potential w + weight h"
  using assms unfolding returns_within_def by blast

lemma forEach_returns:
  assumes m: "returns_within N m"
  shows "wf w \<Longrightarrow> \<forall>h \<in> set hs. handler_ok w h \<Longrightarrow>
         potential w + sum_list (map weight hs) \<le> N \<Longrightarrow>
         \<exists>w'. forEach (\<lambda>it. m it v) hs w = Some w' \<and> wf w' \<and> ext w w' \<and>
               potential w' + length hs \<le> potential w + sum_list (map weight hs)"
proof (induction hs arbitrary: w)
  case Nil
  then show ?case by simp
next
  case (Cons h hs)
  from Cons.prems have h: "handler_ok w h" and b: "potential w + weight h \<le> N" by simp_all
  from returns_withinD[OF m Cons.prems(1) h b, of v]
  obtain w1 where 1: "m h v w = Some w1" "wf w1" "ext w w1"
    "Suc (potential w1) \<le> potential w + weight h" by blast
  have hs: "\<forall>k \<in> set hs. handler_ok w1 k"
    using Cons.prems(2) 1(3) by (simp add: handler_ok_ext)
  have b1: "potential w1 + sum_list (map weight hs) \<le> N"
    using 1(4) Cons.prems(3) by simp
  from Cons.IH[OF 1(2) hs b1]
  obtain w' where 2: "forEach (\<lambda>it. m it v) hs w1 = Some w'" "wf w'" "ext w1 w'"
    "potential w' + length hs \<le> potential w1 + sum_list (map weight hs)" by blast
  have "forEach (\<lambda>it. m it v) (h # hs) w = Some w'" using 1(1) 2(1) by simp
  moreover have "ext w w'" using 1(3) 2(3) by (rule ext_trans)
  moreover have "potential w' + length (h # hs) \<le> potential w + sum_list (map weight (h # hs))"
    using 1(4) 2(4) by simp
  ultimately show ?case using 2(2) by blast
qed

lemma settle_ok:
  assumes "promise_ok w p"
  shows "promise_ok w (p\<lparr>state := 1, pvalue := Some v\<rparr>)"
    and "promise_ok w (p\<lparr>state := 2, reason := Some v\<rparr>)"
  using assms by (simp_all add: promise_ok_def)

lemma promise_resolve_returns:
  assumes m: "returns_within N m" and w: "wf w" and a: "a < length (heap w)"
    and b: "potential w \<le> Suc N"
  shows "\<exists>w'. promise_resolve m a v w = Some w' \<and> wf w' \<and> ext w w' \<and>
              potential w' \<le> potential w"
proof (cases "state (heap w ! a) = 0")
  case False
  with a have "promise_resolve m a v w = Some w" by (simp add: promise_resolve_def)
  with w show ?thesis by simp
next
  case True
  let ?p = "(heap w ! a)\<lparr>state := 1, pvalue := Some v\<rparr>"
  let ?w1 = "w\<lparr>heap := (heap w)[a := ?p]\<rparr>"
  let ?hs = "handlers (heap w ! a)"
  have ok: "promise_ok w (heap w ! a)" by (rule wfD[OF w a])
  have w1: "wf ?w1" by (rule wf_update[OF w a settle_ok(1)[OF ok]])
  have e1: "ext w ?w1" by (simp add: ext_def)
  have hs: "\<forall>h \<in> set ?hs. handler_ok ?w1 h"
    using ok handler_ok_ext[OF e1] by (simp add: promise_ok_def)
  have p: "potential ?w1 + Suc (sum_list (map weight ?hs)) = potential w"
    using potential_update[OF a, of ?p] True by (simp add: pot_def)
  then have b1: "potential ?w1 + sum_list (map weight ?hs) \<le> N" using b by simp
  from forEach_returns[OF m w1 hs b1, of v]
  obtain w' where 2: "forEach (\<lambda>it. m it v) ?hs ?w1 = Some w'" "wf w'" "ext ?w1 w'"
    "potential w' + length ?hs \<le> potential ?w1 + sum_list (map weight ?hs)" by blast
  have "promise_resolve m a v w = Some w'"
    using a True 2(1) by (simp add: promise_resolve_def)
  moreover have "ext w w'" using e1 2(3) by (rule ext_trans)
  moreover have "potential w' \<le> potential w" using p 2(4) by simp
  ultimately show ?thesis using 2(2) by blast
qed

lemma promise_reject_returns:
  assumes m: "returns_within N m" and w: "wf w" and a: "a < length (heap w)"
    and b: "potential w \<le> Suc N"
  shows "\<exists>w'. promise_reject m a v w = Some w' \<and> wf w' \<and> ext w w' \<and>
              potential w' \<le> potential w"
proof (cases "state (heap w ! a) = 0")
  case False
  with a have "promise_reject m a v w = Some w" by (simp add: promise_reject_def)
  with w show ?thesis by simp
next
  case True
  let ?p = "(heap w ! a)\<lparr>state := 2, reason := Some v\<rparr>"
  let ?w1 = "w\<lparr>heap := (heap w)[a := ?p]\<rparr>"
  let ?hs = "handlers (heap w ! a)"
  have ok: "promise_ok w (heap w ! a)" by (rule wfD[OF w a])
  have w1: "wf ?w1" by (rule wf_update[OF w a settle_ok(2)[OF ok]])
  have e1: "ext w ?w1" by (simp add: ext_def)
  have hs: "\<forall>h \<in> set ?hs. handler_ok ?w1 h"
    using ok handler_ok_ext[OF e1] by (simp add: promise_ok_def)
  have p: "potential ?w1 + Suc (sum_list (map weight ?hs)) = potential w"
    using potential_update[OF a, of ?p] True by (simp add: pot_def)
  then have b1: "potential ?w1 + sum_list (map weight ?hs) \<le> N" using b by simp
  from forEach_returns[OF m w1 hs b1, of v]
  obtain w' where 2: "forEach (\<lambda>it. m it v) ?hs ?w1 = Some w'" "wf w'" "ext ?w1 w'"
    "potential w' + length ?hs \<le> potential ?w1 + sum_list (map weight ?hs)" by blast
  have "promise_reject m a v w = Some w'"
    using a True 2(1) by (simp add: promise_reject_def)
  moreover have "ext w w'" using e1 2(3) by (rule ext_trans)
  moreover have "potential w' \<le> potential w" using p 2(4) by simp
  ultimately show ?thesis using 2(2) by blast
qed

lemma promise_resolve_bare:
  assumes w: "wf w" and a: "bare a w"
  shows "\<exists>w'. promise_resolve m a v w = Some w' \<and> wf w' \<and> ext w w' \<and>
              potential w' \<le> potential w \<and> bare a w'"
proof (cases "state (heap w ! a) = 0")
  case False
  with a have "promise_resolve m a v w = Some w" by (simp add: promise_resolve_def bare_def)
  with w a show ?thesis by simp
next
  case True
  let ?p = "(heap w ! a)\<lparr>state := 1, pvalue := Some v\<rparr>"
  let ?w1 = "w\<lparr>heap := (heap w)[a := ?p]\<rparr>"
  from a have al: "a < length (heap w)" and hs: "handlers (heap w ! a) = []"
    by (simp_all add: bare_def)
  have "promise_resolve m a v w = Some ?w1"
    using al hs True by (simp add: promise_resolve_def)
  moreover have "wf ?w1" by (rule wf_update[OF w al settle_ok(1)[OF wfD[OF w al]]])
  moreover have "ext w ?w1" by (simp add: ext_def)
  moreover have "potential ?w1 \<le> potential w"
    using potential_update[OF al, of ?p] by (simp add: pot_def)
  moreover have "bare a ?w1" using al hs by (simp add: bare_def)
  ultimately show ?thesis by blast
qed

lemma promise_reject_bare:
  assumes w: "wf w" and a: "bare a w"
  shows "\<exists>w'. promise_reject m a v w = Some w' \<and> wf w' \<and> ext w w' \<and>
              potential w' \<le> potential w \<and> bare a w'"
proof (cases "state (heap w ! a) = 0")
  case False
  with a have "promise_reject m a v w = Some w" by (simp add: promise_reject_def bare_def)
  with w a show ?thesis by simp
next
  case True
  let ?p = "(heap w ! a)\<lparr>state := 2, reason := Some v\<rparr>"
  let ?w1 = "w\<lparr>heap := (heap w)[a := ?p]\<rparr>"
  from a have al: "a < length (heap w)" and hs: "handlers (heap w ! a) = []"
    by (simp_all add: bare_def)
  have "promise_reject m a v w = Some ?w1"
    using al hs True by (simp add: promise_reject_def)
  moreover have "wf ?w1" by (rule wf_update[OF w al settle_ok(2)[OF wfD[OF w al]]])
  moreover have "ext w ?w1" by (simp add: ext_def)
  moreover have "potential ?w1 \<le> potential w"
    using potential_update[OF al, of ?p] by (simp add: pot_def)
  moreover have "bare a ?w1" using al hs by (simp add: bare_def)
  ultimately show ?thesis by blast
qed

lemma run_actions_bare:
  "wf w \<Longrightarrow> bare a w \<Longrightarrow>
   \<exists>w'. run_actions mF mR acts a w = Some w' \<and> wf w' \<and> ext w w' \<and>
        potential w' \<le> potential w \<and> bare a w'"
proof (induction acts arbitrary: w)
  case Nil
  then show ?case by simp
next
  case (Cons act acts)
  have "\<exists>w1. (case act of CallResolve args \<Rightarrow> promise_resolve mF a args w
                         | CallReject args \<Rightarrow> promise_reject mR a args w) = Some w1 \<and>
             wf w1 \<and> ext w w1 \<and> potential w1 \<le> potential w \<and> bare a w1"
    using promise_resolve_bare[OF Cons.prems] promise_reject_bare[OF Cons.prems]
    by (cases act) simp_all
  then obtain w1 where 1:
    "(case act of CallResolve args \<Rightarrow> promise_resolve mF a args w
                | CallReject args \<Rightarrow> promise_reject mR a args w) = Some w1"
    "wf w1" "ext w w1" "potential w1 \<le> potential w" "bare a w1" by blast
  from Cons.IH[OF 1(2) 1(5)]
  obtain w' where 2: "run_actions mF mR acts a w1 = Some w'" "wf w'" "ext w1 w'"
    "potential w' \<le> potential w1" "bare a w'" by blast
  have "run_actions mF mR (act # acts) a w = Some w'" using 1(1) 2(1) by simp
  moreover have "ext w w'" using 1(3) 2(3) by (rule ext_trans)
  moreover have "potential w' \<le> potential w" using 1(4) 2(4) by simp
  ultimately show ?case using 2(2) 2(5) by blast
qed

lemma alloc_fresh:
  assumes "wf w"
  shows "wf (w\<lparr>heap := heap w @ [fresh]\<rparr>)"
    and "ext w (w\<lparr>heap := heap w @ [fresh]\<rparr>)"
    and "potential (w\<lparr>heap := heap w @ [fresh]\<rparr>) = Suc (potential w)"
    and "bare (length (heap w)) (w\<lparr>heap := heap w @ [fresh]\<rparr>)"
  using assms
  by (simp_all add: wf_append fresh_ok ext_def potential_append pot_fresh bare_def)
     (simp add: fresh_def)

lemma new_promise_returns:
  assumes w: "wf w"
  shows "\<exists>a w'. new_promise mF mR s w = Some (a, w') \<and> wf w' \<and> ext w w' \<and>
                potential w' \<le> Suc (potential w) \<and> a < length (heap w')"
proof (cases s)
  case (Script name acts thrown)
  let ?a = "length (heap w)"
  let ?w0 = "w\<lparr>heap := heap w @ [fresh]\<rparr>"
  let ?wt = "?w0\<lparr>trace := trace ?w0 @ [ExecutorRun name]\<rparr>"
  note al = alloc_fresh[OF w]
  have wt: "wf ?wt" by (rule wf_trace[OF al(1)])
  have bt: "bare ?a ?wt" using al(4) by (simp add: bare_def)
  from run_actions_bare[OF wt bt, of mF mR acts]
  obtain w1 where 1: "run_actions mF mR acts ?a ?wt = Some w1" "wf w1" "ext ?wt w1"
    "potential w1 \<le> potential ?wt" "bare ?a w1" by blast
  have e1: "ext w w1" using 1(3) by (simp add: ext_def)
  have p1: "potential w1 \<le> Suc (potential w)" using 1(4) al(3) by simp
  have ex: "script_executor mF mR s ?a ?w0 = Some (thrown, w1)"
    using 1(1) Script by (simp add: script_executor_def)
  show ?thesis
  proof (cases thrown)
    case None
    with ex have "new_promise mF mR s w = Some (?a, w1)"
      by (simp add: new_promise_def construct_def fresh_def)
    with 1(2) e1 p1 1(5) show ?thesis by (auto simp: bare_def)
  next
    case (Some err)
    from promise_reject_bare[OF 1(2) 1(5), of mR "[err]"]
    obtain w2 where 2: "promise_reject mR ?a [err] w1 = Some w2" "wf w2" "ext w1 w2"
      "potential w2 \<le> potential w1" "bare ?a w2" by blast
    from ex Some 2(1) have "new_promise mF mR s w = Some (?a, w2)"
      by (simp add: new_promise_def construct_def fresh_def)
    moreover have "ext w w2" using e1 2(3) by (rule ext_trans)
    moreover have "potential w2 \<le> Suc (potential w)" using p1 2(4) by simp
    ultimately show ?thesis using 2(2) 2(5) by (auto simp: bare_def)
  qed
qed

lemma wf_closures_update:
  assumes "wf w" and "owner cl < length (heap w)"
  shows "wf (w\<lparr>closures := (closures w)[c := cl]\<rparr>)"
unfolding wf_def
proof (intro conjI ballI)
  let ?w' = "w\<lparr>closures := (closures w)[c := cl]\<rparr>"
  have e: "ext w ?w'" by (simp add: ext_def)
  fix q assume "q \<in> set (heap ?w')"
  with assms(1) have "promise_ok w q" by (simp add: wf_def)
  with e show "promise_ok ?w' q" by (rule promise_ok_ext)
next
  fix k assume "k \<in> set (closures (w\<lparr>closures := (closures w)[c := cl]\<rparr>))"
  then have "k = cl \<or> k \<in> set (closures w)"
    using set_update_subset_insert[of "closures w" c cl] by auto
  with assms show "owner k < length (heap (w\<lparr>closures := (closures w)[c := cl]\<rparr>))"
    by (auto simp: wf_def)
qed

lemma call_returns:
  assumes mF: "returns_within N mF" and mR: "returns_within N mR"
    and w: "wf w" and c: "cb_ok w c" and b: "potential w \<le> Suc N"
  shows "\<exists>r w'. call mF mR c v w = Some (r, w') \<and> wf w' \<and> ext w w' \<and>
           potential w' \<le> potential w + (if is_user c then 1 else 0) \<and>
           (\<forall>x. r = Returned (VPromise x) \<longrightarrow> is_user c \<and> x < length (heap w'))"
proof (cases c)
  case Absent
  with w show ?thesis by (simp add: call_def)
next
  case (BoundResolve a)
  with c have a: "a < length (heap w)" by (simp add: cb_ok_def)
  from promise_resolve_returns[OF mF w a b, of v]
  obtain w' where "promise_resolve mF a v w = Some w'" "wf w'" "ext w w'"
    "potential w' \<le> potential w" by blast
  with BoundResolve show ?thesis by (simp add: call_def)
next
  case (BoundReject a)
  with c have a: "a < length (heap w)" by (simp add: cb_ok_def)
  from promise_reject_returns[OF mR w a b, of v]
  obtain w' where "promise_reject mR a v w = Some w'" "wf w'" "ext w w'"
    "potential w' \<le> potential w" by blast
  with BoundReject show ?thesis by (simp add: call_def)
next
  case (AllItem k idx)
  with c have k: "k < length (closures w)" by (simp add: cb_ok_def)
  let ?cl = "closures w ! k"
  let ?cl1 = "?cl\<lparr>result := array_set (result ?cl) idx (first_arg v),
                    completed := completed ?cl + 1\<rparr>"
  let ?w1 = "w\<lparr>closures := (closures w)[k := ?cl1]\<rparr>"
  from w k have ow: "owner ?cl < length (heap w)" by (simp add: wf_def)
  then have w1: "wf ?w1" using wf_closures_update[OF w, of ?cl1 k] by simp
  have e1: "ext w ?w1" by (simp add: ext_def)
  show ?thesis
  proof (cases "completed ?cl1 = plength ?cl1")
    case False
    then have "call mF mR c v w = Some (Returned VUndefined, ?w1)"
      using AllItem k by (simp add: call_def Let_def)
    with w1 e1 show ?thesis by simp
  next
    case True
    have a1: "owner ?cl1 < length (heap ?w1)" using ow by simp
    have b1: "potential ?w1 \<le> Suc N" using b by simp
    from promise_resolve_returns[OF mF w1 a1 b1, of "[VArr (result ?cl1)]"]
    obtain w' where 2: "promise_resolve mF (owner ?cl1) [VArr (result ?cl1)] ?w1 = Some w'"
      "wf w'" "ext ?w1 w'" "potential w' \<le> potential ?w1" by blast
    have "call mF mR c v w = Some (Returned VUndefined, w')"
      using AllItem k True 2(1) by (simp add: call_def Let_def)
    moreover have "ext w w'" using e1 2(3) by (rule ext_trans)
    moreover have "potential w' \<le> potential w" using 2(4) by simp
    ultimately show ?thesis using 2(2) by simp
  qed
next
  case (User name g)
  let ?w1 = "w\<lparr>trace := trace w @ [CallbackRun name v]\<rparr>"
  have w1: "wf ?w1" by (rule wf_trace[OF w])
  have e1: "ext w ?w1" by (simp add: ext_def)
  have u: "is_user c" using User by (simp add: is_user_def)
  show ?thesis
  proof (cases "g v")
    case (Return x)
    then have r: "call mF mR c v w = Some (Returned x, ?w1)"
      using User by (simp add: call_def)
    have "\<forall>y. x = VPromise y \<longrightarrow> y < length (heap ?w1)"
      using c User Return by (auto simp: cb_ok_def)
    with r w1 e1 u show ?thesis by simp
  next
    case (Throw err)
    then have "call mF mR c v w = Some (Thrown err, ?w1)"
      using User by (simp add: call_def)
    with w1 e1 u show ?thesis by simp
  next
    case (ReturnNew s)
    from new_promise_returns[OF w1, of mF mR s]
    obtain a w' where 2: "new_promise mF mR s ?w1 = Some (a, w')" "wf w'" "ext ?w1 w'"
      "potential w' \<le> Suc (potential ?w1)" "a < length (heap w')" by blast
    have "call mF mR c v w = Some (Returned (VPromise a), w')"
      using User ReturnNew 2(1) by (simp add: call_def)
    moreover have "ext w w'" using 2(3) by (simp add: ext_def)
    moreover have "potential w' \<le> potential w + 1" using 2(4) by simp
    ultimately show ?thesis using 2(2) 2(5) u by simp
  qed
qed

lemma pot_push:
  "pot (p\<lparr>handlers := handlers p @ [h]\<rparr>) = pot p + (if state p = 0 then weight h else 0)"
  by (simp add: pot_def)

lemma promise_then_returns:
  assumes mF: "returns_within N mF" and mR: "returns_within N mR"
    and w: "wf w" and r: "r < length (heap w)" and f: "cb_ok w f" and g: "cb_ok w g"
    and b: "Suc (potential w) + weight \<lparr>cbFulfilled = f, cbRejected = g, derived = length (heap w)\<rparr> \<le> N"
  shows "\<exists>d w'. promise_then mF mR r f g w = Some (d, w') \<and> wf w' \<and> ext w w' \<and>
           potential w' \<le> Suc (potential w) +
             weight \<lparr>cbFulfilled = f, cbRejected = g, derived = length (heap w)\<rparr> \<and>
           d = length (heap w)"
proof -
  let ?d = "length (heap w)"
  let ?h = "\<lparr>cbFulfilled = f, cbRejected = g, derived = ?d\<rparr>"
  let ?w0 = "w\<lparr>heap := heap w @ [fresh]\<rparr>"
  note al = alloc_fresh[OF w]
  have h: "handler_ok ?w0 ?h"
    using cb_ok_ext[OF al(2) f] cb_ok_ext[OF al(2) g] by (simp add: handler_ok_def)
  have r0: "r < length (heap ?w0)" and pr: "heap ?w0 ! r = heap w ! r"
    using r by (simp_all add: nth_append)
  have ok: "promise_ok ?w0 (heap w ! r)" using wfD[OF al(1) r0] pr by simp
  have b0: "potential ?w0 + weight ?h \<le> N" using b al(3) by simp
  have "\<exists>w'. then_executor mF mR r f g ?d ?w0 = Some (None, w') \<and> wf w' \<and> ext ?w0 w' \<and>
             potential w' \<le> potential ?w0 + weight ?h"
  proof (cases "state (heap w ! r) = 1")
    case True
    with ok obtain vs where vs: "pvalue (heap w ! r) = Some vs" by (auto simp: promise_ok_def)
    from returns_withinD[OF mF al(1) h b0, of vs]
    obtain w' where 1: "mF ?h vs ?w0 = Some w'" "wf w'" "ext ?w0 w'"
      "Suc (potential w') \<le> potential ?w0 + weight ?h" by blast
    have "then_executor mF mR r f g ?d ?w0 = Some (None, w')"
      using r0 pr True vs 1(1) by (simp add: then_executor_def)
    with 1 show ?thesis by simp
  next
    case n1: False
    show ?thesis
    proof (cases "state (heap w ! r) = 2")
      case True
      with ok obtain vs where vs: "reason (heap w ! r) = Some vs" by (auto simp: promise_ok_def)
      from returns_withinD[OF mR al(1) h b0, of vs]
      obtain w' where 1: "mR ?h vs ?w0 = Some w'" "wf w'" "ext ?w0 w'"
        "Suc (potential w') \<le> potential ?w0 + weight ?h" by blast
      have "then_executor mF mR r f g ?d ?w0 = Some (None, w')"
        using r0 pr True vs 1(1) by (simp add: then_executor_def)
      with 1 show ?thesis by simp
    next
      case False
      let ?p = "(heap ?w0 ! r)\<lparr>handlers := handlers (heap ?w0 ! r) @ [?h]\<rparr>"
      let ?w1 = "?w0\<lparr>heap := (heap ?w0)[r := ?p]\<rparr>"
      have "promise_ok ?w0 ?p" using ok h pr by (simp add: promise_ok_def)
      then have w1: "wf ?w1" by (rule wf_update[OF al(1) r0])
      have e1: "ext ?w0 ?w1" by (simp add: ext_def)
      have "potential ?w1 + pot (heap ?w0 ! r) = potential ?w0 + pot ?p"
        by (rule potential_update[OF r0])
      then have p1: "potential ?w1 \<le> potential ?w0 + weight ?h"
        by (simp add: pot_push split: if_splits)
      have "then_executor mF mR r f g ?d ?w0 = Some (None, ?w1)"
        using r0 pr n1 False by (simp add: then_executor_def)
      with w1 e1 p1 show ?thesis by blast
    qed
  qed
  then obtain w' where 1: "then_executor mF mR r f g ?d ?w0 = Some (None, w')" "wf w'"
    "ext ?w0 w'" "potential w' \<le> potential ?w0 + weight ?h" by blast
  have "promise_then mF mR r f g w = Some (?d, w')"
    using 1(1) by (simp add: promise_then_def construct_def fresh_def)
  moreover have "ext w w'" using al(2) 1(3) by (rule ext_trans)
  moreover have "potential w' \<le> Suc (potential w) + weight ?h" using 1(4) al(3) by simp
  ultimately show ?thesis using 1(2) by blast
qed

lemma weight_bound: "weight h = 1 \<or> weight h = 4"
  by (simp add: weight_def)

lemma weight_user:
  "is_user (cbFulfilled h) \<Longrightarrow> weight h = 4"
  "is_user (cbRejected h) \<Longrightarrow> weight h = 4"
  by (simp_all add: weight_def)

lemma weight_bound_pair [simp]:
  "weight \<lparr>cbFulfilled = BoundResolve d, cbRejected = BoundReject d, derived = e\<rparr> = 1"
  by (simp add: weight_def is_user_def)

lemma onFulfilled_body_returns:
  assumes mF: "returns_within N mF" and mR: "returns_within N mR"
  shows "returns_within (Suc N) (onFulfilled_body mF mR)"
unfolding returns_within_def
proof (intro allI impI)
  fix h v w
  assume "wf w \<and> handler_ok w h \<and> potential w + weight h \<le> Suc N"
  then have w: "wf w" and h: "handler_ok w h" and b: "potential w + weight h \<le> Suc N"
    by simp_all
  from h have c: "cb_ok w (cbFulfilled h)" and d: "derived h < length (heap w)"
    by (simp_all add: handler_ok_def)
  from b have b0: "potential w \<le> Suc N" by simp
  from call_returns[OF mF mR w c b0, of v]
  obtain r w1 where 1: "call mF mR (cbFulfilled h) v w = Some (r, w1)" "wf w1" "ext w w1"
    "potential w1 \<le> potential w + (if is_user (cbFulfilled h) then 1 else 0)"
    "\<forall>x. r = Returned (VPromise x) \<longrightarrow> is_user (cbFulfilled h) \<and> x < length (heap w1)"
    by blast
  from d 1(3) have d1: "derived h < length (heap w1)" by (simp add: ext_def)
  have b1: "potential w1 \<le> Suc N" and s1: "Suc (potential w1) \<le> potential w + weight h"
    using 1(4) b weight_bound[of h] weight_user(1)[of h] weight_pos[of h]
    by (auto split: if_splits)
  have settle: "\<exists>w'. m = Some w' \<and> wf w' \<and> ext w w' \<and> Suc (potential w') \<le> potential w + weight h"
    if t: "\<exists>w'. m = Some w' \<and> wf w' \<and> ext w1 w' \<and> potential w' \<le> potential w1" for m
  proof -
    from t obtain w' where 2: "m = Some w'" "wf w'" "ext w1 w'" "potential w' \<le> potential w1"
      by blast
    have "ext w w'" using 1(3) 2(3) by (rule ext_trans)
    moreover have "Suc (potential w') \<le> potential w + weight h" using s1 2(4) by simp
    ultimately show ?thesis using 2(1,2) by blast
  qed
  show "\<exists>w'. onFulfilled_body mF mR h v w = Some w' \<and> wf w' \<and> ext w w' \<and>
             Suc (potential w') \<le> potential w + weight h"
  proof (cases r)
    case (Thrown err)
    then have "onFulfilled_body mF mR h v w = promise_reject mR (derived h) [err] w1"
      using 1(1) by (simp add: onFulfilled_body_def)
    with settle[OF promise_reject_returns[OF mR 1(2) d1 b1, of "[err]"]] show ?thesis by simp
  next
    case (Returned x)
    show ?thesis
    proof (cases "\<exists>y. x = VPromise y")
      case False
      then have "onFulfilled_body mF mR h v w = promise_resolve mF (derived h) v w1"
        using 1(1) Returned by (cases x) (simp_all add: onFulfilled_body_def)
      with settle[OF promise_resolve_returns[OF mF 1(2) d1 b1, of v]] show ?thesis by simp
    next
      case True
      then obtain y where x: "x = VPromise y" by blast
      with 1(5) Returned have u: "is_user (cbFulfilled h)" and y: "y < length (heap w1)"
        by simp_all
      from u have w4: "weight h = 4" by (rule weight_user)
      have cs: "cb_ok w1 (BoundResolve (derived h))" "cb_ok w1 (BoundReject (derived h))"
        using d1 by (simp_all add: cb_ok_def)
      have bt: "Suc (potential w1) + weight \<lparr>cbFulfilled = BoundResolve (derived h),
                  cbRejected = BoundReject (derived h), derived = length (heap w1)\<rparr> \<le> N"
        using 1(4) u b w4 by simp
      from promise_then_returns[OF mF mR 1(2) y cs bt]
      obtain d2 w2 where 2: "promise_then mF mR y (BoundResolve (derived h))
          (BoundReject (derived h)) w1 = Some (d2, w2)" "wf w2" "ext w1 w2"
        "potential w2 \<le> Suc (potential w1) + 1" by auto
      have "onFulfilled_body mF mR h v w = Some w2"
        using 1(1) Returned x 2(1) by (simp add: onFulfilled_body_def)
      moreover have "ext w w2" using 1(3) 2(3) by (rule ext_trans)
      moreover have "Suc (potential w2) \<le> potential w + weight h"
        using 2(4) 1(4) u w4 by simp
      ultimately show ?thesis using 2(2) by blast
    qed
  qed
qed

lemma onRejected_body_returns:
  assumes mF: "returns_within N mF" and mR: "returns_within N mR"
  shows "returns_within (Suc N) (onRejected_body mF mR)"
unfolding returns_within_def
proof (intro allI impI)
  fix h v w
  assume "wf w \<and> handler_ok w h \<and> potential w + weight h \<le> Suc N"
  then have w: "wf w" and h: "handler_ok w h" and b: "potential w + weight h \<le> Suc N"
    by simp_all
  from h have c: "cb_ok w (cbRejected h)" and d: "derived h < length (heap w)"
    by (simp_all add: handler_ok_def)
  from b have b0: "potential w \<le> Suc N" by simp
  from call_returns[OF mF mR w c b0, of v]
  obtain r w1 where 1: "call mF mR (cbRejected h) v w = Some (r, w1)" "wf w1" "ext w w1"
    "potential w1 \<le> potential w + (if is_user (cbRejected h) then 1 else 0)"
    "\<forall>x. r = Returned (VPromise x) \<longrightarrow> is_user (cbRejected h) \<and> x < length (heap w1)"
    by blast
  from d 1(3) have d1: "derived h < length (heap w1)" by (simp add: ext_def)
  have b1: "potential w1 \<le> Suc N" and s1: "Suc (potential w1) \<le> potential w + weight h"
    using 1(4) b weight_bound[of h] weight_user(2)[of h] weight_pos[of h]
    by (auto split: if_splits)
  have settle: "\<exists>w'. m = Some w' \<and> wf w' \<and> ext w w' \<and> Suc (potential w') \<le> potential w + weight h"
    if t: "\<exists>w'. m = Some w' \<and> wf w' \<and> ext w1 w' \<and> potential w' \<le> potential w1" for m
  proof -
    from t obtain w' where 2: "m = Some w'" "wf w'" "ext w1 w'" "potential w' \<le> potential w1"
      by blast
    have "ext w w'" using 1(3) 2(3) by (rule ext_trans)
    moreover have "Suc (potential w') \<le> potential w + weight h" using s1 2(4) by simp
    ultimately show ?thesis using 2(1,2) by blast
  qed
  show "\<exists>w'. onRejected_body mF mR h v w = Some w' \<and> wf w' \<and> ext w w' \<and>
             Suc (potential w') \<le> potential w + weight h"
  proof (cases r)
    case (Thrown err)
    then have "onRejected_body mF mR h v w = promise_reject mR (derived h) [err] w1"
      using 1(1) by (simp add: onRejected_body_def)
    with settle[OF promise_reject_returns[OF mR 1(2) d1 b1, of "[err]"]] show ?thesis by simp
  next
    case (Returned x)
    show ?thesis
    proof (cases "\<exists>y. x = VPromise y")
      case False
      then have "onRejected_body mF mR h v w = promise_reject mR (derived h) v w1"
        using 1(1) Returned by (cases x) (simp_all add: onRejected_body_def)
      with settle[OF promise_reject_returns[OF mR 1(2) d1 b1, of v]] show ?thesis by simp
    next
      case True
      then obtain y where x: "x = VPromise y" by blast
      with 1(5) Returned have u: "is_user (cbRejected h)" and y: "y < length (heap w1)"
        by simp_all
      from u have w4: "weight h = 4" by (rule weight_user)
      have cs: "cb_ok w1 (BoundResolve (derived h))" "cb_ok w1 (BoundReject (derived h))"
        using d1 by (simp_all add: cb_ok_def)
      have bt: "Suc (potential w1) + weight \<lparr>cbFulfilled = BoundResolve (derived h),
                  cbRejected = BoundReject (derived h), derived = length (heap w1)\<rparr> \<le> N"
        using 1(4) u b w4 by simp
      from promise_then_returns[OF mF mR 1(2) y cs bt]
      obtain d2 w2 where 2: "promise_then mF mR y (BoundResolve (derived h))
          (BoundReject (derived h)) w1 = Some (d2, w2)" "wf w2" "ext w1 w2"
        "potential w2 \<le> Suc (potential w1) + 1" by auto
      have "onRejected_body mF mR h v w = Some w2"
        using 1(1) Returned x 2(1) by (simp add: onRejected_body_def)
      moreover have "ext w w2" using 1(3) 2(3) by (rule ext_trans)
      moreover have "Suc (potential w2) \<le> potential w + weight h"
        using 2(4) 1(4) u w4 by simp
      ultimately show ?thesis using 2(2) by blast
    qed
  qed
qed

lemma handlers_return:
  "returns_within N (handler_onFulfilled N) \<and> returns_within N (handler_onRejected N)"
proof (induction N)
  case 0
  have "\<not> potential w + weight h \<le> 0" for w h using weight_pos[of h] by simp
  then show ?case by (simp add: returns_within_def)
next
  case (Suc N)
  have F: "handler_onFulfilled (Suc N) =
             onFulfilled_body (handler_onFulfilled N) (handler_onRejected N)"
    and R: "handler_onRejected (Suc N) =
             onRejected_body (handler_onFulfilled N) (handler_onRejected N)"
    by (intro ext, simp)+
  from Suc show ?case
    unfolding F R by (simp add: onFulfilled_body_returns onRejected_body_returns)
qed

lemma resolve_returns:
  assumes "wf w" and "a < length (heap w)" and "potential w \<le> Suc n"
  shows "\<exists>w'. promise_resolve (handler_onFulfilled n) a v w = Some w' \<and> wf w' \<and>
              potential w' \<le> potential w"
  using promise_resolve_returns[OF conjunct1[OF handlers_return] assms] by blast

lemma reject_returns:
  assumes "wf w" and "a < length (heap w)" and "potential w \<le> Suc n"
  shows "\<exists>w'. promise_reject (handler_onRejected n) a v w = Some w' \<and> wf w' \<and>
              potential w' \<le> potential w"
  using promise_reject_returns[OF conjunct2[OF handlers_return] assms] by blast

section \<open>What a handler cannot name, it does not change\<close>

lemma forEach_append:
  "forEach f (xs @ ys) w = (case forEach f xs w of None \<Rightarrow> None | Some w1 \<Rightarrow> forEach f ys w1)"
  by (induction xs arbitrary: w) (simp_all split: option.splits)

lemma promise_then_cases:
  assumes "promise_then onF onR r f g w = Some (d, w')"
  obtains "d = length (heap w)"
    "then_executor onF onR r f g (length (heap w)) (w\<lparr>heap := heap w @ [fresh]\<rparr>) = Some (None, w')"
proof -
  from assms have c: "construct onR (then_executor onF onR r f g) w = Some (d, w')"
    by (simp add: promise_then_def)
  show ?thesis
  proof (cases rule: construct_cases[OF c])
    case (1 w1)
    then show ?thesis using that by (simp add: fresh_def)
  next
    case (2 err w1)
    from 2(2) have False by (cases rule: then_executor_cases) simp_all
    then show ?thesis ..
  qed
qed

lemma new_promise_cases:
  assumes "new_promise onF onR (Script name acts thrown) w = Some (a, w')"
  obtains w1 where "a = length (heap w)"
    "run_actions onF onR acts (length (heap w))
       (w\<lparr>heap := heap w @ [fresh], trace := trace w @ [ExecutorRun name]\<rparr>) = Some w1"
    "thrown = None \<and> w' = w1 \<or>
     (\<exists>err. thrown = Some err \<and> promise_reject onR (length (heap w)) [err] w1 = Some w')"
proof -
  from assms have c: "construct onR (script_executor onF onR (Script name acts thrown)) w = Some (a, w')"
    by (simp add: new_promise_def)
  show ?thesis
  proof (cases rule: construct_cases[OF c])
    case (1 w1)
    then show ?thesis using that[of w1]
      by (auto simp: script_executor_def fresh_def split: option.splits)
  next
    case (2 err w1)
    then show ?thesis using that[of w1]
      by (auto simp: script_executor_def fresh_def split: option.splits)
  qed
qed

lemma call_cases:
  assumes "call onF onR f args w = Some (r, w')"
  obtains (absent) "f = Absent" "r = Returned VUndefined" "w' = w"
  | (bound_resolve) a where "f = BoundResolve a" "r = Returned VUndefined"
      "promise_resolve onF a args w = Some w'"
  | (bound_reject) a where "f = BoundReject a" "r = Returned VUndefined"
      "promise_reject onR a args w = Some w'"
  | (item_more) c idx where "f = AllItem c idx" "r = Returned VUndefined" "c < length (closures w)"
      "Suc (completed (closures w ! c)) \<noteq> plength (closures w ! c)"
      "w' = w\<lparr>closures := (closures w)[c := (closures w ! c)
               \<lparr>result := array_set (result (closures w ! c)) idx (first_arg args),
                completed := completed (closures w ! c) + 1\<rparr>]\<rparr>"
  | (item_last) c idx where "f = AllItem c idx" "r = Returned VUndefined" "c < length (closures w)"
      "Suc (completed (closures w ! c)) = plength (closures w ! c)"
      "promise_resolve onF (owner (closures w ! c))
         [VArr (array_set (result (closures w ! c)) idx (first_arg args))]
         (w\<lparr>closures := (closures w)[c := (closures w ! c)
               \<lparr>result := array_set (result (closures w ! c)) idx (first_arg args),
                completed := completed (closures w ! c) + 1\<rparr>]\<rparr>) = Some w'"
  | (returned) name g v where "f = User name g" "g args = Return v" "r = Returned v"
      "w' = w\<lparr>trace := trace w @ [CallbackRun name args]\<rparr>"
  | (thrown) name g err where "f = User name g" "g args = Throw err" "r = Thrown err"
      "w' = w\<lparr>trace := trace w @ [CallbackRun name args]\<rparr>"
  | (built) name g s a where "f = User name g" "g args = ReturnNew s" "r = Returned (VPromise a)"
      "new_promise onF onR s (w\<lparr>trace := trace w @ [CallbackRun name args]\<rparr>) = Some (a, w')"
proof (cases f)
  case Absent
  with assms absent show ?thesis by (simp add: call_def)
next
  case (BoundResolve a)
  with assms bound_resolve show ?thesis by (simp add: call_def split: option.splits)
next
  case (BoundReject a)
  with assms bound_reject show ?thesis by (simp add: call_def split: option.splits)
next
  case (AllItem c idx)
  with assms item_more[of c idx] item_last[of c idx] show ?thesis
    by (simp add: call_def Let_def split: if_splits option.splits)
next
  case (User name g)
  show ?thesis
  proof (cases "g args")
    case (Return v)
    with assms User returned show ?thesis by (simp add: call_def)
  next
    case (Throw err)
    with assms User thrown show ?thesis by (simp add: call_def)
  next
    case (ReturnNew s)
    with assms User built[of name g s] show ?thesis
      by (auto simp: call_def split: option.splits)
  qed
qed

lemma untouched_refl [simp]: "untouched X C w w"
  by (simp add: untouched_def)

lemma untouched_trans: "untouched X C w1 w2 \<Longrightarrow> untouched X C w2 w3 \<Longrightarrow> untouched X C w1 w3"
  by (simp add: untouched_def)

lemma sealed_alloc:
  assumes "sealed X C w"
  shows "sealed X C (w\<lparr>heap := heap w @ [fresh]\<rparr>)"
    and "untouched X C w (w\<lparr>heap := heap w @ [fresh]\<rparr>)"
    and "length (heap w) \<notin> X"
proof -
  from assms have X: "\<forall>x \<in> X. x < length (heap w)" by (simp add: sealed_def)
  then show "length (heap w) \<notin> X" by auto
  from X show "untouched X C w (w\<lparr>heap := heap w @ [fresh]\<rparr>)"
    by (simp add: untouched_def nth_append)
  show "sealed X C (w\<lparr>heap := heap w @ [fresh]\<rparr>)"
    unfolding sealed_def
  proof (intro conjI allI impI ballI)
    fix x assume "x \<in> X"
    with X show "x < length (heap (w\<lparr>heap := heap w @ [fresh]\<rparr>))" by auto
  next
    fix c assume "c \<in> C"
    with assms show "c < length (closures (w\<lparr>heap := heap w @ [fresh]\<rparr>))" by (simp add: sealed_def)
  next
    fix a h
    assume a: "a < length (heap (w\<lparr>heap := heap w @ [fresh]\<rparr>))" "a \<notin> X"
      "state (heap (w\<lparr>heap := heap w @ [fresh]\<rparr>) ! a) = 0"
      "h \<in> set (handlers (heap (w\<lparr>heap := heap w @ [fresh]\<rparr>) ! a))"
    show "avoids X C h"
    proof (cases "a < length (heap w)")
      case True
      with a assms show ?thesis by (simp add: sealed_def nth_append)
    next
      case False
      with a have "a = length (heap w)" by simp
      with a(4) show ?thesis by (simp add: fresh_def)
    qed
  next
    fix c assume "c < length (closures (w\<lparr>heap := heap w @ [fresh]\<rparr>))" "c \<notin> C"
    with assms show "owner (closures (w\<lparr>heap := heap w @ [fresh]\<rparr>) ! c) \<notin> X"
      by (simp add: sealed_def)
  qed
qed

lemma sealed_update:
  assumes s: "sealed X C w" and a: "a < length (heap w)" "a \<notin> X"
    and p: "state p = 0 \<longrightarrow> (\<forall>h \<in> set (handlers p). avoids X C h)"
  shows "sealed X C (w\<lparr>heap := (heap w)[a := p]\<rparr>)"
    and "untouched X C w (w\<lparr>heap := (heap w)[a := p]\<rparr>)"
proof -
  show "untouched X C w (w\<lparr>heap := (heap w)[a := p]\<rparr>)"
    unfolding untouched_def
  proof (intro conjI ballI)
    fix x assume "x \<in> X"
    with a have "x \<noteq> a" by auto
    then show "heap (w\<lparr>heap := (heap w)[a := p]\<rparr>) ! x = heap w ! x" by simp
  qed simp
  show "sealed X C (w\<lparr>heap := (heap w)[a := p]\<rparr>)"
    unfolding sealed_def
  proof (intro conjI allI impI ballI)
    fix x assume "x \<in> X"
    with s show "x < length (heap (w\<lparr>heap := (heap w)[a := p]\<rparr>))" by (simp add: sealed_def)
  next
    fix c assume "c \<in> C"
    with s show "c < length (closures (w\<lparr>heap := (heap w)[a := p]\<rparr>))" by (simp add: sealed_def)
  next
    fix b h
    assume b: "b < length (heap (w\<lparr>heap := (heap w)[a := p]\<rparr>))" "b \<notin> X"
      "state (heap (w\<lparr>heap := (heap w)[a := p]\<rparr>) ! b) = 0"
      "h \<in> set (handlers (heap (w\<lparr>heap := (heap w)[a := p]\<rparr>) ! b))"
    show "avoids X C h"
    proof (cases "b = a")
      case True
      with b a p show ?thesis by simp
    next
      case False
      with b s show ?thesis by (simp add: sealed_def)
    qed
  next
    fix c assume "c < length (closures (w\<lparr>heap := (heap w)[a := p]\<rparr>))" "c \<notin> C"
    with s show "owner (closures (w\<lparr>heap := (heap w)[a := p]\<rparr>) ! c) \<notin> X"
      by (simp add: sealed_def)
  qed
qed

lemma sealed_trace:
  "sealed X C w \<Longrightarrow> sealed X C (w\<lparr>trace := t\<rparr>)"
  "untouched X C w (w\<lparr>trace := t\<rparr>)"
  by (simp_all add: sealed_def untouched_def)

lemma sealed_cell:
  assumes s: "sealed X C w" and c: "c < length (closures w)" "c \<notin> C"
    and o: "owner cl = owner (closures w ! c)"
  shows "sealed X C (w\<lparr>closures := (closures w)[c := cl]\<rparr>)"
    and "untouched X C w (w\<lparr>closures := (closures w)[c := cl]\<rparr>)"
proof -
  show "untouched X C w (w\<lparr>closures := (closures w)[c := cl]\<rparr>)"
    unfolding untouched_def
  proof (intro conjI ballI)
    fix k assume "k \<in> C"
    with c have "k \<noteq> c" by auto
    then show "closures (w\<lparr>closures := (closures w)[c := cl]\<rparr>) ! k = closures w ! k" by simp
  qed simp
  show "sealed X C (w\<lparr>closures := (closures w)[c := cl]\<rparr>)"
    unfolding sealed_def
  proof (intro conjI allI impI ballI)
    fix x assume "x \<in> X"
    with s show "x < length (heap (w\<lparr>closures := (closures w)[c := cl]\<rparr>))"
      by (simp add: sealed_def)
  next
    fix k assume "k \<in> C"
    with s show "k < length (closures (w\<lparr>closures := (closures w)[c := cl]\<rparr>))"
      by (simp add: sealed_def)
  next
    fix b h
    assume "b < length (heap (w\<lparr>closures := (closures w)[c := cl]\<rparr>))" "b \<notin> X"
      "state (heap (w\<lparr>closures := (closures w)[c := cl]\<rparr>) ! b) = 0"
      "h \<in> set (handlers (heap (w\<lparr>closures := (closures w)[c := cl]\<rparr>) ! b))"
    with s show "avoids X C h" by (simp add: sealed_def)
  next
    fix k assume k: "k < length (closures (w\<lparr>closures := (closures w)[c := cl]\<rparr>))" "k \<notin> C"
    show "owner (closures (w\<lparr>closures := (closures w)[c := cl]\<rparr>) ! k) \<notin> X"
    proof (cases "k = c")
      case True
      with k c o s show ?thesis by (simp add: sealed_def)
    next
      case False
      with k s show ?thesis by (simp add: sealed_def)
    qed
  qed
qed

lemma framesD:
  assumes "frames X C m" and "m h v w = Some w'" and "sealed X C w" and "avoids X C h"
  shows "sealed X C w'" and "untouched X C w w'"
  using assms unfolding frames_def by blast+

lemma forEach_frames:
  assumes m: "frames X C m"
  shows "sealed X C w \<Longrightarrow> \<forall>h \<in> set hs. avoids X C h \<Longrightarrow>
         forEach (\<lambda>it. m it v) hs w = Some w' \<Longrightarrow> sealed X C w' \<and> untouched X C w w'"
proof (induction hs arbitrary: w)
  case Nil
  then show ?case by simp
next
  case (Cons h hs)
  from Cons.prems(3) obtain w1 where 1: "m h v w = Some w1"
    and 2: "forEach (\<lambda>it. m it v) hs w1 = Some w'"
    by (cases "m h v w") auto
  from Cons.prems(2) have h: "avoids X C h" and hs: "\<forall>k \<in> set hs. avoids X C k" by simp_all
  note f = framesD[OF m 1 Cons.prems(1) h]
  from Cons.IH[OF f(1) hs 2] f(2) show ?case by (blast intro: untouched_trans)
qed

lemma promise_resolve_frames:
  assumes m: "frames X C m" and s: "sealed X C w" and a: "a \<notin> X"
    and run: "promise_resolve m a v w = Some w'"
  shows "sealed X C w' \<and> untouched X C w w'"
  using run
proof (cases rule: promise_resolve_cases)
  case noop
  with s show ?thesis by simp
next
  case settle
  let ?p = "(heap w ! a)\<lparr>state := 1, pvalue := Some v\<rparr>"
  let ?w1 = "w\<lparr>heap := (heap w)[a := ?p]\<rparr>"
  have p: "state ?p = 0 \<longrightarrow> (\<forall>h \<in> set (handlers ?p). avoids X C h)" by simp
  note u = sealed_update[OF s settle(1) a p]
  from s settle(1,2) a have hs: "\<forall>h \<in> set (handlers (heap w ! a)). avoids X C h"
    by (simp add: sealed_def)
  from forEach_frames[OF m u(1) hs settle(3)] u(2) show ?thesis
    by (blast intro: untouched_trans)
qed

lemma promise_reject_frames:
  assumes m: "frames X C m" and s: "sealed X C w" and a: "a \<notin> X"
    and run: "promise_reject m a v w = Some w'"
  shows "sealed X C w' \<and> untouched X C w w'"
  using run
proof (cases rule: promise_reject_cases)
  case noop
  with s show ?thesis by simp
next
  case settle
  let ?p = "(heap w ! a)\<lparr>state := 2, reason := Some v\<rparr>"
  let ?w1 = "w\<lparr>heap := (heap w)[a := ?p]\<rparr>"
  have p: "state ?p = 0 \<longrightarrow> (\<forall>h \<in> set (handlers ?p). avoids X C h)" by simp
  note u = sealed_update[OF s settle(1) a p]
  from s settle(1,2) a have hs: "\<forall>h \<in> set (handlers (heap w ! a)). avoids X C h"
    by (simp add: sealed_def)
  from forEach_frames[OF m u(1) hs settle(3)] u(2) show ?thesis
    by (blast intro: untouched_trans)
qed

lemma promise_then_frames:
  assumes mF: "frames X C mF" and mR: "frames X C mR" and s: "sealed X C w" and r: "r \<notin> X"
    and f: "cb_avoids X C f" and g: "cb_avoids X C g"
    and run: "promise_then mF mR r f g w = Some (d, w')"
  shows "sealed X C w' \<and> untouched X C w w' \<and> d \<notin> X"
  using run
proof (cases rule: promise_then_cases)
  case 1
  let ?w0 = "w\<lparr>heap := heap w @ [fresh]\<rparr>"
  let ?h = "\<lparr>cbFulfilled = f, cbRejected = g, derived = length (heap w)\<rparr>"
  note al = sealed_alloc[OF s]
  have h: "avoids X C ?h" using f g al(3) by (simp add: avoids_def)
  have "sealed X C w' \<and> untouched X C ?w0 w'"
    using 1(2)
  proof (cases rule: then_executor_cases)
    case (fulfilled v)
    from framesD[OF mF fulfilled(5) al(1) h] show ?thesis by simp
  next
    case (rejected v)
    from framesD[OF mR rejected(5) al(1) h] show ?thesis by simp
  next
    case pending
    let ?p = "(heap ?w0 ! r)\<lparr>handlers := handlers (heap ?w0 ! r) @ [?h]\<rparr>"
    have p: "state ?p = 0 \<longrightarrow> (\<forall>k \<in> set (handlers ?p). avoids X C k)"
      using al(1) pending(1) r h by (auto simp: sealed_def)
    from sealed_update[OF al(1) pending(1) r p] pending(5) show ?thesis by simp
  qed
  with al(2,3) 1(1) show ?thesis by (blast intro: untouched_trans)
qed

lemma run_actions_frames:
  assumes mF: "frames X C mF" and mR: "frames X C mR" and a: "a \<notin> X"
  shows "sealed X C w \<Longrightarrow> run_actions mF mR acts a w = Some w' \<Longrightarrow>
         sealed X C w' \<and> untouched X C w w'"
proof (induction acts arbitrary: w)
  case Nil
  then show ?case by simp
next
  case (Cons act acts)
  from Cons.prems(2) obtain w1 where
    1: "(case act of CallResolve args \<Rightarrow> promise_resolve mF a args w
                   | CallReject args \<Rightarrow> promise_reject mR a args w) = Some w1"
    and 2: "run_actions mF mR acts a w1 = Some w'"
    by (simp split: option.splits)
  have "sealed X C w1 \<and> untouched X C w w1"
  proof (cases act)
    case (CallResolve args)
    with 1 have "promise_resolve mF a args w = Some w1" by simp
    from promise_resolve_frames[OF mF Cons.prems(1) a this] show ?thesis .
  next
    case (CallReject args)
    with 1 have "promise_reject mR a args w = Some w1" by simp
    from promise_reject_frames[OF mR Cons.prems(1) a this] show ?thesis .
  qed
  with Cons.IH[OF _ 2] show ?case by (blast intro: untouched_trans)
qed

lemma new_promise_frames:
  assumes mF: "frames X C mF" and mR: "frames X C mR" and s: "sealed X C w"
    and run: "new_promise mF mR sc w = Some (a, w')"
  shows "sealed X C w' \<and> untouched X C w w' \<and> a \<notin> X"
proof (cases sc)
  case (Script name acts thrown)
  from run[unfolded Script] show ?thesis
  proof (cases rule: new_promise_cases)
    case (1 w1)
    let ?w0 = "w\<lparr>heap := heap w @ [fresh]\<rparr>"
    let ?wt = "w\<lparr>heap := heap w @ [fresh], trace := trace w @ [ExecutorRun name]\<rparr>"
    note al = sealed_alloc[OF s]
    have st: "sealed X C ?wt" "untouched X C ?w0 ?wt"
      using sealed_trace[of X C ?w0 "trace w @ [ExecutorRun name]"] al(1) by simp_all
    from run_actions_frames[OF mF mR al(3) st(1) 1(2)]
    have r1: "sealed X C w1" "untouched X C ?wt w1" by simp_all
    have u1: "untouched X C w w1"
      using al(2) st(2) r1(2) by (blast intro: untouched_trans)
    from 1(3) show ?thesis
    proof
      assume "thrown = None \<and> w' = w1"
      with r1(1) u1 al(3) 1(1) show ?thesis by simp
    next
      assume "\<exists>err. thrown = Some err \<and> promise_reject mR (length (heap w)) [err] w1 = Some w'"
      then obtain err where "promise_reject mR (length (heap w)) [err] w1 = Some w'" by blast
      from promise_reject_frames[OF mR r1(1) al(3) this] u1 al(3) 1(1) show ?thesis
        by (blast intro: untouched_trans)
    qed
  qed
qed

lemma call_frames:
  assumes mF: "frames X C mF" and mR: "frames X C mR" and s: "sealed X C w"
    and f: "cb_avoids X C f" and run: "call mF mR f v w = Some (r, w')"
  shows "sealed X C w' \<and> untouched X C w w' \<and> (\<forall>x. r = Returned (VPromise x) \<longrightarrow> x \<notin> X)"
  using run
proof (cases rule: call_cases)
  case absent
  with s show ?thesis by simp
next
  case (bound_resolve a)
  with f have "a \<notin> X" by (simp add: cb_avoids_def)
  from promise_resolve_frames[OF mF s this bound_resolve(3)] bound_resolve(2)
  show ?thesis by simp
next
  case (bound_reject a)
  with f have "a \<notin> X" by (simp add: cb_avoids_def)
  from promise_reject_frames[OF mR s this bound_reject(3)] bound_reject(2)
  show ?thesis by simp
next
  case (item_more c idx)
  with f have c: "c \<notin> C" by (simp add: cb_avoids_def)
  from sealed_cell[OF s item_more(3) c, of "(closures w ! c)
               \<lparr>result := array_set (result (closures w ! c)) idx (first_arg v),
                completed := completed (closures w ! c) + 1\<rparr>"] item_more(2,5)
  show ?thesis by simp
next
  case (item_last c idx)
  with f have c: "c \<notin> C" by (simp add: cb_avoids_def)
  let ?cl = "(closures w ! c)
               \<lparr>result := array_set (result (closures w ! c)) idx (first_arg v),
                completed := completed (closures w ! c) + 1\<rparr>"
  have u: "sealed X C (w\<lparr>closures := (closures w)[c := ?cl]\<rparr>)"
    "untouched X C w (w\<lparr>closures := (closures w)[c := ?cl]\<rparr>)"
    using sealed_cell[OF s item_last(3) c, of ?cl] by simp_all
  from s item_last(3) c have o: "owner (closures w ! c) \<notin> X" by (simp add: sealed_def)
  from promise_resolve_frames[OF mF u(1) o item_last(5)] u(2) item_last(2)
  show ?thesis by (auto intro: untouched_trans)
next
  case (returned name g x)
  with f have "\<forall>y. x = VPromise y \<longrightarrow> y \<notin> X" by (auto simp: cb_avoids_def)
  with returned sealed_trace[of X C w "trace w @ [CallbackRun name v]"] s
  show ?thesis by simp
next
  case (thrown name g err)
  with sealed_trace[of X C w "trace w @ [CallbackRun name v]"] s
  show ?thesis by simp
next
  case (built name g sc a)
  let ?wt = "w\<lparr>trace := trace w @ [CallbackRun name v]\<rparr>"
  have st: "sealed X C ?wt" "untouched X C w ?wt"
    using sealed_trace[of X C w "trace w @ [CallbackRun name v]"] s by simp_all
  from new_promise_frames[OF mF mR st(1) built(4)] st(2) built(3)
  show ?thesis by (auto intro: untouched_trans)
qed

lemma onFulfilled_body_frames:
  assumes mF: "frames X C mF" and mR: "frames X C mR"
  shows "frames X C (onFulfilled_body mF mR)"
unfolding frames_def
proof (intro allI impI)
  fix h v w w'
  assume run: "onFulfilled_body mF mR h v w = Some w'" and s: "sealed X C w"
    and h: "avoids X C h"
  from h have f: "cb_avoids X C (cbFulfilled h)" and d: "derived h \<notin> X"
    by (simp_all add: avoids_def)
  from run show "sealed X C w' \<and> untouched X C w w'"
  proof (cases rule: onFulfilled_body_cases)
    case (thrown err w1)
    from call_frames[OF mF mR s f thrown(1)]
    have 1: "sealed X C w1" "untouched X C w w1" by simp_all
    from promise_reject_frames[OF mR 1(1) d thrown(2)] 1(2) show ?thesis
      by (blast intro: untouched_trans)
  next
    case (chained r w1 d2)
    from call_frames[OF mF mR s f chained(1)]
    have 1: "sealed X C w1" "untouched X C w w1" "r \<notin> X" by simp_all
    have cs: "cb_avoids X C (BoundResolve (derived h))" "cb_avoids X C (BoundReject (derived h))"
      using d by (simp_all add: cb_avoids_def)
    from promise_then_frames[OF mF mR 1(1) 1(3) cs chained(2)] 1(2) show ?thesis
      by (blast intro: untouched_trans)
  next
    case (plain res w1)
    from call_frames[OF mF mR s f plain(1)]
    have 1: "sealed X C w1" "untouched X C w w1" by simp_all
    from promise_resolve_frames[OF mF 1(1) d plain(3)] 1(2) show ?thesis
      by (blast intro: untouched_trans)
  qed
qed

lemma onRejected_body_frames:
  assumes mF: "frames X C mF" and mR: "frames X C mR"
  shows "frames X C (onRejected_body mF mR)"
unfolding frames_def
proof (intro allI impI)
  fix h v w w'
  assume run: "onRejected_body mF mR h v w = Some w'" and s: "sealed X C w"
    and h: "avoids X C h"
  from h have f: "cb_avoids X C (cbRejected h)" and d: "derived h \<notin> X"
    by (simp_all add: avoids_def)
  from run show "sealed X C w' \<and> untouched X C w w'"
  proof (cases rule: onRejected_body_cases)
    case (thrown err w1)
    from call_frames[OF mF mR s f thrown(1)]
    have 1: "sealed X C w1" "untouched X C w w1" by simp_all
    from promise_reject_frames[OF mR 1(1) d thrown(2)] 1(2) show ?thesis
      by (blast intro: untouched_trans)
  next
    case (chained r w1 d2)
    from call_frames[OF mF mR s f chained(1)]
    have 1: "sealed X C w1" "untouched X C w w1" "r \<notin> X" by simp_all
    have cs: "cb_avoids X C (BoundResolve (derived h))" "cb_avoids X C (BoundReject (derived h))"
      using d by (simp_all add: cb_avoids_def)
    from promise_then_frames[OF mF mR 1(1) 1(3) cs chained(2)] 1(2) show ?thesis
      by (blast intro: untouched_trans)
  next
    case (plain res w1)
    from call_frames[OF mF mR s f plain(1)]
    have 1: "sealed X C w1" "untouched X C w w1" by simp_all
    from promise_reject_frames[OF mR 1(1) d plain(3)] 1(2) show ?thesis
      by (blast intro: untouched_trans)
  qed
qed

lemma handlers_frame:
  "frames X C (handler_onFulfilled n) \<and> frames X C (handler_onRejected n)"
proof (induction n)
  case 0
  show ?case by (simp add: frames_def)
next
  case (Suc n)
  have F: "handler_onFulfilled (Suc n) =
             onFulfilled_body (handler_onFulfilled n) (handler_onRejected n)"
    and R: "handler_onRejected (Suc n) =
             onRejected_body (handler_onFulfilled n) (handler_onRejected n)"
    by (intro ext, simp)+
  from Suc show ?case
    unfolding F R by (simp add: onFulfilled_body_frames onRejected_body_frames)
qed

section \<open>Settling\<close>

lemma promise_resolve_settled:
  "a < length (heap w) \<Longrightarrow> state (heap w ! a) \<noteq> 0 \<Longrightarrow> promise_resolve m a args w = Some w"
  by (simp add: promise_resolve_def)

lemma promise_reject_settled:
  "a < length (heap w) \<Longrightarrow> state (heap w ! a) \<noteq> 0 \<Longrightarrow> promise_reject m a args w = Some w"
  by (simp add: promise_reject_def)

lemma run_actions_settled:
  assumes "a < length (heap w)" and "state (heap w ! a) \<noteq> 0"
  shows "run_actions mF mR acts a w = Some w"
proof (induction acts)
  case Nil
  show ?case by simp
next
  case (Cons act acts)
  show ?case
  proof (cases act)
    case (CallResolve args)
    with Cons assms show ?thesis by (simp add: promise_resolve_settled)
  next
    case (CallReject args)
    with Cons assms show ?thesis by (simp add: promise_reject_settled)
  qed
qed

text \<open>
  C1 (settle-once). Take any instance that is pending. If a call of \<open>_resolve\<close> on it
  returns, the instance holds state 1 and the arguments as its value, with its reason
  and handler list as before, although all its handlers have run in between; from then
  on every sequence of \<open>_resolve\<close> and \<open>_reject\<close> calls on it, with any arguments, returns
  the very same store, so no field changes and no callback runs (the trace is part of
  the store). The same holds with \<open>_reject\<close> first, state 2 and the reason. On a
  well-formed store the first call does return, whatever the handlers do, once the
  budget reaches the bound \<open>potential\<close> of the store.
\<close>

theorem settle_once:
  assumes "a < length (heap w)" and "state (heap w ! a) = 0"
  shows "(promise_resolve (handler_onFulfilled n) a args w = Some w1 \<longrightarrow>
            heap w1 ! a = (heap w ! a)\<lparr>state := 1, pvalue := Some args\<rparr> \<and>
            (\<forall>m acts. run_actions (handler_onFulfilled m) (handler_onRejected m) acts a w1
                        = Some w1)) \<and>
         (promise_reject (handler_onRejected n) a args w = Some w1 \<longrightarrow>
            heap w1 ! a = (heap w ! a)\<lparr>state := 2, reason := Some args\<rparr> \<and>
            (\<forall>m acts. run_actions (handler_onFulfilled m) (handler_onRejected m) acts a w1
                        = Some w1)) \<and>
         (wf w \<and> potential w \<le> Suc n \<longrightarrow>
            (\<exists>w'. promise_resolve (handler_onFulfilled n) a args w = Some w') \<and>
            (\<exists>w'. promise_reject (handler_onRejected n) a args w = Some w'))"
proof (intro conjI impI)
  assume run: "promise_resolve (handler_onFulfilled n) a args w = Some w1"
  have k: "keeps (handler_onFulfilled n)" using handlers_keep by blast
  show 1: "heap w1 ! a = (heap w ! a)\<lparr>state := 1, pvalue := Some args\<rparr>"
    using k assms run by (rule promise_resolve_first)
  have "length (heap w) \<le> length (heap w1)"
    using promise_resolve_stable[OF k run] by (simp add: stable_def)
  with assms(1) have "a < length (heap w1)" by simp
  moreover from 1 have "state (heap w1 ! a) \<noteq> 0" by simp
  ultimately show "\<forall>m acts. run_actions (handler_onFulfilled m) (handler_onRejected m) acts a w1
                        = Some w1"
    by (simp add: run_actions_settled)
next
  assume run: "promise_reject (handler_onRejected n) a args w = Some w1"
  have k: "keeps (handler_onRejected n)" using handlers_keep by blast
  show 1: "heap w1 ! a = (heap w ! a)\<lparr>state := 2, reason := Some args\<rparr>"
    using k assms run by (rule promise_reject_first)
  have "length (heap w) \<le> length (heap w1)"
    using promise_reject_stable[OF k run] by (simp add: stable_def)
  with assms(1) have "a < length (heap w1)" by simp
  moreover from 1 have "state (heap w1 ! a) \<noteq> 0" by simp
  ultimately show "\<forall>m acts. run_actions (handler_onFulfilled m) (handler_onRejected m) acts a w1
                        = Some w1"
    by (simp add: run_actions_settled)
next
  assume "wf w \<and> potential w \<le> Suc n"
  then show "\<exists>w'. promise_resolve (handler_onFulfilled n) a args w = Some w'"
    using resolve_returns[OF _ assms(1), of n args] by blast
next
  assume "wf w \<and> potential w \<le> Suc n"
  then show "\<exists>w'. promise_reject (handler_onRejected n) a args w = Some w'"
    using reject_returns[OF _ assms(1), of n args] by blast
qed

lemmas example_defs =
  fresh_def fulfilled_with_def rejected_with_def empty_world_def

lemmas engine_defs =
  promise_resolve_def promise_reject_def construct_def then_executor_def promise_then_def
  promise_catch_def call_def onFulfilled_body_def onRejected_body_def

theorem settle_once_witness:
  "0 < length (heap c1_world) \<and> state (heap c1_world ! 0) = 0 \<and>
   promise_resolve (handler_onFulfilled 1) 0 [VNum 1] c1_world = Some c1_resolved \<and>
   heap c1_resolved ! 0 = (heap c1_world ! 0)\<lparr>state := 1, pvalue := Some [VNum 1]\<rparr> \<and>
   run_actions (handler_onFulfilled 3) (handler_onRejected 3)
     [CallReject [VStr ''late''], CallResolve [VNum 2]] 0 c1_resolved = Some c1_resolved \<and>
   promise_reject (handler_onRejected 1) 0 [VStr ''no''] c1_world = Some c1_rejected \<and>
   heap c1_rejected ! 0 = (heap c1_world ! 0)\<lparr>state := 2, reason := Some [VStr ''no'']\<rparr> \<and>
   run_actions (handler_onFulfilled 3) (handler_onRejected 3)
     [CallResolve [VNum 2], CallReject [VStr ''late'']] 0 c1_rejected = Some c1_rejected \<and>
   wf c1_world \<and> potential c1_world \<le> Suc 5 \<and>
   (\<exists>w'. promise_resolve (handler_onFulfilled 5) 0 [VNum 1] c1_world = Some w') \<and>
   (\<exists>w'. promise_reject (handler_onRejected 5) 0 [VNum 1] c1_world = Some w')"
proof -
  have 1: "0 < length (heap c1_world)" and 2: "state (heap c1_world ! 0) = 0"
    by (simp_all add: c1_world_def example_defs)
  have 3: "promise_resolve (handler_onFulfilled 1) 0 [VNum 1] c1_world = Some c1_resolved"
    by (simp add: c1_world_def c1_resolved_def example_defs engine_defs)
  have 4: "promise_reject (handler_onRejected 1) 0 [VStr ''no''] c1_world = Some c1_rejected"
    by (simp add: c1_world_def c1_rejected_def example_defs engine_defs)
  from settle_once[OF 1 2, of 1 "[VNum 1]" c1_resolved] 3
  have 5: "heap c1_resolved ! 0 = (heap c1_world ! 0)\<lparr>state := 1, pvalue := Some [VNum 1]\<rparr> \<and>
           run_actions (handler_onFulfilled 3) (handler_onRejected 3)
             [CallReject [VStr ''late''], CallResolve [VNum 2]] 0 c1_resolved = Some c1_resolved"
    by blast
  from settle_once[OF 1 2, of 1 "[VStr ''no'']" c1_rejected] 4
  have 6: "heap c1_rejected ! 0 = (heap c1_world ! 0)\<lparr>state := 2, reason := Some [VStr ''no'']\<rparr> \<and>
           run_actions (handler_onFulfilled 3) (handler_onRejected 3)
             [CallResolve [VNum 2], CallReject [VStr ''late'']] 0 c1_rejected = Some c1_rejected"
    by blast
  have 7: "wf c1_world" and 8: "potential c1_world \<le> Suc 5"
    by (simp_all add: c1_world_def example_defs wf_def promise_ok_def handler_ok_def cb_ok_def
          potential_def pot_def weight_def is_user_def)
  from settle_once[OF 1 2, of 5 "[VNum 1]"] 7 8
  have 9: "(\<exists>w'. promise_resolve (handler_onFulfilled 5) 0 [VNum 1] c1_world = Some w') \<and>
           (\<exists>w'. promise_reject (handler_onRejected 5) 0 [VNum 1] c1_world = Some w')"
    by blast
  from 1 2 3 4 5 6 7 8 9 show ?thesis by blast
qed

section \<open>What the operations compute\<close>

lemma resolve_fresh:
  assumes "a < length (heap w)" and "state (heap w ! a) = 0" and "handlers (heap w ! a) = []"
  shows "promise_resolve m a vs w =
           Some (w\<lparr>heap := (heap w)[a := (heap w ! a)\<lparr>state := 1, pvalue := Some vs\<rparr>]\<rparr>)"
  using assms by (simp add: promise_resolve_def)

lemma reject_fresh:
  assumes "a < length (heap w)" and "state (heap w ! a) = 0" and "handlers (heap w ! a) = []"
  shows "promise_reject m a rs w =
           Some (w\<lparr>heap := (heap w)[a := (heap w ! a)\<lparr>state := 2, reason := Some rs\<rparr>]\<rparr>)"
  using assms by (simp add: promise_reject_def)

lemma resolve_pending:
  assumes "a < length (heap w)" and "state (heap w ! a) = 0"
  shows "promise_resolve m a vs w =
           forEach (\<lambda>it. m it vs) (handlers (heap w ! a))
             (w\<lparr>heap := (heap w)[a := (heap w ! a)\<lparr>state := 1, pvalue := Some vs\<rparr>]\<rparr>)"
  using assms by (simp add: promise_resolve_def)

lemma reject_pending:
  assumes "a < length (heap w)" and "state (heap w ! a) = 0"
  shows "promise_reject m a rs w =
           forEach (\<lambda>it. m it rs) (handlers (heap w ! a))
             (w\<lparr>heap := (heap w)[a := (heap w ! a)\<lparr>state := 2, reason := Some rs\<rparr>]\<rparr>)"
  using assms by (simp add: promise_reject_def)

lemma construct_plain:
  assumes "cb (length (heap w)) (w\<lparr>heap := heap w @ [fresh]\<rparr>) = Some (None, w1)"
  shows "construct onR cb w = Some (length (heap w), w1)"
  using assms by (simp add: construct_def fresh_def)

lemma construct_raised:
  assumes "cb (length (heap w)) (w\<lparr>heap := heap w @ [fresh]\<rparr>) = Some (Some err, w1)"
    and "promise_reject onR (length (heap w)) [err] w1 = Some w2"
  shows "construct onR cb w = Some (length (heap w), w2)"
  using assms by (simp add: construct_def fresh_def)

lemma then_executor_fulfilled:
  assumes "d < length (heap w0)" and "state (heap w0 ! d) = 1" and "pvalue (heap w0 ! d) = Some vs"
  shows "then_executor onF onR d f g d2 w0 =
           (case onF \<lparr>cbFulfilled = f, cbRejected = g, derived = d2\<rparr> vs w0 of
              None \<Rightarrow> None | Some w1 \<Rightarrow> Some (None, w1))"
  using assms by (simp add: then_executor_def)

lemma then_executor_rejected:
  assumes "d < length (heap w0)" and "state (heap w0 ! d) = 2" and "reason (heap w0 ! d) = Some rs"
  shows "then_executor onF onR d f g d2 w0 =
           (case onR \<lparr>cbFulfilled = f, cbRejected = g, derived = d2\<rparr> rs w0 of
              None \<Rightarrow> None | Some w1 \<Rightarrow> Some (None, w1))"
  using assms by (simp add: then_executor_def)

lemma then_executor_pending:
  assumes "d < length (heap w0)" and "state (heap w0 ! d) = 0"
  shows "then_executor onF onR d f g d2 w0 =
           Some (None, w0\<lparr>heap := (heap w0)[d := (heap w0 ! d)
                   \<lparr>handlers := handlers (heap w0 ! d) @
                      [\<lparr>cbFulfilled = f, cbRejected = g, derived = d2\<rparr>]\<rparr>]\<rparr>)"
  using assms by (simp add: then_executor_def)

lemma then_fulfilled:
  assumes "d < length (heap w)" and "state (heap w ! d) = 1" and "pvalue (heap w ! d) = Some vs"
    and "onF \<lparr>cbFulfilled = f, cbRejected = g, derived = length (heap w)\<rparr> vs
           (w\<lparr>heap := heap w @ [fresh]\<rparr>) = Some w1"
  shows "promise_then onF onR d f g w = Some (length (heap w), w1)"
  unfolding promise_then_def
proof (rule construct_plain)
  have "then_executor onF onR d f g (length (heap w)) (w\<lparr>heap := heap w @ [fresh]\<rparr>) =
          (case onF \<lparr>cbFulfilled = f, cbRejected = g, derived = length (heap w)\<rparr> vs
                  (w\<lparr>heap := heap w @ [fresh]\<rparr>) of
             None \<Rightarrow> None | Some w1 \<Rightarrow> Some (None, w1))"
    using assms(1-3) by (intro then_executor_fulfilled) (simp_all add: nth_append)
  with assms(4)
  show "then_executor onF onR d f g (length (heap w)) (w\<lparr>heap := heap w @ [fresh]\<rparr>) =
          Some (None, w1)" by simp
qed

lemma then_rejected:
  assumes "d < length (heap w)" and "state (heap w ! d) = 2" and "reason (heap w ! d) = Some rs"
    and "onR \<lparr>cbFulfilled = f, cbRejected = g, derived = length (heap w)\<rparr> rs
           (w\<lparr>heap := heap w @ [fresh]\<rparr>) = Some w1"
  shows "promise_then onF onR d f g w = Some (length (heap w), w1)"
  unfolding promise_then_def
proof (rule construct_plain)
  have "then_executor onF onR d f g (length (heap w)) (w\<lparr>heap := heap w @ [fresh]\<rparr>) =
          (case onR \<lparr>cbFulfilled = f, cbRejected = g, derived = length (heap w)\<rparr> rs
                  (w\<lparr>heap := heap w @ [fresh]\<rparr>) of
             None \<Rightarrow> None | Some w1 \<Rightarrow> Some (None, w1))"
    using assms(1-3) by (intro then_executor_rejected) (simp_all add: nth_append)
  with assms(4)
  show "then_executor onF onR d f g (length (heap w)) (w\<lparr>heap := heap w @ [fresh]\<rparr>) =
          Some (None, w1)" by simp
qed

lemma then_pending:
  assumes "d < length (heap w)" and "state (heap w ! d) = 0"
  shows "promise_then onF onR d f g w =
           Some (length (heap w),
                 w\<lparr>heap := (heap w)[d := (heap w ! d)
                      \<lparr>handlers := handlers (heap w ! d) @
                         [\<lparr>cbFulfilled = f, cbRejected = g, derived = length (heap w)\<rparr>]\<rparr>]
                    @ [fresh]\<rparr>)"
  unfolding promise_then_def
proof (rule construct_plain)
  have "then_executor onF onR d f g (length (heap w)) (w\<lparr>heap := heap w @ [fresh]\<rparr>) =
          Some (None, (w\<lparr>heap := heap w @ [fresh]\<rparr>)
            \<lparr>heap := (heap (w\<lparr>heap := heap w @ [fresh]\<rparr>))[d :=
               (heap (w\<lparr>heap := heap w @ [fresh]\<rparr>) ! d)
                 \<lparr>handlers := handlers (heap (w\<lparr>heap := heap w @ [fresh]\<rparr>) ! d) @
                    [\<lparr>cbFulfilled = f, cbRejected = g, derived = length (heap w)\<rparr>]\<rparr>]\<rparr>)"
    using assms by (intro then_executor_pending) (simp_all add: nth_append)
  then show "then_executor onF onR d f g (length (heap w)) (w\<lparr>heap := heap w @ [fresh]\<rparr>) =
          Some (None, w\<lparr>heap := (heap w)[d := (heap w ! d)
                      \<lparr>handlers := handlers (heap w ! d) @
                         [\<lparr>cbFulfilled = f, cbRejected = g, derived = length (heap w)\<rparr>]\<rparr>]
                    @ [fresh]\<rparr>)"
    using assms(1) by (simp add: nth_append list_update_append)
qed

text \<open>The body of a handler method, by what the callback does.\<close>

lemma onFulfilled_absent:
  assumes "cbFulfilled h = Absent"
  shows "onFulfilled_body onF onR h vs w = promise_resolve onF (derived h) vs w"
  using assms by (simp add: onFulfilled_body_def call_def)

lemma onRejected_absent:
  assumes "cbRejected h = Absent"
  shows "onRejected_body onF onR h rs w = promise_reject onR (derived h) rs w"
  using assms by (simp add: onRejected_body_def call_def)

lemma onFulfilled_plain:
  assumes "cbFulfilled h = User name f" and "f vs = Return v" and "\<forall>r. v \<noteq> VPromise r"
  shows "onFulfilled_body onF onR h vs w =
           promise_resolve onF (derived h) vs (w\<lparr>trace := trace w @ [CallbackRun name vs]\<rparr>)"
  using assms by (cases v) (simp_all add: onFulfilled_body_def call_def)

lemma onRejected_plain:
  assumes "cbRejected h = User name f" and "f rs = Return v" and "\<forall>r. v \<noteq> VPromise r"
  shows "onRejected_body onF onR h rs w =
           promise_reject onR (derived h) rs (w\<lparr>trace := trace w @ [CallbackRun name rs]\<rparr>)"
  using assms by (cases v) (simp_all add: onRejected_body_def call_def)

lemma onFulfilled_throw:
  assumes "cbFulfilled h = User name f" and "f vs = Throw err"
  shows "onFulfilled_body onF onR h vs w =
           promise_reject onR (derived h) [err] (w\<lparr>trace := trace w @ [CallbackRun name vs]\<rparr>)"
  using assms by (simp add: onFulfilled_body_def call_def)

lemma onRejected_throw:
  assumes "cbRejected h = User name f" and "f rs = Throw err"
  shows "onRejected_body onF onR h rs w =
           promise_reject onR (derived h) [err] (w\<lparr>trace := trace w @ [CallbackRun name rs]\<rparr>)"
  using assms by (simp add: onRejected_body_def call_def)

lemma onFulfilled_promise:
  assumes "cbFulfilled h = User name f" and "f vs = Return (VPromise r)"
  shows "onFulfilled_body onF onR h vs w =
           (case promise_then onF onR r (BoundResolve (derived h)) (BoundReject (derived h))
                   (w\<lparr>trace := trace w @ [CallbackRun name vs]\<rparr>) of
              None \<Rightarrow> None | Some (d, w2) \<Rightarrow> Some w2)"
  using assms by (simp add: onFulfilled_body_def call_def)

lemma onRejected_promise:
  assumes "cbRejected h = User name f" and "f rs = Return (VPromise r)"
  shows "onRejected_body onF onR h rs w =
           (case promise_then onF onR r (BoundResolve (derived h)) (BoundReject (derived h))
                   (w\<lparr>trace := trace w @ [CallbackRun name rs]\<rparr>) of
              None \<Rightarrow> None | Some (d, w2) \<Rightarrow> Some w2)"
  using assms by (simp add: onRejected_body_def call_def)

lemma onFulfilled_bound_resolve:
  assumes "cbFulfilled h = BoundResolve a"
  shows "onFulfilled_body onF onR h vs w =
           (case promise_resolve onF a vs w of
              None \<Rightarrow> None | Some w1 \<Rightarrow> promise_resolve onF (derived h) vs w1)"
  using assms by (simp add: onFulfilled_body_def call_def split: option.splits)

lemma onRejected_bound_reject:
  assumes "cbRejected h = BoundReject a"
  shows "onRejected_body onF onR h rs w =
           (case promise_reject onR a rs w of
              None \<Rightarrow> None | Some w1 \<Rightarrow> promise_reject onR (derived h) rs w1)"
  using assms by (simp add: onRejected_body_def call_def split: option.splits)

section \<open>Promises built by user executors\<close>

lemma new_promise_pending:
  "new_promise onF onR (Script name [] None) w =
     Some (length (heap w),
           w\<lparr>heap := heap w @ [fresh], trace := trace w @ [ExecutorRun name]\<rparr>)"
  unfolding new_promise_def
  by (rule construct_plain) (simp add: script_executor_def)

lemma new_promise_raised:
  "new_promise onF onR (Script name [] (Some err)) w =
     Some (length (heap w),
           w\<lparr>heap := heap w @ [rejected_with [err]], trace := trace w @ [ExecutorRun name]\<rparr>)"
  unfolding new_promise_def
proof (rule construct_raised)
  show "script_executor onF onR (Script name [] (Some err)) (length (heap w))
          (w\<lparr>heap := heap w @ [fresh]\<rparr>) =
        Some (Some err, w\<lparr>heap := heap w @ [fresh], trace := trace w @ [ExecutorRun name]\<rparr>)"
    by (simp add: script_executor_def)
  show "promise_reject onR (length (heap w)) [err]
          (w\<lparr>heap := heap w @ [fresh], trace := trace w @ [ExecutorRun name]\<rparr>) =
        Some (w\<lparr>heap := heap w @ [rejected_with [err]], trace := trace w @ [ExecutorRun name]\<rparr>)"
    by (simp add: promise_reject_def fresh_def rejected_with_def)
qed

lemma script_executor_resolved:
  "script_executor onF onR (Script name (CallResolve ws # acts) thrown) (length (heap w))
     (w\<lparr>heap := heap w @ [fresh]\<rparr>) =
   Some (thrown, w\<lparr>heap := heap w @ [fulfilled_with ws], trace := trace w @ [ExecutorRun name]\<rparr>)"
proof -
  let ?w1 = "w\<lparr>heap := heap w @ [fulfilled_with ws], trace := trace w @ [ExecutorRun name]\<rparr>"
  have 1: "promise_resolve onF (length (heap w)) ws
             (w\<lparr>heap := heap w @ [fresh], trace := trace w @ [ExecutorRun name]\<rparr>) = Some ?w1"
    by (simp add: promise_resolve_def fresh_def fulfilled_with_def)
  have 2: "run_actions onF onR acts (length (heap w)) ?w1 = Some ?w1"
    by (rule run_actions_settled) (simp_all add: fulfilled_with_def)
  show ?thesis by (simp add: script_executor_def 1 2)
qed

lemma script_executor_rejected:
  "script_executor onF onR (Script name (CallReject rs # acts) thrown) (length (heap w))
     (w\<lparr>heap := heap w @ [fresh]\<rparr>) =
   Some (thrown, w\<lparr>heap := heap w @ [rejected_with rs], trace := trace w @ [ExecutorRun name]\<rparr>)"
proof -
  let ?w1 = "w\<lparr>heap := heap w @ [rejected_with rs], trace := trace w @ [ExecutorRun name]\<rparr>"
  have 1: "promise_reject onR (length (heap w)) rs
             (w\<lparr>heap := heap w @ [fresh], trace := trace w @ [ExecutorRun name]\<rparr>) = Some ?w1"
    by (simp add: promise_reject_def fresh_def rejected_with_def)
  have 2: "run_actions onF onR acts (length (heap w)) ?w1 = Some ?w1"
    by (rule run_actions_settled) (simp_all add: rejected_with_def)
  show ?thesis by (simp add: script_executor_def 1 2)
qed

lemma new_promise_resolved:
  "new_promise onF onR (Script name (CallResolve ws # acts) thrown) w =
     Some (length (heap w),
           w\<lparr>heap := heap w @ [fulfilled_with ws], trace := trace w @ [ExecutorRun name]\<rparr>)"
proof (cases thrown)
  case None
  show ?thesis unfolding new_promise_def
    by (rule construct_plain) (simp add: script_executor_resolved None)
next
  case (Some err)
  show ?thesis unfolding new_promise_def
  proof (rule construct_raised)
    show "script_executor onF onR (Script name (CallResolve ws # acts) thrown) (length (heap w))
            (w\<lparr>heap := heap w @ [fresh]\<rparr>) =
          Some (Some err, w\<lparr>heap := heap w @ [fulfilled_with ws],
                           trace := trace w @ [ExecutorRun name]\<rparr>)"
      by (simp add: script_executor_resolved Some)
    show "promise_reject onR (length (heap w)) [err]
            (w\<lparr>heap := heap w @ [fulfilled_with ws], trace := trace w @ [ExecutorRun name]\<rparr>) =
          Some (w\<lparr>heap := heap w @ [fulfilled_with ws], trace := trace w @ [ExecutorRun name]\<rparr>)"
      by (rule promise_reject_settled) (simp_all add: fulfilled_with_def)
  qed
qed

lemma new_promise_rejected:
  "new_promise onF onR (Script name (CallReject rs # acts) thrown) w =
     Some (length (heap w),
           w\<lparr>heap := heap w @ [rejected_with rs], trace := trace w @ [ExecutorRun name]\<rparr>)"
proof (cases thrown)
  case None
  show ?thesis unfolding new_promise_def
    by (rule construct_plain) (simp add: script_executor_rejected None)
next
  case (Some err)
  show ?thesis unfolding new_promise_def
  proof (rule construct_raised)
    show "script_executor onF onR (Script name (CallReject rs # acts) thrown) (length (heap w))
            (w\<lparr>heap := heap w @ [fresh]\<rparr>) =
          Some (Some err, w\<lparr>heap := heap w @ [rejected_with rs],
                           trace := trace w @ [ExecutorRun name]\<rparr>)"
      by (simp add: script_executor_rejected Some)
    show "promise_reject onR (length (heap w)) [err]
            (w\<lparr>heap := heap w @ [rejected_with rs], trace := trace w @ [ExecutorRun name]\<rparr>) =
          Some (w\<lparr>heap := heap w @ [rejected_with rs], trace := trace w @ [ExecutorRun name]\<rparr>)"
      by (rule promise_reject_settled) (simp_all add: rejected_with_def)
  qed
qed

lemma static_resolve_result:
  "static_resolve onF onR vs w = Some (length (heap w), w\<lparr>heap := heap w @ [fulfilled_with vs]\<rparr>)"
  unfolding static_resolve_def
  by (rule construct_plain) (simp add: promise_resolve_def fresh_def fulfilled_with_def)

lemma static_reject_result:
  "static_reject onF onR rs w = Some (length (heap w), w\<lparr>heap := heap w @ [rejected_with rs]\<rparr>)"
  unfolding static_reject_def
  by (rule construct_plain) (simp add: promise_reject_def fresh_def rejected_with_def)

lemma onFulfilled_new:
  assumes "cbFulfilled h = User name f" and "f vs = ReturnNew s"
    and "new_promise onF onR s (w\<lparr>trace := trace w @ [CallbackRun name vs]\<rparr>) = Some (r, w1)"
  shows "onFulfilled_body onF onR h vs w =
           (case promise_then onF onR r (BoundResolve (derived h)) (BoundReject (derived h)) w1 of
              None \<Rightarrow> None | Some (d, w2) \<Rightarrow> Some w2)"
  using assms by (simp add: onFulfilled_body_def call_def)

lemma onRejected_new:
  assumes "cbRejected h = User name f" and "f rs = ReturnNew s"
    and "new_promise onF onR s (w\<lparr>trace := trace w @ [CallbackRun name rs]\<rparr>) = Some (r, w1)"
  shows "onRejected_body onF onR h rs w =
           (case promise_then onF onR r (BoundResolve (derived h)) (BoundReject (derived h)) w1 of
              None \<Rightarrow> None | Some (d, w2) \<Rightarrow> Some w2)"
  using assms by (simp add: onRejected_body_def call_def)

section \<open>Chaining on a settled promise\<close>

lemma handler_onFulfilled_Suc:
  "handler_onFulfilled (Suc n) =
     onFulfilled_body (handler_onFulfilled n) (handler_onRejected n)"
  by (intro ext) simp

lemma handler_onRejected_Suc:
  "handler_onRejected (Suc n) =
     onRejected_body (handler_onFulfilled n) (handler_onRejected n)"
  by (intro ext) simp

text \<open>
  \<open>result.then(resolve, reject)\<close> on a promise \<open>r\<close> that is already settled, where
  \<open>resolve\<close> and \<open>reject\<close> belong to a pending promise \<open>d2\<close> without handlers: \<open>d2\<close>
  and the new promise take over the outcome of \<open>r\<close>.
\<close>

lemma forward_fulfilled:
  assumes r: "r < length (heap w)" "state (heap w ! r) = 1" "pvalue (heap w ! r) = Some ws"
    and d2: "d2 < length (heap w)" "heap w ! d2 = fresh"
  shows "promise_then (handler_onFulfilled (Suc n)) (handler_onRejected (Suc n)) r
           (BoundResolve d2) (BoundReject d2) w =
         Some (length (heap w),
               w\<lparr>heap := (heap w)[d2 := fulfilled_with ws] @ [fulfilled_with ws]\<rparr>)"
proof (rule then_fulfilled[OF r])
  let ?h = "\<lparr>cbFulfilled = BoundResolve d2, cbRejected = BoundReject d2,
              derived = length (heap w)\<rparr>"
  let ?w0 = "w\<lparr>heap := heap w @ [fresh]\<rparr>"
  let ?w1 = "w\<lparr>heap := (heap w)[d2 := fulfilled_with ws] @ [fresh]\<rparr>"
  have 1: "promise_resolve (handler_onFulfilled n) d2 ws ?w0 = Some ?w1"
    using d2 by (simp add: promise_resolve_def nth_append list_update_append
        fresh_def fulfilled_with_def)
  have 2: "promise_resolve (handler_onFulfilled n) (length (heap w)) ws ?w1 =
             Some (w\<lparr>heap := (heap w)[d2 := fulfilled_with ws] @ [fulfilled_with ws]\<rparr>)"
    by (simp add: promise_resolve_def nth_append list_update_append
        fresh_def fulfilled_with_def)
  show "handler_onFulfilled (Suc n) ?h ws ?w0 =
          Some (w\<lparr>heap := (heap w)[d2 := fulfilled_with ws] @ [fulfilled_with ws]\<rparr>)"
    by (simp add: onFulfilled_bound_resolve 1 2)
qed

lemma forward_rejected:
  assumes r: "r < length (heap w)" "state (heap w ! r) = 2" "reason (heap w ! r) = Some rs"
    and d2: "d2 < length (heap w)" "heap w ! d2 = fresh"
  shows "promise_then (handler_onFulfilled (Suc n)) (handler_onRejected (Suc n)) r
           (BoundResolve d2) (BoundReject d2) w =
         Some (length (heap w),
               w\<lparr>heap := (heap w)[d2 := rejected_with rs] @ [rejected_with rs]\<rparr>)"
proof (rule then_rejected[OF r])
  let ?h = "\<lparr>cbFulfilled = BoundResolve d2, cbRejected = BoundReject d2,
              derived = length (heap w)\<rparr>"
  let ?w0 = "w\<lparr>heap := heap w @ [fresh]\<rparr>"
  let ?w1 = "w\<lparr>heap := (heap w)[d2 := rejected_with rs] @ [fresh]\<rparr>"
  have 1: "promise_reject (handler_onRejected n) d2 rs ?w0 = Some ?w1"
    using d2 by (simp add: promise_reject_def nth_append list_update_append
        fresh_def rejected_with_def)
  have 2: "promise_reject (handler_onRejected n) (length (heap w)) rs ?w1 =
             Some (w\<lparr>heap := (heap w)[d2 := rejected_with rs] @ [rejected_with rs]\<rparr>)"
    by (simp add: promise_reject_def nth_append list_update_append
        fresh_def rejected_with_def)
  show "handler_onRejected (Suc n) ?h rs ?w0 =
          Some (w\<lparr>heap := (heap w)[d2 := rejected_with rs] @ [rejected_with rs]\<rparr>)"
    by (simp add: onRejected_bound_reject 1 2)
qed

text \<open>
  The same on a promise \<open>r\<close> that is still pending and has no other handler: the
  forwarding handler is stored, and the later settlement of \<open>r\<close> reaches \<open>d2\<close>.
\<close>

lemma forward_later_fulfilled:
  assumes "r < length (heap w)" "heap w ! r = fresh\<lparr>handlers := [forwarding d2 d3]\<rparr>"
    and "d2 < length (heap w)" "heap w ! d2 = fresh"
    and "d3 < length (heap w)" "heap w ! d3 = fresh"
    and "d2 \<noteq> d3"
  shows "promise_resolve (handler_onFulfilled (Suc n)) r ws w =
         Some (w\<lparr>heap := (heap w)[r := (fulfilled_with ws)\<lparr>handlers := [forwarding d2 d3]\<rparr>,
                                   d2 := fulfilled_with ws, d3 := fulfilled_with ws]\<rparr>)"
proof -
  from assms have ne: "r \<noteq> d2" "r \<noteq> d3" by (auto simp: fresh_def)
  let ?w1 = "w\<lparr>heap := (heap w)[r := (fulfilled_with ws)\<lparr>handlers := [forwarding d2 d3]\<rparr>]\<rparr>"
  let ?w2 = "w\<lparr>heap := (heap w)[r := (fulfilled_with ws)\<lparr>handlers := [forwarding d2 d3]\<rparr>,
                                   d2 := fulfilled_with ws]\<rparr>"
  have 1: "promise_resolve (handler_onFulfilled n) d2 ws ?w1 = Some ?w2"
    using assms ne by (simp add: promise_resolve_def fresh_def fulfilled_with_def)
  have 2: "promise_resolve (handler_onFulfilled n) d3 ws ?w2 =
             Some (w\<lparr>heap := (heap w)[r := (fulfilled_with ws)\<lparr>handlers := [forwarding d2 d3]\<rparr>,
                                   d2 := fulfilled_with ws, d3 := fulfilled_with ws]\<rparr>)"
    using assms ne by (simp add: promise_resolve_def fresh_def fulfilled_with_def)
  have "handler_onFulfilled (Suc n) (forwarding d2 d3) ws ?w1 =
          Some (w\<lparr>heap := (heap w)[r := (fulfilled_with ws)\<lparr>handlers := [forwarding d2 d3]\<rparr>,
                                   d2 := fulfilled_with ws, d3 := fulfilled_with ws]\<rparr>)"
    using 1 2 by (simp add: onFulfilled_bound_resolve forwarding_def)
  then show ?thesis
    using assms(1,2) by (simp add: promise_resolve_def fresh_def fulfilled_with_def)
qed

lemma forward_later_rejected:
  assumes "r < length (heap w)" "heap w ! r = fresh\<lparr>handlers := [forwarding d2 d3]\<rparr>"
    and "d2 < length (heap w)" "heap w ! d2 = fresh"
    and "d3 < length (heap w)" "heap w ! d3 = fresh"
    and "d2 \<noteq> d3"
  shows "promise_reject (handler_onRejected (Suc n)) r rs w =
         Some (w\<lparr>heap := (heap w)[r := (rejected_with rs)\<lparr>handlers := [forwarding d2 d3]\<rparr>,
                                   d2 := rejected_with rs, d3 := rejected_with rs]\<rparr>)"
proof -
  from assms have ne: "r \<noteq> d2" "r \<noteq> d3" by (auto simp: fresh_def)
  let ?w1 = "w\<lparr>heap := (heap w)[r := (rejected_with rs)\<lparr>handlers := [forwarding d2 d3]\<rparr>]\<rparr>"
  let ?w2 = "w\<lparr>heap := (heap w)[r := (rejected_with rs)\<lparr>handlers := [forwarding d2 d3]\<rparr>,
                                   d2 := rejected_with rs]\<rparr>"
  have 1: "promise_reject (handler_onRejected n) d2 rs ?w1 = Some ?w2"
    using assms ne by (simp add: promise_reject_def fresh_def rejected_with_def)
  have 2: "promise_reject (handler_onRejected n) d3 rs ?w2 =
             Some (w\<lparr>heap := (heap w)[r := (rejected_with rs)\<lparr>handlers := [forwarding d2 d3]\<rparr>,
                                   d2 := rejected_with rs, d3 := rejected_with rs]\<rparr>)"
    using assms ne by (simp add: promise_reject_def fresh_def rejected_with_def)
  have "handler_onRejected (Suc n) (forwarding d2 d3) rs ?w1 =
          Some (w\<lparr>heap := (heap w)[r := (rejected_with rs)\<lparr>handlers := [forwarding d2 d3]\<rparr>,
                                   d2 := rejected_with rs, d3 := rejected_with rs]\<rparr>)"
    using 1 2 by (simp add: onRejected_bound_reject forwarding_def)
  then show ?thesis
    using assms(1,2) by (simp add: promise_reject_def fresh_def rejected_with_def)
qed

subsection \<open>A fulfilled promise\<close>

lemma then_fulfilled_absent:
  assumes d: "d < length (heap w)" "state (heap w ! d) = 1" "pvalue (heap w ! d) = Some vs"
  shows "promise_then (handler_onFulfilled (Suc n)) (handler_onRejected (Suc n)) d Absent g w =
           Some (length (heap w), w\<lparr>heap := heap w @ [fulfilled_with vs]\<rparr>)"
proof (rule then_fulfilled[OF d])
  show "handler_onFulfilled (Suc n)
          \<lparr>cbFulfilled = Absent, cbRejected = g, derived = length (heap w)\<rparr> vs
          (w\<lparr>heap := heap w @ [fresh]\<rparr>) =
        Some (w\<lparr>heap := heap w @ [fulfilled_with vs]\<rparr>)"
    by (simp add: onFulfilled_absent promise_resolve_def fresh_def fulfilled_with_def)
qed

lemma then_fulfilled_plain:
  assumes d: "d < length (heap w)" "state (heap w ! d) = 1" "pvalue (heap w ! d) = Some vs"
    and f: "f vs = Return v" "\<forall>r. v \<noteq> VPromise r"
  shows "promise_then (handler_onFulfilled (Suc n)) (handler_onRejected (Suc n)) d
           (User name f) g w =
           Some (length (heap w),
                 w\<lparr>heap := heap w @ [fulfilled_with vs],
                   trace := trace w @ [CallbackRun name vs]\<rparr>)"
proof (rule then_fulfilled[OF d])
  let ?h = "\<lparr>cbFulfilled = User name f, cbRejected = g, derived = length (heap w)\<rparr>"
  have "onFulfilled_body (handler_onFulfilled n) (handler_onRejected n) ?h vs
          (w\<lparr>heap := heap w @ [fresh]\<rparr>) =
        promise_resolve (handler_onFulfilled n) (derived ?h) vs
          (w\<lparr>heap := heap w @ [fresh]\<rparr>\<lparr>trace := trace (w\<lparr>heap := heap w @ [fresh]\<rparr>) @ [CallbackRun name vs]\<rparr>)"
    by (rule onFulfilled_plain[where f=f and v=v]) (use f in simp_all)
  then show "handler_onFulfilled (Suc n) ?h vs (w\<lparr>heap := heap w @ [fresh]\<rparr>) =
        Some (w\<lparr>heap := heap w @ [fulfilled_with vs],
                trace := trace w @ [CallbackRun name vs]\<rparr>)"
    by (simp add: promise_resolve_def fresh_def fulfilled_with_def)
qed

lemma then_fulfilled_throw:
  assumes d: "d < length (heap w)" "state (heap w ! d) = 1" "pvalue (heap w ! d) = Some vs"
    and f: "f vs = Throw err"
  shows "promise_then (handler_onFulfilled (Suc n)) (handler_onRejected (Suc n)) d
           (User name f) g w =
           Some (length (heap w),
                 w\<lparr>heap := heap w @ [rejected_with [err]],
                   trace := trace w @ [CallbackRun name vs]\<rparr>)"
proof (rule then_fulfilled[OF d])
  let ?h = "\<lparr>cbFulfilled = User name f, cbRejected = g, derived = length (heap w)\<rparr>"
  have "onFulfilled_body (handler_onFulfilled n) (handler_onRejected n) ?h vs
          (w\<lparr>heap := heap w @ [fresh]\<rparr>) =
        promise_reject (handler_onRejected n) (derived ?h) [err]
          (w\<lparr>heap := heap w @ [fresh]\<rparr>\<lparr>trace := trace (w\<lparr>heap := heap w @ [fresh]\<rparr>) @ [CallbackRun name vs]\<rparr>)"
    by (rule onFulfilled_throw[where f=f]) (use f in simp_all)
  then show "handler_onFulfilled (Suc n) ?h vs (w\<lparr>heap := heap w @ [fresh]\<rparr>) =
        Some (w\<lparr>heap := heap w @ [rejected_with [err]],
                trace := trace w @ [CallbackRun name vs]\<rparr>)"
    by (simp add: promise_reject_def fresh_def rejected_with_def)
qed

lemma then_fulfilled_chain:
  assumes d: "d < length (heap w)" "state (heap w ! d) = 1" "pvalue (heap w ! d) = Some vs"
    and f: "f vs = Return (VPromise r)"
    and run: "promise_then (handler_onFulfilled n) (handler_onRejected n) r
                (BoundResolve (length (heap w))) (BoundReject (length (heap w)))
                (w\<lparr>heap := heap w @ [fresh], trace := trace w @ [CallbackRun name vs]\<rparr>)
              = Some (d3, w2)"
  shows "promise_then (handler_onFulfilled (Suc n)) (handler_onRejected (Suc n)) d
           (User name f) g w = Some (length (heap w), w2)"
proof (rule then_fulfilled[OF d])
  let ?h = "\<lparr>cbFulfilled = User name f, cbRejected = g, derived = length (heap w)\<rparr>"
  have "onFulfilled_body (handler_onFulfilled n) (handler_onRejected n) ?h vs
          (w\<lparr>heap := heap w @ [fresh]\<rparr>) =
        (case promise_then (handler_onFulfilled n) (handler_onRejected n) r
                (BoundResolve (derived ?h)) (BoundReject (derived ?h))
                (w\<lparr>heap := heap w @ [fresh]\<rparr>\<lparr>trace := trace (w\<lparr>heap := heap w @ [fresh]\<rparr>) @ [CallbackRun name vs]\<rparr>) of
           None \<Rightarrow> None | Some (d, w2) \<Rightarrow> Some w2)"
    by (rule onFulfilled_promise[where f=f]) (use f in simp_all)
  then show "handler_onFulfilled (Suc n) ?h vs (w\<lparr>heap := heap w @ [fresh]\<rparr>) = Some w2"
    using run by simp
qed

lemma then_fulfilled_returns_fulfilled:
  assumes d: "d < length (heap w)" "state (heap w ! d) = 1" "pvalue (heap w ! d) = Some vs"
    and f: "f vs = Return (VPromise r)"
    and r: "r < length (heap w)" "state (heap w ! r) = 1" "pvalue (heap w ! r) = Some ws"
  shows "promise_then (handler_onFulfilled (Suc (Suc n))) (handler_onRejected (Suc (Suc n))) d
           (User name f) g w =
           Some (length (heap w),
                 w\<lparr>heap := heap w @ [fulfilled_with ws, fulfilled_with ws],
                   trace := trace w @ [CallbackRun name vs]\<rparr>)"
proof (rule then_fulfilled_chain[where f=f and r=r, OF d f])
  let ?w0 = "w\<lparr>heap := heap w @ [fresh], trace := trace w @ [CallbackRun name vs]\<rparr>"
  have "promise_then (handler_onFulfilled (Suc n)) (handler_onRejected (Suc n)) r
          (BoundResolve (length (heap w))) (BoundReject (length (heap w))) ?w0 =
        Some (length (heap ?w0),
              ?w0\<lparr>heap := (heap ?w0)[length (heap w) := fulfilled_with ws] @ [fulfilled_with ws]\<rparr>)"
    using r by (intro forward_fulfilled) (simp_all add: nth_append)
  then show "promise_then (handler_onFulfilled (Suc n)) (handler_onRejected (Suc n)) r
          (BoundResolve (length (heap w))) (BoundReject (length (heap w))) ?w0 =
        Some (Suc (length (heap w)),
              w\<lparr>heap := heap w @ [fulfilled_with ws, fulfilled_with ws],
                trace := trace w @ [CallbackRun name vs]\<rparr>)"
    by simp
qed

lemma then_fulfilled_returns_rejected:
  assumes d: "d < length (heap w)" "state (heap w ! d) = 1" "pvalue (heap w ! d) = Some vs"
    and f: "f vs = Return (VPromise r)"
    and r: "r < length (heap w)" "state (heap w ! r) = 2" "reason (heap w ! r) = Some rs"
  shows "promise_then (handler_onFulfilled (Suc (Suc n))) (handler_onRejected (Suc (Suc n))) d
           (User name f) g w =
           Some (length (heap w),
                 w\<lparr>heap := heap w @ [rejected_with rs, rejected_with rs],
                   trace := trace w @ [CallbackRun name vs]\<rparr>)"
proof (rule then_fulfilled_chain[where f=f and r=r, OF d f])
  let ?w0 = "w\<lparr>heap := heap w @ [fresh], trace := trace w @ [CallbackRun name vs]\<rparr>"
  have "promise_then (handler_onFulfilled (Suc n)) (handler_onRejected (Suc n)) r
          (BoundResolve (length (heap w))) (BoundReject (length (heap w))) ?w0 =
        Some (length (heap ?w0),
              ?w0\<lparr>heap := (heap ?w0)[length (heap w) := rejected_with rs] @ [rejected_with rs]\<rparr>)"
    using r by (intro forward_rejected) (simp_all add: nth_append)
  then show "promise_then (handler_onFulfilled (Suc n)) (handler_onRejected (Suc n)) r
          (BoundResolve (length (heap w))) (BoundReject (length (heap w))) ?w0 =
        Some (Suc (length (heap w)),
              w\<lparr>heap := heap w @ [rejected_with rs, rejected_with rs],
                trace := trace w @ [CallbackRun name vs]\<rparr>)"
    by simp
qed

lemma then_fulfilled_returns_pending:
  assumes d: "d < length (heap w)" "state (heap w ! d) = 1" "pvalue (heap w ! d) = Some vs"
    and f: "f vs = Return (VPromise r)"
    and r: "r < length (heap w)" "state (heap w ! r) = 0"
  shows "promise_then (handler_onFulfilled (Suc n)) (handler_onRejected (Suc n)) d
           (User name f) g w =
           Some (length (heap w),
                 w\<lparr>heap := (heap w)[r := (heap w ! r)\<lparr>handlers := handlers (heap w ! r) @
                                 [forwarding (length (heap w)) (Suc (length (heap w)))]\<rparr>]
                            @ [fresh, fresh],
                   trace := trace w @ [CallbackRun name vs]\<rparr>)"
proof (rule then_fulfilled_chain[where f=f and r=r, OF d f])
  let ?w0 = "w\<lparr>heap := heap w @ [fresh], trace := trace w @ [CallbackRun name vs]\<rparr>"
  have "promise_then (handler_onFulfilled n) (handler_onRejected n) r
          (BoundResolve (length (heap w))) (BoundReject (length (heap w))) ?w0 =
        Some (length (heap ?w0),
              ?w0\<lparr>heap := (heap ?w0)[r := (heap ?w0 ! r)\<lparr>handlers := handlers (heap ?w0 ! r) @
                 [\<lparr>cbFulfilled = BoundResolve (length (heap w)),
                   cbRejected = BoundReject (length (heap w)),
                   derived = length (heap ?w0)\<rparr>]\<rparr>] @ [fresh]\<rparr>)"
    using r by (intro then_pending) (simp_all add: nth_append)
  then show "promise_then (handler_onFulfilled n) (handler_onRejected n) r
          (BoundResolve (length (heap w))) (BoundReject (length (heap w))) ?w0 =
        Some (Suc (length (heap w)),
              w\<lparr>heap := (heap w)[r := (heap w ! r)\<lparr>handlers := handlers (heap w ! r) @
                                 [forwarding (length (heap w)) (Suc (length (heap w)))]\<rparr>]
                            @ [fresh, fresh],
                   trace := trace w @ [CallbackRun name vs]\<rparr>)"
    using r(1) by (simp add: nth_append list_update_append forwarding_def)
qed

lemma then_fulfilled_returns_new:
  assumes d: "d < length (heap w)" "state (heap w ! d) = 1" "pvalue (heap w ! d) = Some vs"
    and f: "f vs = ReturnNew (Script nm (CallResolve ws # acts) thrown)"
  shows "promise_then (handler_onFulfilled (Suc (Suc n))) (handler_onRejected (Suc (Suc n))) d
           (User name f) g w =
           Some (length (heap w),
                 w\<lparr>heap := heap w @ [fulfilled_with ws, fulfilled_with ws, fulfilled_with ws],
                   trace := trace w @ [CallbackRun name vs, ExecutorRun nm]\<rparr>)"
proof (rule then_fulfilled[OF d])
  let ?h = "\<lparr>cbFulfilled = User name f, cbRejected = g, derived = length (heap w)\<rparr>"
  let ?w0 = "w\<lparr>heap := heap w @ [fresh]\<rparr>"
  let ?w1 = "w\<lparr>heap := heap w @ [fresh, fulfilled_with ws],
               trace := trace w @ [CallbackRun name vs, ExecutorRun nm]\<rparr>"
  let ?F = "handler_onFulfilled (Suc n)" and ?R = "handler_onRejected (Suc n)"
  have 1: "new_promise ?F ?R (Script nm (CallResolve ws # acts) thrown)
             (?w0\<lparr>trace := trace ?w0 @ [CallbackRun name vs]\<rparr>) = Some (Suc (length (heap w)), ?w1)"
    by (simp add: new_promise_resolved)
  have 2: "onFulfilled_body ?F ?R ?h vs ?w0 =
           (case promise_then ?F ?R (Suc (length (heap w)))
                   (BoundResolve (derived ?h)) (BoundReject (derived ?h)) ?w1 of
              None \<Rightarrow> None | Some (d, w2) \<Rightarrow> Some w2)"
    by (rule onFulfilled_new[where f=f and name=name, OF _ f 1]) simp
  have 3: "promise_then ?F ?R (Suc (length (heap w)))
             (BoundResolve (length (heap w))) (BoundReject (length (heap w))) ?w1 =
           Some (length (heap ?w1),
                 ?w1\<lparr>heap := (heap ?w1)[length (heap w) := fulfilled_with ws] @ [fulfilled_with ws]\<rparr>)"
    by (rule forward_fulfilled) (simp_all add: nth_append fulfilled_with_def)
  show "handler_onFulfilled (Suc (Suc n)) ?h vs ?w0 =
          Some (w\<lparr>heap := heap w @ [fulfilled_with ws, fulfilled_with ws, fulfilled_with ws],
                  trace := trace w @ [CallbackRun name vs, ExecutorRun nm]\<rparr>)"
    using 2 3 by (simp add: list_update_append)
qed

lemma then_fulfilled_returns_fresh:
  assumes d: "d < length (heap w)" "state (heap w ! d) = 1" "pvalue (heap w ! d) = Some vs"
    and f: "f vs = Return (VPromise r)"
    and r: "r < length (heap w)" "heap w ! r = fresh"
  shows "\<exists>w1. promise_then (handler_onFulfilled (Suc n)) (handler_onRejected (Suc n)) d
                (User name f) g w = Some (length (heap w), w1) \<and>
              heap w1 ! length (heap w) = fresh \<and>
              (\<exists>w2. promise_resolve (handler_onFulfilled (Suc k)) r ws w1 = Some w2 \<and>
                     heap w2 ! length (heap w) = fulfilled_with ws) \<and>
              (\<exists>w2. promise_reject (handler_onRejected (Suc k)) r rs w1 = Some w2 \<and>
                     heap w2 ! length (heap w) = rejected_with rs)"
proof -
  let ?L = "length (heap w)"
  let ?w1 = "w\<lparr>heap := (heap w)[r := (heap w ! r)\<lparr>handlers := handlers (heap w ! r) @
                                 [forwarding ?L (Suc ?L)]\<rparr>] @ [fresh, fresh],
               trace := trace w @ [CallbackRun name vs]\<rparr>"
  have st: "state (heap w ! r) = 0" using r(2) by (simp add: fresh_def)
  have 1: "promise_then (handler_onFulfilled (Suc n)) (handler_onRejected (Suc n)) d
             (User name f) g w = Some (?L, ?w1)"
    by (rule then_fulfilled_returns_pending[where f=f, OF d f r(1) st])
  have len: "r < length (heap ?w1)" "?L < length (heap ?w1)" "Suc ?L < length (heap ?w1)"
    using r(1) by simp_all
  have hr: "heap ?w1 ! r = fresh\<lparr>handlers := [forwarding ?L (Suc ?L)]\<rparr>"
    using r by (simp add: nth_append fresh_def)
  have hL: "heap ?w1 ! ?L = fresh" "heap ?w1 ! Suc ?L = fresh"
    by (simp_all add: nth_append)
  have 2: "promise_resolve (handler_onFulfilled (Suc k)) r ws ?w1 =
             Some (?w1\<lparr>heap := (heap ?w1)[r := (fulfilled_with ws)\<lparr>handlers := [forwarding ?L (Suc ?L)]\<rparr>,
                                   ?L := fulfilled_with ws, Suc ?L := fulfilled_with ws]\<rparr>)"
    by (rule forward_later_fulfilled[OF len(1) hr len(2) hL(1) len(3) hL(2)]) simp
  have 3: "promise_reject (handler_onRejected (Suc k)) r rs ?w1 =
             Some (?w1\<lparr>heap := (heap ?w1)[r := (rejected_with rs)\<lparr>handlers := [forwarding ?L (Suc ?L)]\<rparr>,
                                   ?L := rejected_with rs, Suc ?L := rejected_with rs]\<rparr>)"
    by (rule forward_later_rejected[OF len(1) hr len(2) hL(1) len(3) hL(2)]) simp
  show ?thesis
  proof (intro exI conjI)
    show "promise_then (handler_onFulfilled (Suc n)) (handler_onRejected (Suc n)) d
             (User name f) g w = Some (?L, ?w1)" by (rule 1)
    show "heap ?w1 ! ?L = fresh" by (rule hL(1))
    show "promise_resolve (handler_onFulfilled (Suc k)) r ws ?w1 =
             Some (?w1\<lparr>heap := (heap ?w1)[r := (fulfilled_with ws)\<lparr>handlers := [forwarding ?L (Suc ?L)]\<rparr>,
                                   ?L := fulfilled_with ws, Suc ?L := fulfilled_with ws]\<rparr>)" by (rule 2)
    show "heap (?w1\<lparr>heap := (heap ?w1)[r := (fulfilled_with ws)\<lparr>handlers := [forwarding ?L (Suc ?L)]\<rparr>,
                                   ?L := fulfilled_with ws, Suc ?L := fulfilled_with ws]\<rparr>) ! ?L
            = fulfilled_with ws"
      using r(1) by simp
    show "promise_reject (handler_onRejected (Suc k)) r rs ?w1 =
             Some (?w1\<lparr>heap := (heap ?w1)[r := (rejected_with rs)\<lparr>handlers := [forwarding ?L (Suc ?L)]\<rparr>,
                                   ?L := rejected_with rs, Suc ?L := rejected_with rs]\<rparr>)" by (rule 3)
    show "heap (?w1\<lparr>heap := (heap ?w1)[r := (rejected_with rs)\<lparr>handlers := [forwarding ?L (Suc ?L)]\<rparr>,
                                   ?L := rejected_with rs, Suc ?L := rejected_with rs]\<rparr>) ! ?L
            = rejected_with rs"
      using r(1) by simp
  qed
qed

text \<open>
  C2. Let \<open>d\<close> be fulfilled with the values \<open>vs\<close>, and call \<open>then\<close> on it with the
  continuation \<open>f\<close> (named \<open>name\<close> in the trace) and any second callback \<open>g\<close>. The new
  promise has index \<open>length (heap w)\<close>. In every case the trace records that \<open>f\<close> ran
  once with exactly \<open>vs\<close>.
  \<^item> If the first callback is absent, or if \<open>f\<close> returns a value that is not a promise,
    the new promise is fulfilled with \<open>vs\<close>; the returned value appears nowhere.
  \<^item> If \<open>f\<close> returns a promise \<open>r\<close> of the store that is fulfilled with \<open>ws\<close> (rejected
    with \<open>rs\<close>), the new promise is fulfilled with \<open>ws\<close> (rejected with \<open>rs\<close>).
  \<^item> If \<open>r\<close> is pending, the new promise stays pending and a forwarding handler is
    added to \<open>r\<close>; when \<open>r\<close> has no other handler, resolving \<open>r\<close> with \<open>ws\<close> later
    fulfils the new promise with \<open>ws\<close>, and rejecting it with \<open>rs\<close> rejects it with \<open>rs\<close>.
  \<^item> If \<open>f\<close> builds a promise that it resolves with \<open>ws\<close> (as \<open>Promise.resolve\<close> does), the
    new promise is fulfilled with \<open>ws\<close>.
  The budgets \<open>Suc n\<close> and \<open>Suc (Suc n)\<close> are those of every run that allows one, or two,
  nested handler calls.
\<close>

theorem then_on_fulfilled:
  assumes "d < length (heap w)" and "state (heap w ! d) = 1" and "pvalue (heap w ! d) = Some vs"
  shows "promise_then (handler_onFulfilled (Suc n)) (handler_onRejected (Suc n)) d Absent g w =
           Some (length (heap w), w\<lparr>heap := heap w @ [fulfilled_with vs]\<rparr>) \<and>
         (f vs = Return v \<and> (\<forall>r. v \<noteq> VPromise r) \<longrightarrow>
            promise_then (handler_onFulfilled (Suc n)) (handler_onRejected (Suc n)) d
              (User name f) g w =
            Some (length (heap w),
                  w\<lparr>heap := heap w @ [fulfilled_with vs],
                    trace := trace w @ [CallbackRun name vs]\<rparr>)) \<and>
         (f vs = Return (VPromise r) \<and> r < length (heap w) \<and>
          state (heap w ! r) = 1 \<and> pvalue (heap w ! r) = Some ws \<longrightarrow>
            promise_then (handler_onFulfilled (Suc (Suc n))) (handler_onRejected (Suc (Suc n))) d
              (User name f) g w =
            Some (length (heap w),
                  w\<lparr>heap := heap w @ [fulfilled_with ws, fulfilled_with ws],
                    trace := trace w @ [CallbackRun name vs]\<rparr>)) \<and>
         (f vs = Return (VPromise r) \<and> r < length (heap w) \<and>
          state (heap w ! r) = 2 \<and> reason (heap w ! r) = Some rs \<longrightarrow>
            promise_then (handler_onFulfilled (Suc (Suc n))) (handler_onRejected (Suc (Suc n))) d
              (User name f) g w =
            Some (length (heap w),
                  w\<lparr>heap := heap w @ [rejected_with rs, rejected_with rs],
                    trace := trace w @ [CallbackRun name vs]\<rparr>)) \<and>
         (f vs = Return (VPromise r) \<and> r < length (heap w) \<and> state (heap w ! r) = 0 \<longrightarrow>
            promise_then (handler_onFulfilled (Suc n)) (handler_onRejected (Suc n)) d
              (User name f) g w =
            Some (length (heap w),
                  w\<lparr>heap := (heap w)[r := (heap w ! r)\<lparr>handlers := handlers (heap w ! r) @
                                  [forwarding (length (heap w)) (Suc (length (heap w)))]\<rparr>]
                             @ [fresh, fresh],
                    trace := trace w @ [CallbackRun name vs]\<rparr>)) \<and>
         (f vs = Return (VPromise r) \<and> r < length (heap w) \<and> heap w ! r = fresh \<longrightarrow>
            (\<exists>w1. promise_then (handler_onFulfilled (Suc n)) (handler_onRejected (Suc n)) d
                     (User name f) g w = Some (length (heap w), w1) \<and>
                   heap w1 ! length (heap w) = fresh \<and>
                   (\<exists>w2. promise_resolve (handler_onFulfilled (Suc k)) r ws w1 = Some w2 \<and>
                          heap w2 ! length (heap w) = fulfilled_with ws) \<and>
                   (\<exists>w2. promise_reject (handler_onRejected (Suc k)) r rs w1 = Some w2 \<and>
                          heap w2 ! length (heap w) = rejected_with rs))) \<and>
         (f vs = ReturnNew (Script nm (CallResolve ws # acts) thrown) \<longrightarrow>
            promise_then (handler_onFulfilled (Suc (Suc n))) (handler_onRejected (Suc (Suc n))) d
              (User name f) g w =
            Some (length (heap w),
                  w\<lparr>heap := heap w @ [fulfilled_with ws, fulfilled_with ws, fulfilled_with ws],
                    trace := trace w @ [CallbackRun name vs, ExecutorRun nm]\<rparr>))"
proof (intro conjI impI)
  show "promise_then (handler_onFulfilled (Suc n)) (handler_onRejected (Suc n)) d Absent g w =
           Some (length (heap w), w\<lparr>heap := heap w @ [fulfilled_with vs]\<rparr>)"
    by (rule then_fulfilled_absent[OF assms])
next
  assume "f vs = Return v \<and> (\<forall>r. v \<noteq> VPromise r)"
  then show "promise_then (handler_onFulfilled (Suc n)) (handler_onRejected (Suc n)) d
              (User name f) g w =
            Some (length (heap w),
                  w\<lparr>heap := heap w @ [fulfilled_with vs],
                    trace := trace w @ [CallbackRun name vs]\<rparr>)"
    using then_fulfilled_plain[where f=f and v=v, OF assms] by blast
next
  assume "f vs = Return (VPromise r) \<and> r < length (heap w) \<and>
          state (heap w ! r) = 1 \<and> pvalue (heap w ! r) = Some ws"
  then show "promise_then (handler_onFulfilled (Suc (Suc n))) (handler_onRejected (Suc (Suc n))) d
              (User name f) g w =
            Some (length (heap w),
                  w\<lparr>heap := heap w @ [fulfilled_with ws, fulfilled_with ws],
                    trace := trace w @ [CallbackRun name vs]\<rparr>)"
    using then_fulfilled_returns_fulfilled[where f=f and r=r, OF assms] by blast
next
  assume "f vs = Return (VPromise r) \<and> r < length (heap w) \<and>
          state (heap w ! r) = 2 \<and> reason (heap w ! r) = Some rs"
  then show "promise_then (handler_onFulfilled (Suc (Suc n))) (handler_onRejected (Suc (Suc n))) d
              (User name f) g w =
            Some (length (heap w),
                  w\<lparr>heap := heap w @ [rejected_with rs, rejected_with rs],
                    trace := trace w @ [CallbackRun name vs]\<rparr>)"
    using then_fulfilled_returns_rejected[where f=f and r=r, OF assms] by blast
next
  assume "f vs = Return (VPromise r) \<and> r < length (heap w) \<and> state (heap w ! r) = 0"
  then show "promise_then (handler_onFulfilled (Suc n)) (handler_onRejected (Suc n)) d
              (User name f) g w =
            Some (length (heap w),
                  w\<lparr>heap := (heap w)[r := (heap w ! r)\<lparr>handlers := handlers (heap w ! r) @
                                  [forwarding (length (heap w)) (Suc (length (heap w)))]\<rparr>]
                             @ [fresh, fresh],
                    trace := trace w @ [CallbackRun name vs]\<rparr>)"
    using then_fulfilled_returns_pending[where f=f and r=r, OF assms] by blast
next
  assume "f vs = Return (VPromise r) \<and> r < length (heap w) \<and> heap w ! r = fresh"
  then show "\<exists>w1. promise_then (handler_onFulfilled (Suc n)) (handler_onRejected (Suc n)) d
                     (User name f) g w = Some (length (heap w), w1) \<and>
                   heap w1 ! length (heap w) = fresh \<and>
                   (\<exists>w2. promise_resolve (handler_onFulfilled (Suc k)) r ws w1 = Some w2 \<and>
                          heap w2 ! length (heap w) = fulfilled_with ws) \<and>
                   (\<exists>w2. promise_reject (handler_onRejected (Suc k)) r rs w1 = Some w2 \<and>
                          heap w2 ! length (heap w) = rejected_with rs)"
    using then_fulfilled_returns_fresh[where f=f and r=r, OF assms] by blast
next
  assume "f vs = ReturnNew (Script nm (CallResolve ws # acts) thrown)"
  then show "promise_then (handler_onFulfilled (Suc (Suc n))) (handler_onRejected (Suc (Suc n))) d
              (User name f) g w =
            Some (length (heap w),
                  w\<lparr>heap := heap w @ [fulfilled_with ws, fulfilled_with ws, fulfilled_with ws],
                    trace := trace w @ [CallbackRun name vs, ExecutorRun nm]\<rparr>)"
    using then_fulfilled_returns_new[where f=f, OF assms] by blast
qed

theorem then_on_fulfilled_witness:
  "0 < length (heap c2_world) \<and> state (heap c2_world ! 0) = 1 \<and>
   pvalue (heap c2_world ! 0) = Some [VNum 3] \<and>
   ignore_args [VNum 3] = Return (VStr ''ignored'') \<and>
   promise_then (handler_onFulfilled (Suc 0)) (handler_onRejected (Suc 0)) 0
     (User ''f'' ignore_args) Absent c2_world =
   Some (4, c2_world\<lparr>heap := heap c2_world @ [fulfilled_with [VNum 3]],
                     trace := [CallbackRun ''f'' [VNum 3]]\<rparr>) \<and>
   return_promise 1 [VNum 3] = Return (VPromise 1) \<and>
   state (heap c2_world ! 1) = 1 \<and> pvalue (heap c2_world ! 1) = Some [VStr ''r''] \<and>
   promise_then (handler_onFulfilled (Suc (Suc 0))) (handler_onRejected (Suc (Suc 0))) 0
     (User ''f'' (return_promise 1)) Absent c2_world =
   Some (4, c2_world\<lparr>heap := heap c2_world @ [fulfilled_with [VStr ''r''], fulfilled_with [VStr ''r'']],
                     trace := [CallbackRun ''f'' [VNum 3]]\<rparr>) \<and>
   state (heap c2_world ! 2) = 2 \<and> reason (heap c2_world ! 2) = Some [VStr ''e''] \<and>
   promise_then (handler_onFulfilled (Suc (Suc 0))) (handler_onRejected (Suc (Suc 0))) 0
     (User ''f'' (return_promise 2)) Absent c2_world =
   Some (4, c2_world\<lparr>heap := heap c2_world @ [rejected_with [VStr ''e''], rejected_with [VStr ''e'']],
                     trace := [CallbackRun ''f'' [VNum 3]]\<rparr>) \<and>
   heap c2_world ! 3 = fresh \<and>
   promise_then (handler_onFulfilled (Suc 0)) (handler_onRejected (Suc 0)) 0
     (User ''f'' (return_promise 3)) Absent c2_world =
   Some (4, c2_world\<lparr>heap := (heap c2_world)[3 := fresh\<lparr>handlers := [forwarding 4 5]\<rparr>]
                              @ [fresh, fresh],
                     trace := [CallbackRun ''f'' [VNum 3]]\<rparr>) \<and>
   (\<exists>w1. promise_then (handler_onFulfilled (Suc 0)) (handler_onRejected (Suc 0)) 0
            (User ''f'' (return_promise 3)) Absent c2_world = Some (4, w1) \<and>
          heap w1 ! 4 = fresh \<and>
          (\<exists>w2. promise_resolve (handler_onFulfilled (Suc 0)) 3 [VNum 8] w1 = Some w2 \<and>
                 heap w2 ! 4 = fulfilled_with [VNum 8]) \<and>
          (\<exists>w2. promise_reject (handler_onRejected (Suc 0)) 3 [VStr ''late''] w1 = Some w2 \<and>
                 heap w2 ! 4 = rejected_with [VStr ''late''])) \<and>
   double [VNum 3] = ReturnNew (Script ''Promise.resolve'' [CallResolve [VNum 6]] None) \<and>
   promise_then (handler_onFulfilled (Suc (Suc 0))) (handler_onRejected (Suc (Suc 0))) 0
     (User ''double'' double) Absent c2_world =
   Some (4, c2_world\<lparr>heap := heap c2_world @
                       [fulfilled_with [VNum 6], fulfilled_with [VNum 6], fulfilled_with [VNum 6]],
                     trace := [CallbackRun ''double'' [VNum 3], ExecutorRun ''Promise.resolve'']\<rparr>)"
proof -
  have d: "0 < length (heap c2_world)" "state (heap c2_world ! 0) = 1"
    "pvalue (heap c2_world ! 0) = Some [VNum 3]"
    by (simp_all add: c2_world_def example_defs)
  have facts: "length (heap c2_world) = 4" "trace c2_world = []"
    "state (heap c2_world ! 1) = 1" "pvalue (heap c2_world ! 1) = Some [VStr ''r'']"
    "state (heap c2_world ! 2) = 2" "reason (heap c2_world ! 2) = Some [VStr ''e'']"
    "heap c2_world ! 3 = fresh" "state (heap c2_world ! 3) = 0" "handlers (heap c2_world ! 3) = []"
    by (simp_all add: c2_world_def example_defs)
  have f: "ignore_args [VNum 3] = Return (VStr ''ignored'')"
    "return_promise 1 [VNum 3] = Return (VPromise 1)"
    "return_promise 2 [VNum 3] = Return (VPromise 2)"
    "return_promise 3 [VNum 3] = Return (VPromise 3)"
    "double [VNum 3] = ReturnNew (Script ''Promise.resolve'' [CallResolve [VNum 6]] None)"
    by (simp_all add: ignore_args_def return_promise_def double_def)
  note t = then_on_fulfilled[OF d]
  have 1: "promise_then (handler_onFulfilled (Suc 0)) (handler_onRejected (Suc 0)) 0
     (User ''f'' ignore_args) Absent c2_world =
   Some (4, c2_world\<lparr>heap := heap c2_world @ [fulfilled_with [VNum 3]],
                     trace := [CallbackRun ''f'' [VNum 3]]\<rparr>)"
    using t[where f=ignore_args and v="VStr ''ignored''" and n=0 and name="''f''" and g=Absent]
      f facts by simp
  have 2: "promise_then (handler_onFulfilled (Suc (Suc 0))) (handler_onRejected (Suc (Suc 0))) 0
     (User ''f'' (return_promise 1)) Absent c2_world =
   Some (4, c2_world\<lparr>heap := heap c2_world @ [fulfilled_with [VStr ''r''], fulfilled_with [VStr ''r'']],
                     trace := [CallbackRun ''f'' [VNum 3]]\<rparr>)"
    using t[where f="return_promise 1" and r=1 and ws="[VStr ''r'']" and n=0
        and name="''f''" and g=Absent] f facts by simp
  have 3: "promise_then (handler_onFulfilled (Suc (Suc 0))) (handler_onRejected (Suc (Suc 0))) 0
     (User ''f'' (return_promise 2)) Absent c2_world =
   Some (4, c2_world\<lparr>heap := heap c2_world @ [rejected_with [VStr ''e''], rejected_with [VStr ''e'']],
                     trace := [CallbackRun ''f'' [VNum 3]]\<rparr>)"
    using t[where f="return_promise 2" and r=2 and rs="[VStr ''e'']" and n=0
        and name="''f''" and g=Absent] f facts by simp
  have 4: "promise_then (handler_onFulfilled (Suc 0)) (handler_onRejected (Suc 0)) 0
     (User ''f'' (return_promise 3)) Absent c2_world =
   Some (4, c2_world\<lparr>heap := (heap c2_world)[3 := fresh\<lparr>handlers := [forwarding 4 5]\<rparr>]
                              @ [fresh, fresh],
                     trace := [CallbackRun ''f'' [VNum 3]]\<rparr>)"
    using t[where f="return_promise 3" and r=3 and n=0 and name="''f''" and g=Absent] f facts
    by (simp add: eval_nat_numeral)
  have 5: "\<exists>w1. promise_then (handler_onFulfilled (Suc 0)) (handler_onRejected (Suc 0)) 0
            (User ''f'' (return_promise 3)) Absent c2_world = Some (4, w1) \<and>
          heap w1 ! 4 = fresh \<and>
          (\<exists>w2. promise_resolve (handler_onFulfilled (Suc 0)) 3 [VNum 8] w1 = Some w2 \<and>
                 heap w2 ! 4 = fulfilled_with [VNum 8]) \<and>
          (\<exists>w2. promise_reject (handler_onRejected (Suc 0)) 3 [VStr ''late''] w1 = Some w2 \<and>
                 heap w2 ! 4 = rejected_with [VStr ''late''])"
  proof -
    have hyp: "return_promise 3 [VNum 3] = Return (VPromise 3) \<and> 3 < length (heap c2_world) \<and>
               heap c2_world ! 3 = fresh"
      using f facts by simp
    have "return_promise 3 [VNum 3] = Return (VPromise 3) \<and> 3 < length (heap c2_world) \<and>
               heap c2_world ! 3 = fresh \<longrightarrow>
          (\<exists>w1. promise_then (handler_onFulfilled (Suc 0)) (handler_onRejected (Suc 0)) 0
            (User ''f'' (return_promise 3)) Absent c2_world = Some (length (heap c2_world), w1) \<and>
          heap w1 ! length (heap c2_world) = fresh \<and>
          (\<exists>w2. promise_resolve (handler_onFulfilled (Suc 0)) 3 [VNum 8] w1 = Some w2 \<and>
                 heap w2 ! length (heap c2_world) = fulfilled_with [VNum 8]) \<and>
          (\<exists>w2. promise_reject (handler_onRejected (Suc 0)) 3 [VStr ''late''] w1 = Some w2 \<and>
                 heap w2 ! length (heap c2_world) = rejected_with [VStr ''late'']))"
      by (rule t[where f="return_promise 3" and r=3 and n=0 and k=0 and name="''f''" and g=Absent
        and ws="[VNum 8]" and rs="[VStr ''late'']", THEN conjunct2, THEN conjunct2, THEN conjunct2,
        THEN conjunct2, THEN conjunct2, THEN conjunct1])
    with hyp have "\<exists>w1. promise_then (handler_onFulfilled (Suc 0)) (handler_onRejected (Suc 0)) 0
            (User ''f'' (return_promise 3)) Absent c2_world = Some (length (heap c2_world), w1) \<and>
          heap w1 ! length (heap c2_world) = fresh \<and>
          (\<exists>w2. promise_resolve (handler_onFulfilled (Suc 0)) 3 [VNum 8] w1 = Some w2 \<and>
                 heap w2 ! length (heap c2_world) = fulfilled_with [VNum 8]) \<and>
          (\<exists>w2. promise_reject (handler_onRejected (Suc 0)) 3 [VStr ''late''] w1 = Some w2 \<and>
                 heap w2 ! length (heap c2_world) = rejected_with [VStr ''late''])"
      by (rule rev_mp)
    then show ?thesis unfolding facts(1) .
  qed
  have 6: "promise_then (handler_onFulfilled (Suc (Suc 0))) (handler_onRejected (Suc (Suc 0))) 0
     (User ''double'' double) Absent c2_world =
   Some (4, c2_world\<lparr>heap := heap c2_world @
                       [fulfilled_with [VNum 6], fulfilled_with [VNum 6], fulfilled_with [VNum 6]],
                     trace := [CallbackRun ''double'' [VNum 3], ExecutorRun ''Promise.resolve'']\<rparr>)"
    using t[where f=double and nm="''Promise.resolve''" and ws="[VNum 6]" and acts="[]"
        and thrown=None and n=0 and name="''double''" and g=Absent] f facts by simp
  from d facts(3-7) f(1,2,5) 1 2 3 4 5 6 show ?thesis by (intro conjI)
qed

section \<open>Forwarding from a promise that is already observed\<close>

lemma cb_ok_avoids:
  assumes "cb_ok w f" and "\<forall>x \<in> X. length (heap w) \<le> x" and "\<forall>c \<in> C. length (closures w) \<le> c"
  shows "cb_avoids X C f"
proof (cases f)
  case (User name g)
  have "r \<notin> X" if "g args = Return (VPromise r)" for args r
  proof
    assume "r \<in> X"
    with assms(2) have "length (heap w) \<le> r" by blast
    moreover from assms(1) User that have "r < length (heap w)" by (auto simp: cb_ok_def)
    ultimately show False by simp
  qed
  with User show ?thesis by (simp add: cb_avoids_def)
qed (use assms in \<open>auto simp: cb_ok_def cb_avoids_def\<close>)

lemma handler_ok_avoids:
  assumes "handler_ok w h" and "\<forall>x \<in> X. length (heap w) \<le> x"
    and "\<forall>c \<in> C. length (closures w) \<le> c"
  shows "avoids X C h"
  using assms cb_ok_avoids[of w _ X C] by (auto simp: handler_ok_def avoids_def)

lemma wf_handlers_avoid:
  assumes "wf w" and "a < length (heap w)" and "h \<in> set (handlers (heap w ! a))"
    and "\<forall>x \<in> X. length (heap w) \<le> x" and "\<forall>c \<in> C. length (closures w) \<le> c"
  shows "avoids X C h"
proof -
  from wfD[OF assms(1,2)] assms(3) have "handler_ok w h" by (simp add: promise_ok_def)
  then show ?thesis using assms(4,5) by (rule handler_ok_avoids)
qed

lemma resolve_split:
  assumes "promise_resolve m r ws w = Some w'" and "r < length (heap w)"
    and "state (heap w ! r) = 0" and "handlers (heap w ! r) = hs @ [h]"
  obtains u where
    "forEach (\<lambda>it. m it ws) hs
       (w\<lparr>heap := (heap w)[r := (heap w ! r)\<lparr>state := 1, pvalue := Some ws\<rparr>]\<rparr>) = Some u"
    "m h ws u = Some w'"
proof -
  from assms have "forEach (\<lambda>it. m it ws) (hs @ [h])
       (w\<lparr>heap := (heap w)[r := (heap w ! r)\<lparr>state := 1, pvalue := Some ws\<rparr>]\<rparr>) = Some w'"
    by (simp add: resolve_pending)
  then show ?thesis using that
    by (auto simp: forEach_append split: option.splits)
qed

lemma reject_split:
  assumes "promise_reject m r rs w = Some w'" and "r < length (heap w)"
    and "state (heap w ! r) = 0" and "handlers (heap w ! r) = hs @ [h]"
  obtains u where
    "forEach (\<lambda>it. m it rs) hs
       (w\<lparr>heap := (heap w)[r := (heap w ! r)\<lparr>state := 2, reason := Some rs\<rparr>]\<rparr>) = Some u"
    "m h rs u = Some w'"
proof -
  from assms have "forEach (\<lambda>it. m it rs) (hs @ [h])
       (w\<lparr>heap := (heap w)[r := (heap w ! r)\<lparr>state := 2, reason := Some rs\<rparr>]\<rparr>) = Some w'"
    by (simp add: reject_pending)
  then show ?thesis using that
    by (auto simp: forEach_append split: option.splits)
qed

lemma forward_observed_fulfilled:
  assumes s: "sealed {d2, d3} {}
                (w\<lparr>heap := (heap w)[r := (heap w ! r)\<lparr>state := 1, pvalue := Some ws\<rparr>]\<rparr>)"
    and r: "r < length (heap w)" "state (heap w ! r) = 0"
      "handlers (heap w ! r) = hs @ [forwarding d2 d3]"
    and hs: "\<forall>h \<in> set hs. avoids {d2, d3} {} h"
    and d: "heap w ! d2 = fresh" "heap w ! d3 = fresh" "d2 \<noteq> d3"
    and run: "promise_resolve (handler_onFulfilled k) r ws w = Some w'"
  shows "heap w' ! d2 = fulfilled_with ws"
proof -
  let ?ws = "w\<lparr>heap := (heap w)[r := (heap w ! r)\<lparr>state := 1, pvalue := Some ws\<rparr>]\<rparr>"
  from r(3) d have ne: "r \<noteq> d2" "r \<noteq> d3" by (auto simp: fresh_def)
  from resolve_split[OF run r] obtain u where
    1: "forEach (\<lambda>it. handler_onFulfilled k it ws) hs ?ws = Some u"
    and 2: "handler_onFulfilled k (forwarding d2 d3) ws u = Some w'" by blast
  from forEach_frames[OF conjunct1[OF handlers_frame] s hs 1]
  have su: "sealed {d2, d3} {} u" and un: "untouched {d2, d3} {} ?ws u" by simp_all
  from un ne d have f: "heap u ! d2 = fresh" "heap u ! d3 = fresh"
    by (simp_all add: untouched_def)
  from su have l: "d2 < length (heap u)" "d3 < length (heap u)" by (simp_all add: sealed_def)
  from 2 obtain n where k: "k = Suc n" by (cases k) simp_all
  let ?u1 = "u\<lparr>heap := (heap u)[d2 := (heap u ! d2)\<lparr>state := 1, pvalue := Some ws\<rparr>]\<rparr>"
  have 3: "promise_resolve (handler_onFulfilled n) d2 ws u = Some ?u1"
    using l f by (intro resolve_fresh) (simp_all add: fresh_def)
  have 4: "promise_resolve (handler_onFulfilled n) d3 ws ?u1 =
             Some (?u1\<lparr>heap := (heap ?u1)[d3 := (heap ?u1 ! d3)\<lparr>state := 1, pvalue := Some ws\<rparr>]\<rparr>)"
    using l f d(3) by (intro resolve_fresh) (simp_all add: fresh_def)
  have "handler_onFulfilled (Suc n) (forwarding d2 d3) ws u =
          Some (?u1\<lparr>heap := (heap ?u1)[d3 := (heap ?u1 ! d3)\<lparr>state := 1, pvalue := Some ws\<rparr>]\<rparr>)"
    using 3 4 by (simp add: onFulfilled_bound_resolve forwarding_def)
  with 2 k have "w' = ?u1\<lparr>heap := (heap ?u1)[d3 := (heap ?u1 ! d3)\<lparr>state := 1, pvalue := Some ws\<rparr>]\<rparr>"
    by simp
  then show ?thesis using l f d(3) by (simp add: fresh_def fulfilled_with_def)
qed

lemma forward_observed_rejected:
  assumes s: "sealed {d2, d3} {}
                (w\<lparr>heap := (heap w)[r := (heap w ! r)\<lparr>state := 2, reason := Some rs\<rparr>]\<rparr>)"
    and r: "r < length (heap w)" "state (heap w ! r) = 0"
      "handlers (heap w ! r) = hs @ [forwarding d2 d3]"
    and hs: "\<forall>h \<in> set hs. avoids {d2, d3} {} h"
    and d: "heap w ! d2 = fresh" "heap w ! d3 = fresh" "d2 \<noteq> d3"
    and run: "promise_reject (handler_onRejected k) r rs w = Some w'"
  shows "heap w' ! d2 = rejected_with rs"
proof -
  let ?ws = "w\<lparr>heap := (heap w)[r := (heap w ! r)\<lparr>state := 2, reason := Some rs\<rparr>]\<rparr>"
  from r(3) d have ne: "r \<noteq> d2" "r \<noteq> d3" by (auto simp: fresh_def)
  from reject_split[OF run r] obtain u where
    1: "forEach (\<lambda>it. handler_onRejected k it rs) hs ?ws = Some u"
    and 2: "handler_onRejected k (forwarding d2 d3) rs u = Some w'" by blast
  from forEach_frames[OF conjunct2[OF handlers_frame] s hs 1]
  have su: "sealed {d2, d3} {} u" and un: "untouched {d2, d3} {} ?ws u" by simp_all
  from un ne d have f: "heap u ! d2 = fresh" "heap u ! d3 = fresh"
    by (simp_all add: untouched_def)
  from su have l: "d2 < length (heap u)" "d3 < length (heap u)" by (simp_all add: sealed_def)
  from 2 obtain n where k: "k = Suc n" by (cases k) simp_all
  let ?u1 = "u\<lparr>heap := (heap u)[d2 := (heap u ! d2)\<lparr>state := 2, reason := Some rs\<rparr>]\<rparr>"
  have 3: "promise_reject (handler_onRejected n) d2 rs u = Some ?u1"
    using l f by (intro reject_fresh) (simp_all add: fresh_def)
  have 4: "promise_reject (handler_onRejected n) d3 rs ?u1 =
             Some (?u1\<lparr>heap := (heap ?u1)[d3 := (heap ?u1 ! d3)\<lparr>state := 2, reason := Some rs\<rparr>]\<rparr>)"
    using l f d(3) by (intro reject_fresh) (simp_all add: fresh_def)
  have "handler_onRejected (Suc n) (forwarding d2 d3) rs u =
          Some (?u1\<lparr>heap := (heap ?u1)[d3 := (heap ?u1 ! d3)\<lparr>state := 2, reason := Some rs\<rparr>]\<rparr>)"
    using 3 4 by (simp add: onRejected_bound_reject forwarding_def)
  with 2 k have "w' = ?u1\<lparr>heap := (heap ?u1)[d3 := (heap ?u1 ! d3)\<lparr>state := 2, reason := Some rs\<rparr>]\<rparr>"
    by simp
  then show ?thesis using l f d(3) by (simp add: fresh_def rejected_with_def)
qed

text \<open>
  The store that \<open>then\<close> leaves when the continuation returned the pending promise \<open>r\<close>:
  what it is, and what later settling \<open>r\<close> does to the new promise, whatever handlers
  \<open>r\<close> had.
\<close>

lemma forwarding_store:
  fixes t :: "event list"
  assumes w: "wf w" and r: "r < length (heap w)" "state (heap w ! r) = 0"
  defines "L \<equiv> length (heap w)"
  defines "w1 \<equiv> w\<lparr>heap := (heap w)[r := (heap w ! r)\<lparr>handlers := handlers (heap w ! r) @
                                 [forwarding L (Suc L)]\<rparr>] @ [fresh, fresh],
                   trace := t\<rparr>"
  shows "wf w1" and "potential w1 = potential w + 3"
    and "heap w1 ! L = fresh"
    and "promise_resolve (handler_onFulfilled k) r ws w1 = Some w2 \<Longrightarrow>
           heap w2 ! L = fulfilled_with ws"
    and "promise_reject (handler_onRejected k) r rs w1 = Some w2 \<Longrightarrow>
           heap w2 ! L = rejected_with rs"
proof -
  let ?h = "forwarding L (Suc L)"
  let ?wa = "w\<lparr>heap := heap w @ [fresh]\<rparr>"
  let ?wb = "?wa\<lparr>heap := heap ?wa @ [fresh]\<rparr>"
  let ?p = "(heap ?wb ! r)\<lparr>handlers := handlers (heap ?wb ! r) @ [?h]\<rparr>"
  let ?wc = "?wb\<lparr>heap := (heap ?wb)[r := ?p]\<rparr>"
  have eq: "w1 = ?wc\<lparr>trace := t\<rparr>"
    using r(1) by (simp add: w1_def L_def nth_append list_update_append)
  note a = alloc_fresh[OF w]
  note b = alloc_fresh[OF a(1)]
  have rb: "r < length (heap ?wb)" and pr: "heap ?wb ! r = heap w ! r"
    using r(1) by (simp_all add: nth_append)
  have okr: "promise_ok ?wb (heap ?wb ! r)" by (rule wfD[OF b(1) rb])
  have hk: "handler_ok ?wb ?h"
    by (simp add: handler_ok_def cb_ok_def forwarding_def L_def)
  have okp: "promise_ok ?wb ?p" using okr hk by (simp add: promise_ok_def)
  have wc: "wf ?wc" by (rule wf_update[OF b(1) rb okp])
  then show wf1: "wf w1" unfolding eq by (rule wf_trace)
  have "potential ?wc + pot (heap ?wb ! r) = potential ?wb + pot ?p"
    by (rule potential_update[OF rb])
  moreover have "pot ?p = pot (heap ?wb ! r) + 1"
    using r(2) pr by (simp add: pot_push weight_def is_user_def forwarding_def)
  ultimately have "potential ?wc = potential ?wb + 1" by simp
  then show "potential w1 = potential w + 3"
    unfolding eq using a(3) b(3) by simp
  show fL: "heap w1 ! L = fresh"
    using r(1) by (simp add: w1_def L_def nth_append)
  have fS: "heap w1 ! Suc L = fresh"
    using r(1) by (simp add: w1_def L_def nth_append)
  have r1: "r < length (heap w1)" "state (heap w1 ! r) = 0"
    "handlers (heap w1 ! r) = handlers (heap w ! r) @ [?h]"
    using r by (simp_all add: w1_def nth_append)
  have X: "\<forall>x \<in> {L, Suc L}. length (heap w) \<le> x" by (simp add: L_def)
  have hs: "\<forall>h \<in> set (handlers (heap w ! r)). avoids {L, Suc L} {} h"
    using wf_handlers_avoid[OF w r(1) _ X] by simp
  have seal: "sealed {L, Suc L} {} (w1\<lparr>heap := (heap w1)[r := p]\<rparr>)" if "state p \<noteq> 0" for p
    unfolding sealed_def
  proof (intro conjI allI impI ballI)
    fix x assume "x \<in> {L, Suc L}"
    then show "x < length (heap (w1\<lparr>heap := (heap w1)[r := p]\<rparr>))"
      by (auto simp: w1_def L_def)
  next
    fix c :: nat assume "c \<in> {}"
    then show "c < length (closures (w1\<lparr>heap := (heap w1)[r := p]\<rparr>))" by simp
  next
    fix a h
    assume a: "a < length (heap (w1\<lparr>heap := (heap w1)[r := p]\<rparr>))" "a \<notin> {L, Suc L}"
      "state (heap (w1\<lparr>heap := (heap w1)[r := p]\<rparr>) ! a) = 0"
      "h \<in> set (handlers (heap (w1\<lparr>heap := (heap w1)[r := p]\<rparr>) ! a))"
    from a(1,2) have al: "a < length (heap w)" by (simp add: w1_def L_def)
    from a(3) that r1(1) have ar: "a \<noteq> r" by auto
    from a(4) ar al have "h \<in> set (handlers (heap w ! a))"
      by (simp add: w1_def nth_append)
    from wf_handlers_avoid[OF w al this X] show "avoids {L, Suc L} {} h" by simp
  next
    fix c assume "c < length (closures (w1\<lparr>heap := (heap w1)[r := p]\<rparr>))" "c \<notin> ({} :: nat set)"
    then have "c < length (closures w)" by (simp add: w1_def)
    with w have "owner (closures w ! c) < length (heap w)" by (simp add: wf_def)
    then show "owner (closures (w1\<lparr>heap := (heap w1)[r := p]\<rparr>) ! c) \<notin> {L, Suc L}"
      by (simp add: w1_def L_def)
  qed
  show "heap w2 ! L = fulfilled_with ws"
    if "promise_resolve (handler_onFulfilled k) r ws w1 = Some w2"
    by (rule forward_observed_fulfilled[OF seal r1 hs fL fS _ that]) simp_all
  show "heap w2 ! L = rejected_with rs"
    if "promise_reject (handler_onRejected k) r rs w1 = Some w2"
    by (rule forward_observed_rejected[OF seal r1 hs fL fS _ that]) simp_all
qed

subsection \<open>A rejected promise\<close>

lemma then_rejected_absent:
  assumes d: "d < length (heap w)" "state (heap w ! d) = 2" "reason (heap w ! d) = Some rs"
  shows "promise_then (handler_onFulfilled (Suc n)) (handler_onRejected (Suc n)) d g Absent w =
           Some (length (heap w), w\<lparr>heap := heap w @ [rejected_with rs]\<rparr>)"
proof (rule then_rejected[OF d])
  show "handler_onRejected (Suc n)
          \<lparr>cbFulfilled = g, cbRejected = Absent, derived = length (heap w)\<rparr> rs
          (w\<lparr>heap := heap w @ [fresh]\<rparr>) =
        Some (w\<lparr>heap := heap w @ [rejected_with rs]\<rparr>)"
    by (simp add: onRejected_absent promise_reject_def fresh_def rejected_with_def)
qed

lemma then_rejected_plain:
  assumes d: "d < length (heap w)" "state (heap w ! d) = 2" "reason (heap w ! d) = Some rs"
    and f: "f rs = Return v" "\<forall>r. v \<noteq> VPromise r"
  shows "promise_then (handler_onFulfilled (Suc n)) (handler_onRejected (Suc n)) d
           g (User name f) w =
           Some (length (heap w),
                 w\<lparr>heap := heap w @ [rejected_with rs],
                   trace := trace w @ [CallbackRun name rs]\<rparr>)"
proof (rule then_rejected[OF d])
  let ?h = "\<lparr>cbFulfilled = g, cbRejected = User name f, derived = length (heap w)\<rparr>"
  have "onRejected_body (handler_onFulfilled n) (handler_onRejected n) ?h rs
          (w\<lparr>heap := heap w @ [fresh]\<rparr>) =
        promise_reject (handler_onRejected n) (derived ?h) rs
          (w\<lparr>heap := heap w @ [fresh]\<rparr>\<lparr>trace := trace (w\<lparr>heap := heap w @ [fresh]\<rparr>) @ [CallbackRun name rs]\<rparr>)"
    by (rule onRejected_plain[where f=f and v=v]) (use f in simp_all)
  then show "handler_onRejected (Suc n) ?h rs (w\<lparr>heap := heap w @ [fresh]\<rparr>) =
        Some (w\<lparr>heap := heap w @ [rejected_with rs],
                trace := trace w @ [CallbackRun name rs]\<rparr>)"
    by (simp add: promise_reject_def fresh_def rejected_with_def)
qed

lemma then_rejected_throw:
  assumes d: "d < length (heap w)" "state (heap w ! d) = 2" "reason (heap w ! d) = Some rs"
    and f: "f rs = Throw err"
  shows "promise_then (handler_onFulfilled (Suc n)) (handler_onRejected (Suc n)) d
           g (User name f) w =
           Some (length (heap w),
                 w\<lparr>heap := heap w @ [rejected_with [err]],
                   trace := trace w @ [CallbackRun name rs]\<rparr>)"
proof (rule then_rejected[OF d])
  let ?h = "\<lparr>cbFulfilled = g, cbRejected = User name f, derived = length (heap w)\<rparr>"
  have "onRejected_body (handler_onFulfilled n) (handler_onRejected n) ?h rs
          (w\<lparr>heap := heap w @ [fresh]\<rparr>) =
        promise_reject (handler_onRejected n) (derived ?h) [err]
          (w\<lparr>heap := heap w @ [fresh]\<rparr>\<lparr>trace := trace (w\<lparr>heap := heap w @ [fresh]\<rparr>) @ [CallbackRun name rs]\<rparr>)"
    by (rule onRejected_throw[where f=f]) (use f in simp_all)
  then show "handler_onRejected (Suc n) ?h rs (w\<lparr>heap := heap w @ [fresh]\<rparr>) =
        Some (w\<lparr>heap := heap w @ [rejected_with [err]],
                trace := trace w @ [CallbackRun name rs]\<rparr>)"
    by (simp add: promise_reject_def fresh_def rejected_with_def)
qed

lemma then_rejected_chain:
  assumes d: "d < length (heap w)" "state (heap w ! d) = 2" "reason (heap w ! d) = Some rs"
    and f: "f rs = Return (VPromise r)"
    and run: "promise_then (handler_onFulfilled n) (handler_onRejected n) r
                (BoundResolve (length (heap w))) (BoundReject (length (heap w)))
                (w\<lparr>heap := heap w @ [fresh], trace := trace w @ [CallbackRun name rs]\<rparr>)
              = Some (d3, w2)"
  shows "promise_then (handler_onFulfilled (Suc n)) (handler_onRejected (Suc n)) d
           g (User name f) w = Some (length (heap w), w2)"
proof (rule then_rejected[OF d])
  let ?h = "\<lparr>cbFulfilled = g, cbRejected = User name f, derived = length (heap w)\<rparr>"
  have "onRejected_body (handler_onFulfilled n) (handler_onRejected n) ?h rs
          (w\<lparr>heap := heap w @ [fresh]\<rparr>) =
        (case promise_then (handler_onFulfilled n) (handler_onRejected n) r
                (BoundResolve (derived ?h)) (BoundReject (derived ?h))
                (w\<lparr>heap := heap w @ [fresh]\<rparr>\<lparr>trace := trace (w\<lparr>heap := heap w @ [fresh]\<rparr>) @ [CallbackRun name rs]\<rparr>) of
           None \<Rightarrow> None | Some (d, w2) \<Rightarrow> Some w2)"
    by (rule onRejected_promise[where f=f]) (use f in simp_all)
  then show "handler_onRejected (Suc n) ?h rs (w\<lparr>heap := heap w @ [fresh]\<rparr>) = Some w2"
    using run by simp
qed

lemma then_rejected_returns_fulfilled:
  assumes d: "d < length (heap w)" "state (heap w ! d) = 2" "reason (heap w ! d) = Some rs"
    and f: "f rs = Return (VPromise r)"
    and r: "r < length (heap w)" "state (heap w ! r) = 1" "pvalue (heap w ! r) = Some ws"
  shows "promise_then (handler_onFulfilled (Suc (Suc n))) (handler_onRejected (Suc (Suc n))) d
           g (User name f) w =
           Some (length (heap w),
                 w\<lparr>heap := heap w @ [fulfilled_with ws, fulfilled_with ws],
                   trace := trace w @ [CallbackRun name rs]\<rparr>)"
proof (rule then_rejected_chain[where f=f and r=r, OF d f])
  let ?w0 = "w\<lparr>heap := heap w @ [fresh], trace := trace w @ [CallbackRun name rs]\<rparr>"
  have "promise_then (handler_onFulfilled (Suc n)) (handler_onRejected (Suc n)) r
          (BoundResolve (length (heap w))) (BoundReject (length (heap w))) ?w0 =
        Some (length (heap ?w0),
              ?w0\<lparr>heap := (heap ?w0)[length (heap w) := fulfilled_with ws] @ [fulfilled_with ws]\<rparr>)"
    using r by (intro forward_fulfilled) (simp_all add: nth_append)
  then show "promise_then (handler_onFulfilled (Suc n)) (handler_onRejected (Suc n)) r
          (BoundResolve (length (heap w))) (BoundReject (length (heap w))) ?w0 =
        Some (Suc (length (heap w)),
              w\<lparr>heap := heap w @ [fulfilled_with ws, fulfilled_with ws],
                trace := trace w @ [CallbackRun name rs]\<rparr>)"
    by simp
qed

lemma then_rejected_returns_rejected:
  assumes d: "d < length (heap w)" "state (heap w ! d) = 2" "reason (heap w ! d) = Some rs"
    and f: "f rs = Return (VPromise r)"
    and r: "r < length (heap w)" "state (heap w ! r) = 2" "reason (heap w ! r) = Some qs"
  shows "promise_then (handler_onFulfilled (Suc (Suc n))) (handler_onRejected (Suc (Suc n))) d
           g (User name f) w =
           Some (length (heap w),
                 w\<lparr>heap := heap w @ [rejected_with qs, rejected_with qs],
                   trace := trace w @ [CallbackRun name rs]\<rparr>)"
proof (rule then_rejected_chain[where f=f and r=r, OF d f])
  let ?w0 = "w\<lparr>heap := heap w @ [fresh], trace := trace w @ [CallbackRun name rs]\<rparr>"
  have "promise_then (handler_onFulfilled (Suc n)) (handler_onRejected (Suc n)) r
          (BoundResolve (length (heap w))) (BoundReject (length (heap w))) ?w0 =
        Some (length (heap ?w0),
              ?w0\<lparr>heap := (heap ?w0)[length (heap w) := rejected_with qs] @ [rejected_with qs]\<rparr>)"
    using r by (intro forward_rejected) (simp_all add: nth_append)
  then show "promise_then (handler_onFulfilled (Suc n)) (handler_onRejected (Suc n)) r
          (BoundResolve (length (heap w))) (BoundReject (length (heap w))) ?w0 =
        Some (Suc (length (heap w)),
              w\<lparr>heap := heap w @ [rejected_with qs, rejected_with qs],
                trace := trace w @ [CallbackRun name rs]\<rparr>)"
    by simp
qed

lemma then_rejected_returns_pending:
  assumes d: "d < length (heap w)" "state (heap w ! d) = 2" "reason (heap w ! d) = Some rs"
    and f: "f rs = Return (VPromise r)"
    and r: "r < length (heap w)" "state (heap w ! r) = 0"
  shows "promise_then (handler_onFulfilled (Suc n)) (handler_onRejected (Suc n)) d
           g (User name f) w =
           Some (length (heap w),
                 w\<lparr>heap := (heap w)[r := (heap w ! r)\<lparr>handlers := handlers (heap w ! r) @
                                 [forwarding (length (heap w)) (Suc (length (heap w)))]\<rparr>]
                            @ [fresh, fresh],
                   trace := trace w @ [CallbackRun name rs]\<rparr>)"
proof (rule then_rejected_chain[where f=f and r=r, OF d f])
  let ?w0 = "w\<lparr>heap := heap w @ [fresh], trace := trace w @ [CallbackRun name rs]\<rparr>"
  have "promise_then (handler_onFulfilled n) (handler_onRejected n) r
          (BoundResolve (length (heap w))) (BoundReject (length (heap w))) ?w0 =
        Some (length (heap ?w0),
              ?w0\<lparr>heap := (heap ?w0)[r := (heap ?w0 ! r)\<lparr>handlers := handlers (heap ?w0 ! r) @
                 [\<lparr>cbFulfilled = BoundResolve (length (heap w)),
                   cbRejected = BoundReject (length (heap w)),
                   derived = length (heap ?w0)\<rparr>]\<rparr>] @ [fresh]\<rparr>)"
    using r by (intro then_pending) (simp_all add: nth_append)
  then show "promise_then (handler_onFulfilled n) (handler_onRejected n) r
          (BoundResolve (length (heap w))) (BoundReject (length (heap w))) ?w0 =
        Some (Suc (length (heap w)),
              w\<lparr>heap := (heap w)[r := (heap w ! r)\<lparr>handlers := handlers (heap w ! r) @
                                 [forwarding (length (heap w)) (Suc (length (heap w)))]\<rparr>]
                            @ [fresh, fresh],
                   trace := trace w @ [CallbackRun name rs]\<rparr>)"
    using r(1) by (simp add: nth_append list_update_append forwarding_def)
qed

lemma then_rejected_returns_new:
  assumes d: "d < length (heap w)" "state (heap w ! d) = 2" "reason (heap w ! d) = Some rs"
    and f: "f rs = ReturnNew (Script nm (CallResolve ws # acts) thrown)"
  shows "promise_then (handler_onFulfilled (Suc (Suc n))) (handler_onRejected (Suc (Suc n))) d
           g (User name f) w =
           Some (length (heap w),
                 w\<lparr>heap := heap w @ [fulfilled_with ws, fulfilled_with ws, fulfilled_with ws],
                   trace := trace w @ [CallbackRun name rs, ExecutorRun nm]\<rparr>)"
proof (rule then_rejected[OF d])
  let ?h = "\<lparr>cbFulfilled = g, cbRejected = User name f, derived = length (heap w)\<rparr>"
  let ?w0 = "w\<lparr>heap := heap w @ [fresh]\<rparr>"
  let ?w1 = "w\<lparr>heap := heap w @ [fresh, fulfilled_with ws],
               trace := trace w @ [CallbackRun name rs, ExecutorRun nm]\<rparr>"
  let ?F = "handler_onFulfilled (Suc n)" and ?R = "handler_onRejected (Suc n)"
  have 1: "new_promise ?F ?R (Script nm (CallResolve ws # acts) thrown)
             (?w0\<lparr>trace := trace ?w0 @ [CallbackRun name rs]\<rparr>) = Some (Suc (length (heap w)), ?w1)"
    by (simp add: new_promise_resolved)
  have 2: "onRejected_body ?F ?R ?h rs ?w0 =
           (case promise_then ?F ?R (Suc (length (heap w)))
                   (BoundResolve (derived ?h)) (BoundReject (derived ?h)) ?w1 of
              None \<Rightarrow> None | Some (d, w2) \<Rightarrow> Some w2)"
    by (rule onRejected_new[where f=f and name=name, OF _ f 1]) simp
  have 3: "promise_then ?F ?R (Suc (length (heap w)))
             (BoundResolve (length (heap w))) (BoundReject (length (heap w))) ?w1 =
           Some (length (heap ?w1),
                 ?w1\<lparr>heap := (heap ?w1)[length (heap w) := fulfilled_with ws] @ [fulfilled_with ws]\<rparr>)"
    by (rule forward_fulfilled) (simp_all add: nth_append fulfilled_with_def)
  show "handler_onRejected (Suc (Suc n)) ?h rs ?w0 =
          Some (w\<lparr>heap := heap w @ [fulfilled_with ws, fulfilled_with ws, fulfilled_with ws],
                  trace := trace w @ [CallbackRun name rs, ExecutorRun nm]\<rparr>)"
    using 2 3 by (simp add: list_update_append)
qed

lemma then_rejected_returns_new_rejected:
  assumes d: "d < length (heap w)" "state (heap w ! d) = 2" "reason (heap w ! d) = Some rs"
    and f: "f rs = ReturnNew (Script nm (CallReject qs # acts) thrown)"
  shows "promise_then (handler_onFulfilled (Suc (Suc n))) (handler_onRejected (Suc (Suc n))) d
           g (User name f) w =
           Some (length (heap w),
                 w\<lparr>heap := heap w @ [rejected_with qs, rejected_with qs, rejected_with qs],
                   trace := trace w @ [CallbackRun name rs, ExecutorRun nm]\<rparr>)"
proof (rule then_rejected[OF d])
  let ?h = "\<lparr>cbFulfilled = g, cbRejected = User name f, derived = length (heap w)\<rparr>"
  let ?w0 = "w\<lparr>heap := heap w @ [fresh]\<rparr>"
  let ?w1 = "w\<lparr>heap := heap w @ [fresh, rejected_with qs],
               trace := trace w @ [CallbackRun name rs, ExecutorRun nm]\<rparr>"
  let ?F = "handler_onFulfilled (Suc n)" and ?R = "handler_onRejected (Suc n)"
  have 1: "new_promise ?F ?R (Script nm (CallReject qs # acts) thrown)
             (?w0\<lparr>trace := trace ?w0 @ [CallbackRun name rs]\<rparr>) = Some (Suc (length (heap w)), ?w1)"
    by (simp add: new_promise_rejected)
  have 2: "onRejected_body ?F ?R ?h rs ?w0 =
           (case promise_then ?F ?R (Suc (length (heap w)))
                   (BoundResolve (derived ?h)) (BoundReject (derived ?h)) ?w1 of
              None \<Rightarrow> None | Some (d, w2) \<Rightarrow> Some w2)"
    by (rule onRejected_new[where f=f and name=name, OF _ f 1]) simp
  have 3: "promise_then ?F ?R (Suc (length (heap w)))
             (BoundResolve (length (heap w))) (BoundReject (length (heap w))) ?w1 =
           Some (length (heap ?w1),
                 ?w1\<lparr>heap := (heap ?w1)[length (heap w) := rejected_with qs] @ [rejected_with qs]\<rparr>)"
    by (rule forward_rejected) (simp_all add: nth_append rejected_with_def)
  show "handler_onRejected (Suc (Suc n)) ?h rs ?w0 =
          Some (w\<lparr>heap := heap w @ [rejected_with qs, rejected_with qs, rejected_with qs],
                  trace := trace w @ [CallbackRun name rs, ExecutorRun nm]\<rparr>)"
    using 2 3 by (simp add: list_update_append)
qed

lemma then_rejected_returns_fresh:
  assumes d: "d < length (heap w)" "state (heap w ! d) = 2" "reason (heap w ! d) = Some rs"
    and f: "f rs = Return (VPromise r)"
    and r: "r < length (heap w)" "heap w ! r = fresh"
  shows "\<exists>w1. promise_then (handler_onFulfilled (Suc n)) (handler_onRejected (Suc n)) d
                g (User name f) w = Some (length (heap w), w1) \<and>
              heap w1 ! length (heap w) = fresh \<and>
              (\<exists>w2. promise_resolve (handler_onFulfilled (Suc k)) r ws w1 = Some w2 \<and>
                     heap w2 ! length (heap w) = fulfilled_with ws) \<and>
              (\<exists>w2. promise_reject (handler_onRejected (Suc k)) r qs w1 = Some w2 \<and>
                     heap w2 ! length (heap w) = rejected_with qs)"
proof -
  let ?L = "length (heap w)"
  let ?w1 = "w\<lparr>heap := (heap w)[r := (heap w ! r)\<lparr>handlers := handlers (heap w ! r) @
                                 [forwarding ?L (Suc ?L)]\<rparr>] @ [fresh, fresh],
               trace := trace w @ [CallbackRun name rs]\<rparr>"
  have st: "state (heap w ! r) = 0" using r(2) by (simp add: fresh_def)
  have 1: "promise_then (handler_onFulfilled (Suc n)) (handler_onRejected (Suc n)) d
             g (User name f) w = Some (?L, ?w1)"
    by (rule then_rejected_returns_pending[where f=f, OF d f r(1) st])
  have len: "r < length (heap ?w1)" "?L < length (heap ?w1)" "Suc ?L < length (heap ?w1)"
    using r(1) by simp_all
  have hr: "heap ?w1 ! r = fresh\<lparr>handlers := [forwarding ?L (Suc ?L)]\<rparr>"
    using r by (simp add: nth_append fresh_def)
  have hL: "heap ?w1 ! ?L = fresh" "heap ?w1 ! Suc ?L = fresh"
    by (simp_all add: nth_append)
  have 2: "promise_resolve (handler_onFulfilled (Suc k)) r ws ?w1 =
             Some (?w1\<lparr>heap := (heap ?w1)[r := (fulfilled_with ws)\<lparr>handlers := [forwarding ?L (Suc ?L)]\<rparr>,
                                   ?L := fulfilled_with ws, Suc ?L := fulfilled_with ws]\<rparr>)"
    by (rule forward_later_fulfilled[OF len(1) hr len(2) hL(1) len(3) hL(2)]) simp
  have 3: "promise_reject (handler_onRejected (Suc k)) r qs ?w1 =
             Some (?w1\<lparr>heap := (heap ?w1)[r := (rejected_with qs)\<lparr>handlers := [forwarding ?L (Suc ?L)]\<rparr>,
                                   ?L := rejected_with qs, Suc ?L := rejected_with qs]\<rparr>)"
    by (rule forward_later_rejected[OF len(1) hr len(2) hL(1) len(3) hL(2)]) simp
  show ?thesis
  proof (intro exI conjI)
    show "promise_then (handler_onFulfilled (Suc n)) (handler_onRejected (Suc n)) d
             g (User name f) w = Some (?L, ?w1)" by (rule 1)
    show "heap ?w1 ! ?L = fresh" by (rule hL(1))
    show "promise_resolve (handler_onFulfilled (Suc k)) r ws ?w1 =
             Some (?w1\<lparr>heap := (heap ?w1)[r := (fulfilled_with ws)\<lparr>handlers := [forwarding ?L (Suc ?L)]\<rparr>,
                                   ?L := fulfilled_with ws, Suc ?L := fulfilled_with ws]\<rparr>)" by (rule 2)
    show "heap (?w1\<lparr>heap := (heap ?w1)[r := (fulfilled_with ws)\<lparr>handlers := [forwarding ?L (Suc ?L)]\<rparr>,
                                   ?L := fulfilled_with ws, Suc ?L := fulfilled_with ws]\<rparr>) ! ?L
            = fulfilled_with ws"
      using r(1) by simp
    show "promise_reject (handler_onRejected (Suc k)) r qs ?w1 =
             Some (?w1\<lparr>heap := (heap ?w1)[r := (rejected_with qs)\<lparr>handlers := [forwarding ?L (Suc ?L)]\<rparr>,
                                   ?L := rejected_with qs, Suc ?L := rejected_with qs]\<rparr>)" by (rule 3)
    show "heap (?w1\<lparr>heap := (heap ?w1)[r := (rejected_with qs)\<lparr>handlers := [forwarding ?L (Suc ?L)]\<rparr>,
                                   ?L := rejected_with qs, Suc ?L := rejected_with qs]\<rparr>) ! ?L
            = rejected_with qs"
      using r(1) by simp
  qed
qed


text \<open>
  C5. Let \<open>d\<close> be rejected with the reasons \<open>rs\<close>, and call \<open>then\<close> on it with any first
  callback \<open>f\<close>; the new promise has index \<open>length (heap w)\<close>. \<open>catch(g)\<close> is
  \<open>then(null, g)\<close>.
  \<^item> Without a rejection callback the new promise is rejected with \<open>rs\<close>.
  \<^item> If the rejection callback \<open>g\<close> returns a value that is not a promise, the new
    promise is rejected with \<open>rs\<close> all the same; \<open>g\<close> has run once with \<open>rs\<close>.
  \<^item> If \<open>g\<close> returns a promise \<open>r\<close> of the store, the new promise takes the outcome of
    \<open>r\<close>: at once when \<open>r\<close> is settled, and when \<open>r\<close> is settled later if it is pending
    (shown for an \<open>r\<close> without other handlers).
  \<^item> If \<open>g\<close> raises \<open>err\<close>, the new promise is rejected with the single reason \<open>err\<close>.
  \<^item> If \<open>r\<close> is pending, whatever handlers it has, the new promise stays pending and
    the forwarding handler is added after them; in a well-formed store, settling \<open>r\<close>
    later (with a budget that reaches the bound of the store) runs those handlers first
    and then gives the new promise the outcome of \<open>r\<close>.
  \<^item> If \<open>g\<close> builds the promise it returns and resolves it with \<open>ws\<close> (rejects it with
    \<open>qs\<close>), as in \<open>catch(e => Promise.resolve(x))\<close>, the new promise is fulfilled with
    \<open>ws\<close> (rejected with \<open>qs\<close>).
\<close>

theorem then_on_rejected:
  assumes "d < length (heap w)" and "state (heap w ! d) = 2" and "reason (heap w ! d) = Some rs"
  shows "promise_then (handler_onFulfilled (Suc n)) (handler_onRejected (Suc n)) d f Absent w =
           Some (length (heap w), w\<lparr>heap := heap w @ [rejected_with rs]\<rparr>) \<and>
         promise_catch (handler_onFulfilled (Suc n)) (handler_onRejected (Suc n)) d
           (User name g) w =
         promise_then (handler_onFulfilled (Suc n)) (handler_onRejected (Suc n)) d
           Absent (User name g) w \<and>
         (g rs = Return v \<and> (\<forall>r. v \<noteq> VPromise r) \<longrightarrow>
            promise_then (handler_onFulfilled (Suc n)) (handler_onRejected (Suc n)) d
              f (User name g) w =
            Some (length (heap w),
                  w\<lparr>heap := heap w @ [rejected_with rs],
                    trace := trace w @ [CallbackRun name rs]\<rparr>)) \<and>
         (g rs = Return (VPromise r) \<and> r < length (heap w) \<and>
          state (heap w ! r) = 1 \<and> pvalue (heap w ! r) = Some ws \<longrightarrow>
            promise_then (handler_onFulfilled (Suc (Suc n))) (handler_onRejected (Suc (Suc n))) d
              f (User name g) w =
            Some (length (heap w),
                  w\<lparr>heap := heap w @ [fulfilled_with ws, fulfilled_with ws],
                    trace := trace w @ [CallbackRun name rs]\<rparr>)) \<and>
         (g rs = Return (VPromise r) \<and> r < length (heap w) \<and>
          state (heap w ! r) = 2 \<and> reason (heap w ! r) = Some qs \<longrightarrow>
            promise_then (handler_onFulfilled (Suc (Suc n))) (handler_onRejected (Suc (Suc n))) d
              f (User name g) w =
            Some (length (heap w),
                  w\<lparr>heap := heap w @ [rejected_with qs, rejected_with qs],
                    trace := trace w @ [CallbackRun name rs]\<rparr>)) \<and>
         (g rs = Return (VPromise r) \<and> r < length (heap w) \<and> heap w ! r = fresh \<longrightarrow>
            (\<exists>w1. promise_then (handler_onFulfilled (Suc n)) (handler_onRejected (Suc n)) d
                     f (User name g) w = Some (length (heap w), w1) \<and>
                   heap w1 ! length (heap w) = fresh \<and>
                   (\<exists>w2. promise_resolve (handler_onFulfilled (Suc k)) r ws w1 = Some w2 \<and>
                          heap w2 ! length (heap w) = fulfilled_with ws) \<and>
                   (\<exists>w2. promise_reject (handler_onRejected (Suc k)) r qs w1 = Some w2 \<and>
                          heap w2 ! length (heap w) = rejected_with qs))) \<and>
         (g rs = Throw err \<longrightarrow>
            promise_then (handler_onFulfilled (Suc n)) (handler_onRejected (Suc n)) d
              f (User name g) w =
            Some (length (heap w),
                  w\<lparr>heap := heap w @ [rejected_with [err]],
                    trace := trace w @ [CallbackRun name rs]\<rparr>)) \<and>
         (g rs = Return (VPromise r) \<and> r < length (heap w) \<and> state (heap w ! r) = 0 \<longrightarrow>
            promise_then (handler_onFulfilled (Suc n)) (handler_onRejected (Suc n)) d
              f (User name g) w =
            Some (length (heap w),
                  w\<lparr>heap := (heap w)[r := (heap w ! r)\<lparr>handlers := handlers (heap w ! r) @
                                  [forwarding (length (heap w)) (Suc (length (heap w)))]\<rparr>]
                             @ [fresh, fresh],
                    trace := trace w @ [CallbackRun name rs]\<rparr>)) \<and>
         (g rs = ReturnNew (Script nm (CallResolve ws # acts) thrown) \<longrightarrow>
            promise_then (handler_onFulfilled (Suc (Suc n))) (handler_onRejected (Suc (Suc n))) d
              f (User name g) w =
            Some (length (heap w),
                  w\<lparr>heap := heap w @ [fulfilled_with ws, fulfilled_with ws, fulfilled_with ws],
                    trace := trace w @ [CallbackRun name rs, ExecutorRun nm]\<rparr>)) \<and>
         (g rs = ReturnNew (Script nm (CallReject qs # acts) thrown) \<longrightarrow>
            promise_then (handler_onFulfilled (Suc (Suc n))) (handler_onRejected (Suc (Suc n))) d
              f (User name g) w =
            Some (length (heap w),
                  w\<lparr>heap := heap w @ [rejected_with qs, rejected_with qs, rejected_with qs],
                    trace := trace w @ [CallbackRun name rs, ExecutorRun nm]\<rparr>)) \<and>
         (wf w \<and> g rs = Return (VPromise r) \<and> r < length (heap w) \<and> state (heap w ! r) = 0 \<and>
          potential w + 2 \<le> k \<longrightarrow>
            (\<exists>w1. promise_then (handler_onFulfilled (Suc n)) (handler_onRejected (Suc n)) d
                     f (User name g) w = Some (length (heap w), w1) \<and>
                   heap w1 ! length (heap w) = fresh \<and>
                   (\<exists>w2. promise_resolve (handler_onFulfilled k) r ws w1 = Some w2 \<and>
                          heap w2 ! length (heap w) = fulfilled_with ws) \<and>
                   (\<exists>w2. promise_reject (handler_onRejected k) r qs w1 = Some w2 \<and>
                          heap w2 ! length (heap w) = rejected_with qs)))"
proof (intro conjI impI)
  show "promise_then (handler_onFulfilled (Suc n)) (handler_onRejected (Suc n)) d f Absent w =
           Some (length (heap w), w\<lparr>heap := heap w @ [rejected_with rs]\<rparr>)"
    by (rule then_rejected_absent[OF assms])
next
  show "promise_catch (handler_onFulfilled (Suc n)) (handler_onRejected (Suc n)) d
           (User name g) w =
         promise_then (handler_onFulfilled (Suc n)) (handler_onRejected (Suc n)) d
           Absent (User name g) w"
    by (simp add: promise_catch_def)
next
  assume "g rs = Return v \<and> (\<forall>r. v \<noteq> VPromise r)"
  then show "promise_then (handler_onFulfilled (Suc n)) (handler_onRejected (Suc n)) d
              f (User name g) w =
            Some (length (heap w),
                  w\<lparr>heap := heap w @ [rejected_with rs],
                    trace := trace w @ [CallbackRun name rs]\<rparr>)"
    using then_rejected_plain[where f=g and g=f and v=v, OF assms] by blast
next
  assume "g rs = Return (VPromise r) \<and> r < length (heap w) \<and>
          state (heap w ! r) = 1 \<and> pvalue (heap w ! r) = Some ws"
  then show "promise_then (handler_onFulfilled (Suc (Suc n))) (handler_onRejected (Suc (Suc n))) d
              f (User name g) w =
            Some (length (heap w),
                  w\<lparr>heap := heap w @ [fulfilled_with ws, fulfilled_with ws],
                    trace := trace w @ [CallbackRun name rs]\<rparr>)"
    using then_rejected_returns_fulfilled[where f=g and g=f and r=r, OF assms] by blast
next
  assume "g rs = Return (VPromise r) \<and> r < length (heap w) \<and>
          state (heap w ! r) = 2 \<and> reason (heap w ! r) = Some qs"
  then show "promise_then (handler_onFulfilled (Suc (Suc n))) (handler_onRejected (Suc (Suc n))) d
              f (User name g) w =
            Some (length (heap w),
                  w\<lparr>heap := heap w @ [rejected_with qs, rejected_with qs],
                    trace := trace w @ [CallbackRun name rs]\<rparr>)"
    using then_rejected_returns_rejected[where f=g and g=f and r=r, OF assms] by blast
next
  assume "g rs = Return (VPromise r) \<and> r < length (heap w) \<and> heap w ! r = fresh"
  then show "\<exists>w1. promise_then (handler_onFulfilled (Suc n)) (handler_onRejected (Suc n)) d
                     f (User name g) w = Some (length (heap w), w1) \<and>
                   heap w1 ! length (heap w) = fresh \<and>
                   (\<exists>w2. promise_resolve (handler_onFulfilled (Suc k)) r ws w1 = Some w2 \<and>
                          heap w2 ! length (heap w) = fulfilled_with ws) \<and>
                   (\<exists>w2. promise_reject (handler_onRejected (Suc k)) r qs w1 = Some w2 \<and>
                          heap w2 ! length (heap w) = rejected_with qs)"
    using then_rejected_returns_fresh[where f=g and g=f and r=r, OF assms] by blast
next
  assume "g rs = Throw err"
  then show "promise_then (handler_onFulfilled (Suc n)) (handler_onRejected (Suc n)) d
              f (User name g) w =
            Some (length (heap w),
                  w\<lparr>heap := heap w @ [rejected_with [err]],
                    trace := trace w @ [CallbackRun name rs]\<rparr>)"
    using then_rejected_throw[where f=g and g=f, OF assms] by blast
next
  assume "g rs = Return (VPromise r) \<and> r < length (heap w) \<and> state (heap w ! r) = 0"
  then show "promise_then (handler_onFulfilled (Suc n)) (handler_onRejected (Suc n)) d
              f (User name g) w =
            Some (length (heap w),
                  w\<lparr>heap := (heap w)[r := (heap w ! r)\<lparr>handlers := handlers (heap w ! r) @
                                  [forwarding (length (heap w)) (Suc (length (heap w)))]\<rparr>]
                             @ [fresh, fresh],
                    trace := trace w @ [CallbackRun name rs]\<rparr>)"
    using then_rejected_returns_pending[where f=g and g=f and r=r, OF assms] by blast
next
  assume "g rs = ReturnNew (Script nm (CallResolve ws # acts) thrown)"
  then show "promise_then (handler_onFulfilled (Suc (Suc n))) (handler_onRejected (Suc (Suc n))) d
              f (User name g) w =
            Some (length (heap w),
                  w\<lparr>heap := heap w @ [fulfilled_with ws, fulfilled_with ws, fulfilled_with ws],
                    trace := trace w @ [CallbackRun name rs, ExecutorRun nm]\<rparr>)"
    using then_rejected_returns_new[where f=g and g=f, OF assms] by blast
next
  assume "g rs = ReturnNew (Script nm (CallReject qs # acts) thrown)"
  then show "promise_then (handler_onFulfilled (Suc (Suc n))) (handler_onRejected (Suc (Suc n))) d
              f (User name g) w =
            Some (length (heap w),
                  w\<lparr>heap := heap w @ [rejected_with qs, rejected_with qs, rejected_with qs],
                    trace := trace w @ [CallbackRun name rs, ExecutorRun nm]\<rparr>)"
    using then_rejected_returns_new_rejected[where f=g and g=f, OF assms] by blast
next
  assume a: "wf w \<and> g rs = Return (VPromise r) \<and> r < length (heap w) \<and>
             state (heap w ! r) = 0 \<and> potential w + 2 \<le> k"
  let ?L = "length (heap w)"
  let ?w1 = "w\<lparr>heap := (heap w)[r := (heap w ! r)\<lparr>handlers := handlers (heap w ! r) @
                                 [forwarding ?L (Suc ?L)]\<rparr>] @ [fresh, fresh],
               trace := trace w @ [CallbackRun name rs]\<rparr>"
  from a have w: "wf w" and g: "g rs = Return (VPromise r)" and r: "r < length (heap w)"
    "state (heap w ! r) = 0" and k: "potential w + 2 \<le> k" by simp_all
  note fs = forwarding_store[OF w r, where t="trace w @ [CallbackRun name rs]"]
  have 1: "promise_then (handler_onFulfilled (Suc n)) (handler_onRejected (Suc n)) d
             f (User name g) w = Some (?L, ?w1)"
    by (rule then_rejected_returns_pending[where f=g, OF assms g r])
  have r1: "r < length (heap ?w1)" using r(1) by simp
  have p1: "potential ?w1 \<le> Suc k" using fs(2) k by simp
  from resolve_returns[OF fs(1) r1 p1, of ws] obtain w2 where
    2: "promise_resolve (handler_onFulfilled k) r ws ?w1 = Some w2" by blast
  from reject_returns[OF fs(1) r1 p1, of qs] obtain w3 where
    3: "promise_reject (handler_onRejected k) r qs ?w1 = Some w3" by blast
  show "\<exists>w1. promise_then (handler_onFulfilled (Suc n)) (handler_onRejected (Suc n)) d
                     f (User name g) w = Some (length (heap w), w1) \<and>
                   heap w1 ! length (heap w) = fresh \<and>
                   (\<exists>w2. promise_resolve (handler_onFulfilled k) r ws w1 = Some w2 \<and>
                          heap w2 ! length (heap w) = fulfilled_with ws) \<and>
                   (\<exists>w2. promise_reject (handler_onRejected k) r qs w1 = Some w2 \<and>
                          heap w2 ! length (heap w) = rejected_with qs)"
    using 1 fs(3) 2 fs(4)[OF 2] 3 fs(5)[OF 3] by blast
qed

theorem then_on_rejected_witness:
  "0 < length (heap c5_world) \<and> state (heap c5_world ! 0) = 2 \<and>
   reason (heap c5_world ! 0) = Some [VStr ''bad'', VNum 7] \<and>
   promise_then (handler_onFulfilled (Suc 0)) (handler_onRejected (Suc 0)) 0
     (User ''f'' ignore_args) Absent c5_world =
   Some (4, c5_world\<lparr>heap := heap c5_world @ [rejected_with [VStr ''bad'', VNum 7]]\<rparr>) \<and>
   ignore_args [VStr ''bad'', VNum 7] = Return (VStr ''ignored'') \<and>
   promise_then (handler_onFulfilled (Suc 0)) (handler_onRejected (Suc 0)) 0
     Absent (User ''g'' ignore_args) c5_world =
   Some (4, c5_world\<lparr>heap := heap c5_world @ [rejected_with [VStr ''bad'', VNum 7]],
                     trace := [CallbackRun ''g'' [VStr ''bad'', VNum 7]]\<rparr>) \<and>
   return_promise 1 [VStr ''bad'', VNum 7] = Return (VPromise 1) \<and>
   state (heap c5_world ! 1) = 1 \<and> pvalue (heap c5_world ! 1) = Some [VStr ''r''] \<and>
   promise_then (handler_onFulfilled (Suc (Suc 0))) (handler_onRejected (Suc (Suc 0))) 0
     Absent (User ''g'' (return_promise 1)) c5_world =
   Some (4, c5_world\<lparr>heap := heap c5_world @ [fulfilled_with [VStr ''r''], fulfilled_with [VStr ''r'']],
                     trace := [CallbackRun ''g'' [VStr ''bad'', VNum 7]]\<rparr>) \<and>
   state (heap c5_world ! 2) = 2 \<and> reason (heap c5_world ! 2) = Some [VStr ''e''] \<and>
   promise_then (handler_onFulfilled (Suc (Suc 0))) (handler_onRejected (Suc (Suc 0))) 0
     Absent (User ''g'' (return_promise 2)) c5_world =
   Some (4, c5_world\<lparr>heap := heap c5_world @ [rejected_with [VStr ''e''], rejected_with [VStr ''e'']],
                     trace := [CallbackRun ''g'' [VStr ''bad'', VNum 7]]\<rparr>) \<and>
   heap c5_world ! 3 = fresh \<and>
   (\<exists>w1. promise_then (handler_onFulfilled (Suc 0)) (handler_onRejected (Suc 0)) 0
            Absent (User ''g'' (return_promise 3)) c5_world = Some (4, w1) \<and>
          heap w1 ! 4 = fresh \<and>
          (\<exists>w2. promise_resolve (handler_onFulfilled (Suc 0)) 3 [VNum 8] w1 = Some w2 \<and>
                 heap w2 ! 4 = fulfilled_with [VNum 8]) \<and>
          (\<exists>w2. promise_reject (handler_onRejected (Suc 0)) 3 [VStr ''late''] w1 = Some w2 \<and>
                 heap w2 ! 4 = rejected_with [VStr ''late''])) \<and>
   raise_boom [VStr ''bad'', VNum 7] = Throw (VStr ''boom'') \<and>
   promise_then (handler_onFulfilled (Suc 0)) (handler_onRejected (Suc 0)) 0
     Absent (User ''g'' raise_boom) c5_world =
   Some (4, c5_world\<lparr>heap := heap c5_world @ [rejected_with [VStr ''boom'']],
                     trace := [CallbackRun ''g'' [VStr ''bad'', VNum 7]]\<rparr>) \<and>
   recover [VStr ''bad'', VNum 7] =
     ReturnNew (Script ''Promise.resolve'' [CallResolve [VStr ''ok'']] None) \<and>
   promise_catch (handler_onFulfilled (Suc (Suc 0))) (handler_onRejected (Suc (Suc 0))) 0
     (User ''g'' recover) c5_world =
   Some (4, c5_world\<lparr>heap := heap c5_world @ [fulfilled_with [VStr ''ok''],
                                 fulfilled_with [VStr ''ok''], fulfilled_with [VStr ''ok'']],
                     trace := [CallbackRun ''g'' [VStr ''bad'', VNum 7],
                               ExecutorRun ''Promise.resolve'']\<rparr>) \<and>
   fail_again [VStr ''bad'', VNum 7] =
     ReturnNew (Script ''Promise.reject'' [CallReject [VStr ''again'']] None) \<and>
   promise_then (handler_onFulfilled (Suc (Suc 0))) (handler_onRejected (Suc (Suc 0))) 0
     Absent (User ''g'' fail_again) c5_world =
   Some (4, c5_world\<lparr>heap := heap c5_world @ [rejected_with [VStr ''again''],
                                 rejected_with [VStr ''again''], rejected_with [VStr ''again'']],
                     trace := [CallbackRun ''g'' [VStr ''bad'', VNum 7],
                               ExecutorRun ''Promise.reject'']\<rparr>) \<and>
   0 < length (heap c5_observed) \<and> state (heap c5_observed ! 0) = 2 \<and>
   reason (heap c5_observed ! 0) = Some [VStr ''bad''] \<and>
   return_promise 1 [VStr ''bad''] = Return (VPromise 1) \<and>
   1 < length (heap c5_observed) \<and> state (heap c5_observed ! 1) = 0 \<and>
   promise_then (handler_onFulfilled (Suc 0)) (handler_onRejected (Suc 0)) 0
     Absent (User ''g'' (return_promise 1)) c5_observed =
   Some (3, c5_observed\<lparr>heap :=
              [rejected_with [VStr ''bad''],
               fresh\<lparr>handlers := [\<lparr>cbFulfilled = User ''seen'' ignore_args, cbRejected = Absent,
                                     derived = 2\<rparr>, forwarding 3 4]\<rparr>,
               fresh, fresh, fresh],
            trace := [CallbackRun ''g'' [VStr ''bad'']]\<rparr>) \<and>
   wf c5_observed \<and> potential c5_observed + 2 \<le> 8 \<and>
   (\<exists>w1. promise_then (handler_onFulfilled (Suc 0)) (handler_onRejected (Suc 0)) 0
            Absent (User ''g'' (return_promise 1)) c5_observed = Some (3, w1) \<and>
          heap w1 ! 3 = fresh \<and>
          (\<exists>w2. promise_resolve (handler_onFulfilled 8) 1 [VNum 8] w1 = Some w2 \<and>
                 heap w2 ! 3 = fulfilled_with [VNum 8]) \<and>
          (\<exists>w2. promise_reject (handler_onRejected 8) 1 [VStr ''late''] w1 = Some w2 \<and>
                 heap w2 ! 3 = rejected_with [VStr ''late'']))"
proof -
  have d: "0 < length (heap c5_world)" "state (heap c5_world ! 0) = 2"
    "reason (heap c5_world ! 0) = Some [VStr ''bad'', VNum 7]"
    by (simp_all add: c5_world_def example_defs)
  have facts: "length (heap c5_world) = 4" "trace c5_world = []"
    "state (heap c5_world ! 1) = 1" "pvalue (heap c5_world ! 1) = Some [VStr ''r'']"
    "state (heap c5_world ! 2) = 2" "reason (heap c5_world ! 2) = Some [VStr ''e'']"
    "heap c5_world ! 3 = fresh"
    by (simp_all add: c5_world_def example_defs)
  have f: "ignore_args [VStr ''bad'', VNum 7] = Return (VStr ''ignored'')"
    "return_promise 1 [VStr ''bad'', VNum 7] = Return (VPromise 1)"
    "return_promise 2 [VStr ''bad'', VNum 7] = Return (VPromise 2)"
    "return_promise 3 [VStr ''bad'', VNum 7] = Return (VPromise 3)"
    "raise_boom [VStr ''bad'', VNum 7] = Throw (VStr ''boom'')"
    by (simp_all add: ignore_args_def return_promise_def raise_boom_def)
  note t = then_on_rejected[OF d]
  have 0: "promise_then (handler_onFulfilled (Suc 0)) (handler_onRejected (Suc 0)) 0
     (User ''f'' ignore_args) Absent c5_world =
   Some (4, c5_world\<lparr>heap := heap c5_world @ [rejected_with [VStr ''bad'', VNum 7]]\<rparr>)"
    using t[where f="User ''f'' ignore_args" and n=0] facts by simp
  have 1: "promise_then (handler_onFulfilled (Suc 0)) (handler_onRejected (Suc 0)) 0
     Absent (User ''g'' ignore_args) c5_world =
   Some (4, c5_world\<lparr>heap := heap c5_world @ [rejected_with [VStr ''bad'', VNum 7]],
                     trace := [CallbackRun ''g'' [VStr ''bad'', VNum 7]]\<rparr>)"
    using t[where g=ignore_args and v="VStr ''ignored''" and n=0 and name="''g''" and f=Absent]
      f facts by simp
  have 2: "promise_then (handler_onFulfilled (Suc (Suc 0))) (handler_onRejected (Suc (Suc 0))) 0
     Absent (User ''g'' (return_promise 1)) c5_world =
   Some (4, c5_world\<lparr>heap := heap c5_world @ [fulfilled_with [VStr ''r''], fulfilled_with [VStr ''r'']],
                     trace := [CallbackRun ''g'' [VStr ''bad'', VNum 7]]\<rparr>)"
    using t[where g="return_promise 1" and r=1 and ws="[VStr ''r'']" and n=0
        and name="''g''" and f=Absent] f facts by simp
  have 3: "promise_then (handler_onFulfilled (Suc (Suc 0))) (handler_onRejected (Suc (Suc 0))) 0
     Absent (User ''g'' (return_promise 2)) c5_world =
   Some (4, c5_world\<lparr>heap := heap c5_world @ [rejected_with [VStr ''e''], rejected_with [VStr ''e'']],
                     trace := [CallbackRun ''g'' [VStr ''bad'', VNum 7]]\<rparr>)"
    using t[where g="return_promise 2" and r=2 and qs="[VStr ''e'']" and n=0
        and name="''g''" and f=Absent] f facts by simp
  have 5: "\<exists>w1. promise_then (handler_onFulfilled (Suc 0)) (handler_onRejected (Suc 0)) 0
            Absent (User ''g'' (return_promise 3)) c5_world = Some (4, w1) \<and>
          heap w1 ! 4 = fresh \<and>
          (\<exists>w2. promise_resolve (handler_onFulfilled (Suc 0)) 3 [VNum 8] w1 = Some w2 \<and>
                 heap w2 ! 4 = fulfilled_with [VNum 8]) \<and>
          (\<exists>w2. promise_reject (handler_onRejected (Suc 0)) 3 [VStr ''late''] w1 = Some w2 \<and>
                 heap w2 ! 4 = rejected_with [VStr ''late''])"
  proof -
    have hyp: "return_promise 3 [VStr ''bad'', VNum 7] = Return (VPromise 3) \<and>
               3 < length (heap c5_world) \<and> heap c5_world ! 3 = fresh"
      using f facts by simp
    have "return_promise 3 [VStr ''bad'', VNum 7] = Return (VPromise 3) \<and>
               3 < length (heap c5_world) \<and> heap c5_world ! 3 = fresh \<longrightarrow>
          (\<exists>w1. promise_then (handler_onFulfilled (Suc 0)) (handler_onRejected (Suc 0)) 0
            Absent (User ''g'' (return_promise 3)) c5_world = Some (length (heap c5_world), w1) \<and>
          heap w1 ! length (heap c5_world) = fresh \<and>
          (\<exists>w2. promise_resolve (handler_onFulfilled (Suc 0)) 3 [VNum 8] w1 = Some w2 \<and>
                 heap w2 ! length (heap c5_world) = fulfilled_with [VNum 8]) \<and>
          (\<exists>w2. promise_reject (handler_onRejected (Suc 0)) 3 [VStr ''late''] w1 = Some w2 \<and>
                 heap w2 ! length (heap c5_world) = rejected_with [VStr ''late'']))"
      by (rule t[where g="return_promise 3" and r=3 and n=0 and k=0 and name="''g''" and f=Absent
        and ws="[VNum 8]" and qs="[VStr ''late'']", THEN conjunct2, THEN conjunct2, THEN conjunct2,
        THEN conjunct2, THEN conjunct2, THEN conjunct1])
    with hyp have "\<exists>w1. promise_then (handler_onFulfilled (Suc 0)) (handler_onRejected (Suc 0)) 0
            Absent (User ''g'' (return_promise 3)) c5_world = Some (length (heap c5_world), w1) \<and>
          heap w1 ! length (heap c5_world) = fresh \<and>
          (\<exists>w2. promise_resolve (handler_onFulfilled (Suc 0)) 3 [VNum 8] w1 = Some w2 \<and>
                 heap w2 ! length (heap c5_world) = fulfilled_with [VNum 8]) \<and>
          (\<exists>w2. promise_reject (handler_onRejected (Suc 0)) 3 [VStr ''late''] w1 = Some w2 \<and>
                 heap w2 ! length (heap c5_world) = rejected_with [VStr ''late''])"
      by (rule rev_mp)
    then show ?thesis unfolding facts(1) .
  qed
  have 6: "promise_then (handler_onFulfilled (Suc 0)) (handler_onRejected (Suc 0)) 0
     Absent (User ''g'' raise_boom) c5_world =
   Some (4, c5_world\<lparr>heap := heap c5_world @ [rejected_with [VStr ''boom'']],
                     trace := [CallbackRun ''g'' [VStr ''bad'', VNum 7]]\<rparr>)"
    using t[where g=raise_boom and err="VStr ''boom''" and n=0 and name="''g''" and f=Absent]
      f facts by simp
  have g: "recover [VStr ''bad'', VNum 7] =
             ReturnNew (Script ''Promise.resolve'' [CallResolve [VStr ''ok'']] None)"
    "fail_again [VStr ''bad'', VNum 7] =
             ReturnNew (Script ''Promise.reject'' [CallReject [VStr ''again'']] None)"
    by (simp_all add: recover_def fail_again_def)
  have 7: "promise_catch (handler_onFulfilled (Suc (Suc 0))) (handler_onRejected (Suc (Suc 0))) 0
     (User ''g'' recover) c5_world =
   Some (4, c5_world\<lparr>heap := heap c5_world @ [fulfilled_with [VStr ''ok''],
                                 fulfilled_with [VStr ''ok''], fulfilled_with [VStr ''ok'']],
                     trace := [CallbackRun ''g'' [VStr ''bad'', VNum 7],
                               ExecutorRun ''Promise.resolve'']\<rparr>)"
    using t[where g=recover and ws="[VStr ''ok'']" and nm="''Promise.resolve''" and acts="[]"
        and thrown=None and n=0 and name="''g''" and f=Absent] g facts
    by (simp add: promise_catch_def)
  have 8: "promise_then (handler_onFulfilled (Suc (Suc 0))) (handler_onRejected (Suc (Suc 0))) 0
     Absent (User ''g'' fail_again) c5_world =
   Some (4, c5_world\<lparr>heap := heap c5_world @ [rejected_with [VStr ''again''],
                                 rejected_with [VStr ''again''], rejected_with [VStr ''again'']],
                     trace := [CallbackRun ''g'' [VStr ''bad'', VNum 7],
                               ExecutorRun ''Promise.reject'']\<rparr>)"
    using t[where g=fail_again and qs="[VStr ''again'']" and nm="''Promise.reject''" and acts="[]"
        and thrown=None and n=0 and name="''g''" and f=Absent] g facts
    by simp
  have d2: "0 < length (heap c5_observed)" "state (heap c5_observed ! 0) = 2"
    "reason (heap c5_observed ! 0) = Some [VStr ''bad'']"
    by (simp_all add: c5_observed_def example_defs)
  have o: "return_promise 1 [VStr ''bad''] = Return (VPromise 1)"
    "1 < length (heap c5_observed)" "state (heap c5_observed ! 1) = 0"
    by (simp_all add: return_promise_def c5_observed_def example_defs)
  have 9: "promise_then (handler_onFulfilled (Suc 0)) (handler_onRejected (Suc 0)) 0
     Absent (User ''g'' (return_promise 1)) c5_observed =
   Some (3, c5_observed\<lparr>heap :=
              [rejected_with [VStr ''bad''],
               fresh\<lparr>handlers := [\<lparr>cbFulfilled = User ''seen'' ignore_args, cbRejected = Absent,
                                     derived = 2\<rparr>, forwarding 3 4]\<rparr>,
               fresh, fresh, fresh],
            trace := [CallbackRun ''g'' [VStr ''bad'']]\<rparr>)"
  proof -
    have hyp: "return_promise 1 [VStr ''bad''] = Return (VPromise 1) \<and>
               1 < length (heap c5_observed) \<and> state (heap c5_observed ! 1) = 0"
      using o by simp
    have "return_promise 1 [VStr ''bad''] = Return (VPromise 1) \<and>
               1 < length (heap c5_observed) \<and> state (heap c5_observed ! 1) = 0 \<longrightarrow>
          promise_then (handler_onFulfilled (Suc 0)) (handler_onRejected (Suc 0)) 0
            Absent (User ''g'' (return_promise 1)) c5_observed =
          Some (length (heap c5_observed),
                c5_observed\<lparr>heap := (heap c5_observed)[1 := (heap c5_observed ! 1)
                    \<lparr>handlers := handlers (heap c5_observed ! 1) @
                       [forwarding (length (heap c5_observed)) (Suc (length (heap c5_observed)))]\<rparr>]
                    @ [fresh, fresh],
                  trace := trace c5_observed @ [CallbackRun ''g'' [VStr ''bad'']]\<rparr>)"
      by (rule then_on_rejected[OF d2, where g="return_promise 1" and r=1 and n=0
        and name="''g''" and f=Absent, THEN conjunct2, THEN conjunct2, THEN conjunct2,
        THEN conjunct2, THEN conjunct2, THEN conjunct2, THEN conjunct2, THEN conjunct1])
    with hyp have "promise_then (handler_onFulfilled (Suc 0)) (handler_onRejected (Suc 0)) 0
            Absent (User ''g'' (return_promise 1)) c5_observed =
          Some (length (heap c5_observed),
                c5_observed\<lparr>heap := (heap c5_observed)[1 := (heap c5_observed ! 1)
                    \<lparr>handlers := handlers (heap c5_observed ! 1) @
                       [forwarding (length (heap c5_observed)) (Suc (length (heap c5_observed)))]\<rparr>]
                    @ [fresh, fresh],
                  trace := trace c5_observed @ [CallbackRun ''g'' [VStr ''bad'']]\<rparr>)"
      by (rule rev_mp)
    moreover have "length (heap c5_observed) = 3" "trace c5_observed = []"
      "(heap c5_observed)[1 := (heap c5_observed ! 1)
          \<lparr>handlers := handlers (heap c5_observed ! 1) @ [forwarding 3 (Suc 3)]\<rparr>] @ [fresh, fresh] =
       [rejected_with [VStr ''bad''],
        fresh\<lparr>handlers := [\<lparr>cbFulfilled = User ''seen'' ignore_args, cbRejected = Absent,
                              derived = 2\<rparr>, forwarding 3 4]\<rparr>,
        fresh, fresh, fresh]"
      by (simp_all add: c5_observed_def example_defs)
    ultimately show ?thesis by simp
  qed
  have wo: "wf c5_observed" "potential c5_observed + 2 \<le> 8"
    by (simp_all add: c5_observed_def example_defs wf_def promise_ok_def handler_ok_def cb_ok_def
          potential_def pot_def weight_def is_user_def ignore_args_def)
  have 10: "\<exists>w1. promise_then (handler_onFulfilled (Suc 0)) (handler_onRejected (Suc 0)) 0
            Absent (User ''g'' (return_promise 1)) c5_observed = Some (3, w1) \<and>
          heap w1 ! 3 = fresh \<and>
          (\<exists>w2. promise_resolve (handler_onFulfilled 8) 1 [VNum 8] w1 = Some w2 \<and>
                 heap w2 ! 3 = fulfilled_with [VNum 8]) \<and>
          (\<exists>w2. promise_reject (handler_onRejected 8) 1 [VStr ''late''] w1 = Some w2 \<and>
                 heap w2 ! 3 = rejected_with [VStr ''late''])"
  proof -
    have hyp: "wf c5_observed \<and> return_promise 1 [VStr ''bad''] = Return (VPromise 1) \<and>
               1 < length (heap c5_observed) \<and> state (heap c5_observed ! 1) = 0 \<and>
               potential c5_observed + 2 \<le> 8"
      using wo o by simp
    have "wf c5_observed \<and> return_promise 1 [VStr ''bad''] = Return (VPromise 1) \<and>
               1 < length (heap c5_observed) \<and> state (heap c5_observed ! 1) = 0 \<and>
               potential c5_observed + 2 \<le> 8 \<longrightarrow>
          (\<exists>w1. promise_then (handler_onFulfilled (Suc 0)) (handler_onRejected (Suc 0)) 0
            Absent (User ''g'' (return_promise 1)) c5_observed = Some (length (heap c5_observed), w1) \<and>
          heap w1 ! length (heap c5_observed) = fresh \<and>
          (\<exists>w2. promise_resolve (handler_onFulfilled 8) 1 [VNum 8] w1 = Some w2 \<and>
                 heap w2 ! length (heap c5_observed) = fulfilled_with [VNum 8]) \<and>
          (\<exists>w2. promise_reject (handler_onRejected 8) 1 [VStr ''late''] w1 = Some w2 \<and>
                 heap w2 ! length (heap c5_observed) = rejected_with [VStr ''late'']))"
      by (rule then_on_rejected[OF d2, where g="return_promise 1" and r=1 and n=0 and k=8
        and name="''g''" and f=Absent and ws="[VNum 8]" and qs="[VStr ''late'']",
        THEN conjunct2, THEN conjunct2, THEN conjunct2, THEN conjunct2, THEN conjunct2,
        THEN conjunct2, THEN conjunct2, THEN conjunct2, THEN conjunct2, THEN conjunct2])
    with hyp have "\<exists>w1. promise_then (handler_onFulfilled (Suc 0)) (handler_onRejected (Suc 0)) 0
            Absent (User ''g'' (return_promise 1)) c5_observed = Some (length (heap c5_observed), w1) \<and>
          heap w1 ! length (heap c5_observed) = fresh \<and>
          (\<exists>w2. promise_resolve (handler_onFulfilled 8) 1 [VNum 8] w1 = Some w2 \<and>
                 heap w2 ! length (heap c5_observed) = fulfilled_with [VNum 8]) \<and>
          (\<exists>w2. promise_reject (handler_onRejected 8) 1 [VStr ''late''] w1 = Some w2 \<and>
                 heap w2 ! length (heap c5_observed) = rejected_with [VStr ''late''])"
      by (rule rev_mp)
    moreover have "length (heap c5_observed) = 3" by (simp add: c5_observed_def example_defs)
    ultimately show ?thesis by simp
  qed
  from d facts(3-7) f(1,2,5) 0 1 2 3 5 6 g(1) 7 g(2) 8 d2 o 9 wo 10 show ?thesis by (intro conjI)
qed

section \<open>Dispatch\<close>

lemma leaf_step:
  assumes "derived h < length (heap w)" and "heap w ! derived h = fresh"
    and "returns_plain (cbFulfilled h) args"
  shows "handler_onFulfilled (Suc n) h args w =
           Some (w\<lparr>heap := (heap w)[derived h := fulfilled_with args],
                   trace := trace w @ [CallbackRun (cb_name (cbFulfilled h)) args]\<rparr>)"
proof -
  from assms(3) obtain name f v where c: "cbFulfilled h = User name f"
    and f: "f args = Return v" and v: "\<forall>r. v \<noteq> VPromise r"
    by (auto simp: returns_plain_def split: cb.splits outcome.splits val.splits)
  have "onFulfilled_body (handler_onFulfilled n) (handler_onRejected n) h args w =
          promise_resolve (handler_onFulfilled n) (derived h) args
            (w\<lparr>trace := trace w @ [CallbackRun name args]\<rparr>)"
    by (rule onFulfilled_plain[OF c f v])
  also have "\<dots> = Some (w\<lparr>heap := (heap w)[derived h := fulfilled_with args],
                   trace := trace w @ [CallbackRun name args]\<rparr>)"
    using assms(1,2) by (simp add: promise_resolve_def fresh_def fulfilled_with_def)
  finally show ?thesis using c by (simp add: cb_name_def)
qed

lemma dispatch_leaves:
  assumes "leaf_handlers w args hs"
  shows "\<exists>w'. forEach (\<lambda>it. handler_onFulfilled (Suc n) it args) hs w = Some w' \<and>
              trace w' = trace w @ map (\<lambda>h. CallbackRun (cb_name (cbFulfilled h)) args) hs \<and>
              length (heap w') = length (heap w) \<and>
              (\<forall>h \<in> set hs. heap w' ! derived h = fulfilled_with args) \<and>
              (\<forall>b. b \<notin> derived ` set hs \<longrightarrow> heap w' ! b = heap w ! b)"
  using assms
proof (induction hs arbitrary: w)
  case Nil
  then show ?case by simp
next
  case (Cons h hs)
  let ?w1 = "w\<lparr>heap := (heap w)[derived h := fulfilled_with args],
               trace := trace w @ [CallbackRun (cb_name (cbFulfilled h)) args]\<rparr>"
  from Cons.prems have h: "derived h < length (heap w)" "heap w ! derived h = fresh"
    "returns_plain (cbFulfilled h) args"
    and fresh: "derived h \<notin> derived ` set hs"
    and rest: "\<forall>k \<in> set hs. derived k < length (heap w) \<and> heap w ! derived k = fresh \<and>
                 returns_plain (cbFulfilled k) args"
    and dist: "distinct (map derived hs)"
    by (auto simp: leaf_handlers_def)
  have step: "handler_onFulfilled (Suc n) h args w = Some ?w1"
    by (rule leaf_step[OF h])
  have "leaf_handlers ?w1 args hs"
    unfolding leaf_handlers_def
  proof (intro conjI ballI)
    fix k assume k: "k \<in> set hs"
    with fresh have ne: "derived k \<noteq> derived h" by (metis imageI)
    from rest k show "derived k < length (heap ?w1)" by simp
    from rest k ne show "heap ?w1 ! derived k = fresh" by simp
    from rest k show "returns_plain (cbFulfilled k) args" by simp
  next
    show "distinct (map derived hs)" by (rule dist)
  qed
  from Cons.IH[OF this] obtain w' where
    run: "forEach (\<lambda>it. handler_onFulfilled (Suc n) it args) hs ?w1 = Some w'"
    and tr: "trace w' = trace ?w1 @ map (\<lambda>h. CallbackRun (cb_name (cbFulfilled h)) args) hs"
    and len: "length (heap w') = length (heap ?w1)"
    and fin: "\<forall>k \<in> set hs. heap w' ! derived k = fulfilled_with args"
    and other: "\<forall>b. b \<notin> derived ` set hs \<longrightarrow> heap w' ! b = heap ?w1 ! b"
    by blast
  show ?case
  proof (intro exI conjI)
    show "forEach (\<lambda>it. handler_onFulfilled (Suc n) it args) (h # hs) w = Some w'"
      using step run by simp
    show "trace w' = trace w @ map (\<lambda>h. CallbackRun (cb_name (cbFulfilled h)) args) (h # hs)"
      using tr by simp
    show "length (heap w') = length (heap w)" using len by simp
    show "\<forall>k \<in> set (h # hs). heap w' ! derived k = fulfilled_with args"
    proof
      fix k assume "k \<in> set (h # hs)"
      then consider "k = h" | "k \<in> set hs" by auto
      then show "heap w' ! derived k = fulfilled_with args"
      proof cases
        case 1
        with other fresh h(1) show ?thesis by simp
      next
        case 2
        with fin show ?thesis by simp
      qed
    qed
    show "\<forall>b. b \<notin> derived ` set (h # hs) \<longrightarrow> heap w' ! b = heap w ! b"
      using other by simp
  qed
qed

text \<open>
  C4, as the code has it. For a pending instance \<open>a\<close>, \<open>_resolve\<close> with \<open>args\<close> is: store
  state 1 and the arguments, then run the fulfilment method of every stored handler
  with \<open>args\<close>, in list order, each on the store the previous one left. The handler list
  is not cleared: when the call returns, the instance still has the handlers it had,
  and a later \<open>then\<close> on it stores nothing more. For handlers whose continuations return
  plain values and whose derived promises have nothing chained to them, any budget of
  at least one suffices, each continuation runs exactly once with \<open>args\<close>, in
  registration order, and every derived promise is fulfilled with \<open>args\<close>. On every
  well-formed store the call returns once the budget reaches the bound \<open>potential\<close>.
\<close>

theorem resolve_pending_steps:
  assumes "a < length (heap w)" and "state (heap w ! a) = 0"
  shows "promise_resolve (handler_onFulfilled n) a args w =
           forEach (\<lambda>it. handler_onFulfilled n it args) (handlers (heap w ! a))
             (w\<lparr>heap := (heap w)[a := (heap w ! a)\<lparr>state := 1, pvalue := Some args\<rparr>]\<rparr>) \<and>
         (promise_resolve (handler_onFulfilled n) a args w = Some w1 \<longrightarrow>
            heap w1 ! a = (heap w ! a)\<lparr>state := 1, pvalue := Some args\<rparr> \<and>
            handlers (heap w1 ! a) = handlers (heap w ! a) \<and>
            (\<forall>m f g d w2.
               promise_then (handler_onFulfilled m) (handler_onRejected m) a f g w1 = Some (d, w2)
               \<longrightarrow> handlers (heap w2 ! a) = handlers (heap w ! a))) \<and>
         (leaf_handlers w args (handlers (heap w ! a)) \<longrightarrow>
            (\<exists>w1. promise_resolve (handler_onFulfilled (Suc n)) a args w = Some w1 \<and>
                   trace w1 = trace w @
                     map (\<lambda>h. CallbackRun (cb_name (cbFulfilled h)) args) (handlers (heap w ! a)) \<and>
                   (\<forall>h \<in> set (handlers (heap w ! a)).
                      heap w1 ! derived h = fulfilled_with args))) \<and>
         (wf w \<and> potential w \<le> Suc n \<longrightarrow>
            (\<exists>w1. promise_resolve (handler_onFulfilled n) a args w = Some w1))"
proof (intro conjI impI)
  show "promise_resolve (handler_onFulfilled n) a args w =
           forEach (\<lambda>it. handler_onFulfilled n it args) (handlers (heap w ! a))
             (w\<lparr>heap := (heap w)[a := (heap w ! a)\<lparr>state := 1, pvalue := Some args\<rparr>]\<rparr>)"
    by (rule resolve_pending[OF assms])
next
  assume run: "promise_resolve (handler_onFulfilled n) a args w = Some w1"
  have k: "keeps (handler_onFulfilled n)" using handlers_keep by blast
  show 1: "heap w1 ! a = (heap w ! a)\<lparr>state := 1, pvalue := Some args\<rparr>"
    using k assms run by (rule promise_resolve_first)
  then show 2: "handlers (heap w1 ! a) = handlers (heap w ! a)" by simp
  have "length (heap w) \<le> length (heap w1)"
    using promise_resolve_stable[OF k run] by (simp add: stable_def)
  with assms(1) have a1: "a < length (heap w1)" by simp
  from 1 have s1: "settled (heap w1 ! a)" by (simp add: settled_def)
  show "\<forall>m f g d w2.
          promise_then (handler_onFulfilled m) (handler_onRejected m) a f g w1 = Some (d, w2)
          \<longrightarrow> handlers (heap w2 ! a) = handlers (heap w ! a)"
  proof (intro allI impI)
    fix m f g d w2
    assume "promise_then (handler_onFulfilled m) (handler_onRejected m) a f g w1 = Some (d, w2)"
    then have "stable w1 w2"
      using handlers_keep[of m] by (intro promise_then_stable) blast+
    from stable_nth[OF this a1 s1] 2 show "handlers (heap w2 ! a) = handlers (heap w ! a)"
      by simp
  qed
next
  assume leaf: "leaf_handlers w args (handlers (heap w ! a))"
  let ?hs = "handlers (heap w ! a)"
  let ?w0 = "w\<lparr>heap := (heap w)[a := (heap w ! a)\<lparr>state := 1, pvalue := Some args\<rparr>]\<rparr>"
  have ne: "derived h \<noteq> a" if "h \<in> set ?hs" for h
  proof
    assume "derived h = a"
    with leaf that have "heap w ! a = fresh" by (auto simp: leaf_handlers_def)
    with that show False by (simp add: fresh_def)
  qed
  have "leaf_handlers ?w0 args ?hs"
    unfolding leaf_handlers_def
  proof (intro conjI ballI)
    fix h assume h: "h \<in> set ?hs"
    from leaf h have *: "derived h < length (heap w)" "heap w ! derived h = fresh"
      "returns_plain (cbFulfilled h) args"
      by (auto simp: leaf_handlers_def)
    from * show "derived h < length (heap ?w0)" by simp
    from * ne[OF h] show "heap ?w0 ! derived h = fresh" by simp
    from * show "returns_plain (cbFulfilled h) args" by simp
  next
    from leaf show "distinct (map derived ?hs)" by (simp add: leaf_handlers_def)
  qed
  from dispatch_leaves[OF this, of n] obtain w' where
    run: "forEach (\<lambda>it. handler_onFulfilled (Suc n) it args) ?hs ?w0 = Some w'"
    and tr: "trace w' = trace ?w0 @ map (\<lambda>h. CallbackRun (cb_name (cbFulfilled h)) args) ?hs"
    and fin: "\<forall>h \<in> set ?hs. heap w' ! derived h = fulfilled_with args"
    by blast
  show "\<exists>w1. promise_resolve (handler_onFulfilled (Suc n)) a args w = Some w1 \<and>
                   trace w1 = trace w @
                     map (\<lambda>h. CallbackRun (cb_name (cbFulfilled h)) args) ?hs \<and>
                   (\<forall>h \<in> set ?hs. heap w1 ! derived h = fulfilled_with args)"
  proof (intro exI conjI)
    show "promise_resolve (handler_onFulfilled (Suc n)) a args w = Some w'"
      using run by (simp add: resolve_pending[OF assms])
    show "trace w' = trace w @ map (\<lambda>h. CallbackRun (cb_name (cbFulfilled h)) args) ?hs"
      using tr by simp
    show "\<forall>h \<in> set ?hs. heap w' ! derived h = fulfilled_with args" by (rule fin)
  qed
next
  assume "wf w \<and> potential w \<le> Suc n"
  then show "\<exists>w1. promise_resolve (handler_onFulfilled n) a args w = Some w1"
    using resolve_returns[OF _ assms(1), of n args] by blast
qed

theorem resolve_pending_steps_witness:
  "0 < length (heap c4_leaves) \<and> state (heap c4_leaves ! 0) = 0 \<and>
   promise_resolve (handler_onFulfilled (Suc 0)) 0 [VNum 1] c4_leaves = Some c4_leaves_resolved \<and>
   heap c4_leaves_resolved ! 0 = (heap c4_leaves ! 0)\<lparr>state := 1, pvalue := Some [VNum 1]\<rparr> \<and>
   handlers (heap c4_leaves_resolved ! 0) = handlers (heap c4_leaves ! 0) \<and>
   promise_then (handler_onFulfilled (Suc 0)) (handler_onRejected (Suc 0)) 0 Absent Absent
     c4_leaves_resolved =
   Some (3, c4_leaves_resolved\<lparr>heap := heap c4_leaves_resolved @ [fulfilled_with [VNum 1]]\<rparr>) \<and>
   handlers (heap (c4_leaves_resolved\<lparr>heap := heap c4_leaves_resolved @ [fulfilled_with [VNum 1]]\<rparr>) ! 0)
     = handlers (heap c4_leaves ! 0) \<and>
   leaf_handlers c4_leaves [VNum 1] (handlers (heap c4_leaves ! 0)) \<and>
   (\<exists>w1. promise_resolve (handler_onFulfilled (Suc 0)) 0 [VNum 1] c4_leaves = Some w1 \<and>
          trace w1 = [CallbackRun ''first'' [VNum 1], CallbackRun ''second'' [VNum 1]] \<and>
          heap w1 ! 1 = fulfilled_with [VNum 1] \<and> heap w1 ! 2 = fulfilled_with [VNum 1]) \<and>
   wf c4_leaves \<and> potential c4_leaves \<le> Suc 10 \<and>
   (\<exists>w1. promise_resolve (handler_onFulfilled 10) 0 [VNum 1] c4_leaves = Some w1)"
proof -
  have a: "0 < length (heap c4_leaves)" "state (heap c4_leaves ! 0) = 0"
    by (simp_all add: c4_leaves_def example_defs)
  have run: "promise_resolve (handler_onFulfilled (Suc 0)) 0 [VNum 1] c4_leaves =
               Some c4_leaves_resolved"
    by (simp add: c4_leaves_def c4_leaves_resolved_def example_defs engine_defs ignore_args_def)
  have th: "promise_then (handler_onFulfilled (Suc 0)) (handler_onRejected (Suc 0)) 0 Absent Absent
     c4_leaves_resolved =
   Some (3, c4_leaves_resolved\<lparr>heap := heap c4_leaves_resolved @ [fulfilled_with [VNum 1]]\<rparr>)"
    by (simp add: c4_leaves_resolved_def example_defs engine_defs)
  have leaf: "leaf_handlers c4_leaves [VNum 1] (handlers (heap c4_leaves ! 0))"
    by (simp add: leaf_handlers_def c4_leaves_def example_defs returns_plain_def ignore_args_def)
  note t1 = resolve_pending_steps[OF a, where n="Suc 0" and args="[VNum 1]"
      and ?w1.0=c4_leaves_resolved]
  from t1 run have 1:
    "heap c4_leaves_resolved ! 0 = (heap c4_leaves ! 0)\<lparr>state := 1, pvalue := Some [VNum 1]\<rparr>"
    "handlers (heap c4_leaves_resolved ! 0) = handlers (heap c4_leaves ! 0)"
    and 2: "\<forall>m f g d w2.
               promise_then (handler_onFulfilled m) (handler_onRejected m) 0 f g c4_leaves_resolved
                 = Some (d, w2)
               \<longrightarrow> handlers (heap w2 ! 0) = handlers (heap c4_leaves ! 0)"
    by blast+
  from 2 th have 3:
    "handlers (heap (c4_leaves_resolved\<lparr>heap := heap c4_leaves_resolved @ [fulfilled_with [VNum 1]]\<rparr>) ! 0)
     = handlers (heap c4_leaves ! 0)"
    by blast
  note t2 = resolve_pending_steps[OF a, where n=0 and args="[VNum 1]"]
  from t2 leaf have "\<exists>w1. promise_resolve (handler_onFulfilled (Suc 0)) 0 [VNum 1] c4_leaves = Some w1 \<and>
                   trace w1 = trace c4_leaves @
                     map (\<lambda>h. CallbackRun (cb_name (cbFulfilled h)) [VNum 1])
                       (handlers (heap c4_leaves ! 0)) \<and>
                   (\<forall>h \<in> set (handlers (heap c4_leaves ! 0)).
                      heap w1 ! derived h = fulfilled_with [VNum 1])"
    by blast
  then have 4: "\<exists>w1. promise_resolve (handler_onFulfilled (Suc 0)) 0 [VNum 1] c4_leaves = Some w1 \<and>
          trace w1 = [CallbackRun ''first'' [VNum 1], CallbackRun ''second'' [VNum 1]] \<and>
          heap w1 ! 1 = fulfilled_with [VNum 1] \<and> heap w1 ! 2 = fulfilled_with [VNum 1]"
    by (simp add: c4_leaves_def example_defs cb_name_def)
  have 5: "wf c4_leaves" "potential c4_leaves \<le> Suc 10"
    by (simp_all add: c4_leaves_def example_defs wf_def promise_ok_def handler_ok_def cb_ok_def
          potential_def pot_def weight_def is_user_def ignore_args_def)
  note t3 = resolve_pending_steps[OF a, where n=10 and args="[VNum 1]"]
  from t3 5 have 6: "\<exists>w1. promise_resolve (handler_onFulfilled 10) 0 [VNum 1] c4_leaves = Some w1"
    by blast
  from a run 1 th 3 leaf 4 5 6 show ?thesis by (intro conjI)
qed

text \<open>
  The claim as it was stated fails in its last step: after \<open>_resolve\<close> the handler list
  is what it was, not empty.
\<close>

theorem resolve_clears_handlers_counterexample:
  "promise_resolve (handler_onFulfilled (Suc 0)) 0 [VNum 1] c4_world = Some c4_resolved \<and>
   handlers (heap c4_resolved ! 0) = [\<lparr>cbFulfilled = Absent, cbRejected = Absent, derived = 1\<rparr>]"
  by (simp add: c4_world_def c4_resolved_def example_defs engine_defs)

section \<open>The constructor and the combinators on an empty list\<close>

text \<open>
  C3. \<open>all([])\<close>: the loop body never runs, and \<open>resolve\<close> is only called from the item
  callbacks, so the result is a promise that is pending, with no value, and no handler
  or callback in the store refers to it. The equation holds for every store and every
  budget.
\<close>

theorem all_empty_stays_pending:
  "promise_all onF onR [] w =
     Some (length (heap w),
           w\<lparr>heap := heap w @ [fresh],
             closures := closures w @
               [\<lparr>result = [], completed = 0, plength = 0, owner = length (heap w)\<rparr>]\<rparr>)"
  unfolding promise_all_def
  by (rule construct_plain) (simp add: all_executor_def)

lemma race_empty_stays_pending:
  "promise_race onF onR [] w = Some (length (heap w), w\<lparr>heap := heap w @ [fresh]\<rparr>)"
  unfolding promise_race_def
  by (rule construct_plain) simp

text \<open>
  C8. An executor that raises \<open>err\<close> and leaves the new instance as the constructor made
  it: \<open>new Promise\<close> returns normally, and the instance is rejected with the single
  reason \<open>err\<close>. This holds for every executor function; for a user executor that makes
  no call and raises, the trace shows that it ran once.
\<close>

theorem executor_error_rejects:
  "(cb (length (heap w)) (w\<lparr>heap := heap w @ [fresh]\<rparr>) = Some (Some err, w1) \<and>
    length (heap w) < length (heap w1) \<and> heap w1 ! length (heap w) = fresh \<longrightarrow>
      construct onR cb w =
        Some (length (heap w), w1\<lparr>heap := (heap w1)[length (heap w) := rejected_with [err]]\<rparr>)) \<and>
   new_promise onF onR (Script name [] (Some err)) w =
     Some (length (heap w),
           w\<lparr>heap := heap w @ [rejected_with [err]], trace := trace w @ [ExecutorRun name]\<rparr>)"
proof (intro conjI impI)
  assume a: "cb (length (heap w)) (w\<lparr>heap := heap w @ [fresh]\<rparr>) = Some (Some err, w1) \<and>
    length (heap w) < length (heap w1) \<and> heap w1 ! length (heap w) = fresh"
  then have "promise_reject onR (length (heap w)) [err] w1 =
               Some (w1\<lparr>heap := (heap w1)[length (heap w) := rejected_with [err]]\<rparr>)"
    by (simp add: promise_reject_def fresh_def rejected_with_def)
  with a show "construct onR cb w =
        Some (length (heap w), w1\<lparr>heap := (heap w1)[length (heap w) := rejected_with [err]]\<rparr>)"
    by (intro construct_raised) simp_all
next
  show "new_promise onF onR (Script name [] (Some err)) w =
     Some (length (heap w),
           w\<lparr>heap := heap w @ [rejected_with [err]], trace := trace w @ [ExecutorRun name]\<rparr>)"
    by (rule new_promise_raised)
qed

theorem executor_error_rejects_witness:
  "all_executor (handler_onFulfilled 0) (handler_onRejected 0) [VNum 5] (length (heap empty_world))
     (empty_world\<lparr>heap := heap empty_world @ [fresh]\<rparr>) =
   Some (Some (VError ''TypeError''),
         empty_world\<lparr>heap := [fresh],
           closures := [\<lparr>result = [], completed = 0, plength = 1, owner = 0\<rparr>]\<rparr>) \<and>
   promise_all (handler_onFulfilled 0) (handler_onRejected 0) [VNum 5] empty_world =
   Some (0, empty_world\<lparr>heap := [rejected_with [VError ''TypeError'']],
           closures := [\<lparr>result = [], completed = 0, plength = 1, owner = 0\<rparr>]\<rparr>)"
proof -
  let ?w1 = "empty_world\<lparr>heap := [fresh],
           closures := [\<lparr>result = [], completed = 0, plength = 1, owner = 0\<rparr>]\<rparr>"
  have 1: "all_executor (handler_onFulfilled 0) (handler_onRejected 0) [VNum 5]
             (length (heap empty_world)) (empty_world\<lparr>heap := heap empty_world @ [fresh]\<rparr>) =
           Some (Some (VError ''TypeError''), ?w1)"
    by (simp add: all_executor_def empty_world_def)
  have 2: "length (heap empty_world) < length (heap ?w1)"
    "heap ?w1 ! length (heap empty_world) = fresh"
    by (simp_all add: empty_world_def)
  from executor_error_rejects[where cb="all_executor (handler_onFulfilled 0) (handler_onRejected 0) [VNum 5]"
      and w=empty_world and err="VError ''TypeError''" and ?w1.0="?w1"
      and onR="handler_onRejected 0"] 1 2
  have "construct (handler_onRejected 0)
          (all_executor (handler_onFulfilled 0) (handler_onRejected 0) [VNum 5]) empty_world =
        Some (length (heap empty_world),
              ?w1\<lparr>heap := (heap ?w1)[length (heap empty_world) := rejected_with [VError ''TypeError'']]\<rparr>)"
    by blast
  then have "promise_all (handler_onFulfilled 0) (handler_onRejected 0) [VNum 5] empty_world =
   Some (0, empty_world\<lparr>heap := [rejected_with [VError ''TypeError'']],
           closures := [\<lparr>result = [], completed = 0, plength = 1, owner = 0\<rparr>]\<rparr>)"
    by (simp add: promise_all_def empty_world_def)
  with 1 show ?thesis by simp
qed

section \<open>fetch\<close>

lemma request_without_url:
  assumes "ob < length (objects w)" and "url (objects w ! ob) = Some []"
    and "this < length (heap w)" and "heap w ! this = fresh"
  shows "request onF onR ob (BoundResolve this) (BoundReject this) w =
           Some (w\<lparr>heap := (heap w)[this :=
                   rejected_with [VStr ''No url parameter specified in #request'']]\<rparr>)"
  using assms
  by (simp add: request_def call_def promise_reject_def fresh_def rejected_with_def)

lemma request_with_url:
  assumes "ob < length (objects w)" and "url (objects w ! ob) = Some u" and "u \<noteq> []"
  shows "request onF onR ob resolve reject w =
           Some (w\<lparr>objects := (objects w)[ob :=
                    \<lparr>url = Some u,
                     httpMethod = Some (case httpMethod (objects w ! ob) of
                                          None \<Rightarrow> ''GET''
                                        | Some m \<Rightarrow> trim (toUpperCase m)),
                     timeout = Some (case timeout (objects w ! ob) of None \<Rightarrow> 0 | Some t \<Rightarrow> t),
                     readTimeout = Some (case readTimeout (objects w ! ob) of
                                           Some t \<Rightarrow> t
                                         | None \<Rightarrow> (case timeout (objects w ! ob) of
                                                       None \<Rightarrow> 0 | Some t \<Rightarrow> t)),
                     followRedirect = Some (case followRedirect (objects w ! ob) of
                                              None \<Rightarrow> True | Some b \<Rightarrow> b),
                     headers = Some (case headers (objects w ! ob) of None \<Rightarrow> [] | Some h \<Rightarrow> h),
                     json = Some (case json (objects w ! ob) of None \<Rightarrow> False | Some b \<Rightarrow> b),
                     fullResponse = Some (case fullResponse (objects w ! ob) of
                                            None \<Rightarrow> False | Some b \<Rightarrow> b)\<rparr>],
                   threads := threads w @ [(ob, resolve, reject)]\<rparr>)"
  using assms
  by (cases "objects w ! ob") (simp add: request_def Let_def split: option.splits)

text \<open>
  C10, as the code has it, for a caller's option object at index \<open>ob\<close>. \<open>fetch\<close> always
  stores the address in \<open>url\<close>. If the address is not empty, \<open>request\<close> then overwrites
  \<open>method\<close> with the upper-cased, trimmed method (an ASCII string) or \<open>GET\<close>, fills \<open>timeout\<close>,
  \<open>readTimeout\<close> (from \<open>timeout\<close>), \<open>followRedirect\<close>, \<open>headers\<close>, \<open>json\<close> and
  \<open>fullResponse\<close> where they are absent, and starts the thread; the promise is returned
  pending. If the address is empty, \<open>request\<close> rejects the promise and returns before
  any of that: the object keeps all its other properties as they were.
\<close>

theorem fetch_mutates_opts:
  assumes "ob < length (objects w)"
  shows "(u \<noteq> [] \<and> (\<forall>m. httpMethod (objects w ! ob) = Some m \<longrightarrow> ascii m) \<longrightarrow>
            fetch onF onR u (Some ob) w =
              Some (ob, length (heap w),
                    w\<lparr>heap := heap w @ [fresh],
                      objects := (objects w)[ob :=
                        \<lparr>url = Some u,
                         httpMethod = Some (case httpMethod (objects w ! ob) of
                                              None \<Rightarrow> ''GET''
                                            | Some m \<Rightarrow> trim (toUpperCase m)),
                         timeout = Some (case timeout (objects w ! ob) of
                                           None \<Rightarrow> 0 | Some t \<Rightarrow> t),
                         readTimeout = Some (case readTimeout (objects w ! ob) of
                                               Some t \<Rightarrow> t
                                             | None \<Rightarrow> (case timeout (objects w ! ob) of
                                                           None \<Rightarrow> 0 | Some t \<Rightarrow> t)),
                         followRedirect = Some (case followRedirect (objects w ! ob) of
                                                  None \<Rightarrow> True | Some b \<Rightarrow> b),
                         headers = Some (case headers (objects w ! ob) of
                                           None \<Rightarrow> [] | Some h \<Rightarrow> h),
                         json = Some (case json (objects w ! ob) of
                                        None \<Rightarrow> False | Some b \<Rightarrow> b),
                         fullResponse = Some (case fullResponse (objects w ! ob) of
                                                None \<Rightarrow> False | Some b \<Rightarrow> b)\<rparr>],
                      threads := threads w @
                        [(ob, BoundResolve (length (heap w)), BoundReject (length (heap w)))]\<rparr>)) \<and>
         (u = [] \<longrightarrow>
            fetch onF onR u (Some ob) w =
              Some (ob, length (heap w),
                    w\<lparr>heap := heap w @
                        [rejected_with [VStr ''No url parameter specified in #request'']],
                      objects := (objects w)[ob := (objects w ! ob)\<lparr>url := Some []\<rparr>]\<rparr>))"
proof (intro conjI impI)
  let ?wb = "w\<lparr>objects := (objects w)[ob := (objects w ! ob)\<lparr>url := Some u\<rparr>]\<rparr>"
  let ?w0 = "?wb\<lparr>heap := heap ?wb @ [fresh]\<rparr>"
  have ob: "ob < length (objects ?w0)" "url (objects ?w0 ! ob) = Some u"
    using assms by simp_all
  {
    assume "u \<noteq> [] \<and> (\<forall>m. httpMethod (objects w ! ob) = Some m \<longrightarrow> ascii m)"
    then have u: "u \<noteq> []" by simp
    let ?res = "w\<lparr>heap := heap w @ [fresh],
                      objects := (objects w)[ob :=
                        \<lparr>url = Some u,
                         httpMethod = Some (case httpMethod (objects w ! ob) of
                                              None \<Rightarrow> ''GET''
                                            | Some m \<Rightarrow> trim (toUpperCase m)),
                         timeout = Some (case timeout (objects w ! ob) of
                                           None \<Rightarrow> 0 | Some t \<Rightarrow> t),
                         readTimeout = Some (case readTimeout (objects w ! ob) of
                                               Some t \<Rightarrow> t
                                             | None \<Rightarrow> (case timeout (objects w ! ob) of
                                                           None \<Rightarrow> 0 | Some t \<Rightarrow> t)),
                         followRedirect = Some (case followRedirect (objects w ! ob) of
                                                  None \<Rightarrow> True | Some b \<Rightarrow> b),
                         headers = Some (case headers (objects w ! ob) of
                                           None \<Rightarrow> [] | Some h \<Rightarrow> h),
                         json = Some (case json (objects w ! ob) of
                                        None \<Rightarrow> False | Some b \<Rightarrow> b),
                         fullResponse = Some (case fullResponse (objects w ! ob) of
                                                None \<Rightarrow> False | Some b \<Rightarrow> b)\<rparr>],
                      threads := threads w @
                        [(ob, BoundResolve (length (heap w)), BoundReject (length (heap w)))]\<rparr>"
    have "request onF onR ob (BoundResolve (length (heap w))) (BoundReject (length (heap w))) ?w0
            = Some (?w0\<lparr>objects := (objects ?w0)[ob :=
                    \<lparr>url = Some u,
                     httpMethod = Some (case httpMethod (objects ?w0 ! ob) of
                                          None \<Rightarrow> ''GET''
                                        | Some m \<Rightarrow> trim (toUpperCase m)),
                     timeout = Some (case timeout (objects ?w0 ! ob) of None \<Rightarrow> 0 | Some t \<Rightarrow> t),
                     readTimeout = Some (case readTimeout (objects ?w0 ! ob) of
                                           Some t \<Rightarrow> t
                                         | None \<Rightarrow> (case timeout (objects ?w0 ! ob) of
                                                       None \<Rightarrow> 0 | Some t \<Rightarrow> t)),
                     followRedirect = Some (case followRedirect (objects ?w0 ! ob) of
                                              None \<Rightarrow> True | Some b \<Rightarrow> b),
                     headers = Some (case headers (objects ?w0 ! ob) of None \<Rightarrow> [] | Some h \<Rightarrow> h),
                     json = Some (case json (objects ?w0 ! ob) of None \<Rightarrow> False | Some b \<Rightarrow> b),
                     fullResponse = Some (case fullResponse (objects ?w0 ! ob) of
                                            None \<Rightarrow> False | Some b \<Rightarrow> b)\<rparr>],
                   threads := threads ?w0 @
                     [(ob, BoundResolve (length (heap w)), BoundReject (length (heap w)))]\<rparr>)"
      by (rule request_with_url[OF ob u])
    also have "\<dots> = Some ?res"
      using assms by (simp cong: option.case_cong)
    finally have "request onF onR ob (BoundResolve (length (heap w)))
        (BoundReject (length (heap w))) ?w0 = Some ?res" .
    then have "fetch_executor onF onR ob (length (heap ?wb)) ?w0 = Some (None, ?res)"
      by (simp add: fetch_executor_def)
    then have "construct onR (fetch_executor onF onR ob) ?wb = Some (length (heap ?wb), ?res)"
      by (rule construct_plain)
    then show "fetch onF onR u (Some ob) w = Some (ob, length (heap w), ?res)"
      using assms by (simp add: fetch_def)
  }
  {
    assume u: "u = []"
    let ?res = "w\<lparr>heap := heap w @
                        [rejected_with [VStr ''No url parameter specified in #request'']],
                      objects := (objects w)[ob := (objects w ! ob)\<lparr>url := Some []\<rparr>]\<rparr>"
    have "request onF onR ob (BoundResolve (length (heap w))) (BoundReject (length (heap w))) ?w0
            = Some (?w0\<lparr>heap := (heap ?w0)[length (heap w) :=
                   rejected_with [VStr ''No url parameter specified in #request'']]\<rparr>)"
      using ob u by (intro request_without_url) simp_all
    then have "fetch_executor onF onR ob (length (heap ?wb)) ?w0 = Some (None, ?res)"
      using u by (simp add: fetch_executor_def)
    then have "construct onR (fetch_executor onF onR ob) ?wb = Some (length (heap ?wb), ?res)"
      by (rule construct_plain)
    then show "fetch onF onR u (Some ob) w = Some (ob, length (heap w), ?res)"
      using assms u by (simp add: fetch_def)
  }
qed

lemma trim_upper_post: "trim (toUpperCase '' post '') = ''POST''"
  by code_simp

theorem fetch_mutates_opts_witness:
  "0 < length (objects c10_world) \<and>
   httpMethod (objects c10_world ! 0) = Some '' post '' \<and> ascii '' post '' \<and>
   fetch (handler_onFulfilled 0) (handler_onRejected 0) ''http://example.org/a'' (Some 0) c10_world =
     Some (0, 0,
           c10_world\<lparr>heap := [fresh],
             objects := [\<lparr>url = Some ''http://example.org/a'', httpMethod = Some ''POST'',
                          timeout = Some 5, readTimeout = Some 5, followRedirect = Some True,
                          headers = Some [], json = Some False, fullResponse = Some False\<rparr>],
             threads := [(0, BoundResolve 0, BoundReject 0)]\<rparr>) \<and>
   fetch (handler_onFulfilled 0) (handler_onRejected 0) [] (Some 0) c10_world =
     Some (0, 0,
           c10_world\<lparr>heap := [rejected_with [VStr ''No url parameter specified in #request'']],
             objects := [no_opts\<lparr>url := Some [], httpMethod := Some '' post '',
                                  timeout := Some 5\<rparr>]\<rparr>)"
proof -
  have 1: "0 < length (objects c10_world)"
    by (simp add: c10_world_def empty_world_def)
  note t = fetch_mutates_opts[OF 1, where onF="handler_onFulfilled 0"
      and onR="handler_onRejected 0"]
  have 2: "fetch (handler_onFulfilled 0) (handler_onRejected 0) ''http://example.org/a'' (Some 0) c10_world =
     Some (0, 0,
           c10_world\<lparr>heap := [fresh],
             objects := [\<lparr>url = Some ''http://example.org/a'', httpMethod = Some ''POST'',
                          timeout = Some 5, readTimeout = Some 5, followRedirect = Some True,
                          headers = Some [], json = Some False, fullResponse = Some False\<rparr>],
             threads := [(0, BoundResolve 0, BoundReject 0)]\<rparr>)"
    using t[where u="''http://example.org/a''"]
    by (simp add: c10_world_def empty_world_def no_opts_def trim_upper_post ascii_def)
  have 3: "fetch (handler_onFulfilled 0) (handler_onRejected 0) [] (Some 0) c10_world =
     Some (0, 0,
           c10_world\<lparr>heap := [rejected_with [VStr ''No url parameter specified in #request'']],
             objects := [no_opts\<lparr>url := Some [], httpMethod := Some '' post '',
                                  timeout := Some 5\<rparr>]\<rparr>)"
    using t[where u="[]"]
    by (simp add: c10_world_def empty_world_def no_opts_def)
  have 4: "httpMethod (objects c10_world ! 0) = Some '' post ''" "ascii '' post ''"
    by (simp_all add: c10_world_def empty_world_def no_opts_def ascii_def)
  from 1 4 2 3 show ?thesis by (intro conjI)
qed

text \<open>
  The claim as it was stated fails for the empty address: \<open>fetch("", {})\<close> stores the
  address and rejects, and the option object has no \<open>method\<close> and no defaults.
\<close>

theorem fetch_empty_url_counterexample:
  "fetch (handler_onFulfilled 0) (handler_onRejected 0) [] None empty_world =
     Some (0, 0,
           empty_world\<lparr>heap := [rejected_with [VStr ''No url parameter specified in #request'']],
             objects := [\<lparr>url = Some [], httpMethod = None, timeout = None, readTimeout = None,
                          followRedirect = None, headers = None, json = None,
                          fullResponse = None\<rparr>]\<rparr>)"
  by (simp add: fetch_def fetch_executor_def request_def call_def construct_def
      promise_reject_def empty_world_def rejected_with_def)

section \<open>The combinators on pending inputs\<close>

lemma subscribe_step:
  assumes a: "a < length (heap w)" "state (heap w ! a) = 0"
  shows "\<exists>w1. promise_then onF onR a f Absent w = Some (length (heap w), w1) \<and>
              promise_catch onF onR (length (heap w)) (BoundReject this) w1 =
                Some (Suc (length (heap w)),
                      w\<lparr>heap := (heap w)[a := (heap w ! a)\<lparr>handlers := handlers (heap w ! a) @
                                       [then_handler f (length (heap w))]\<rparr>]
                                 @ [fresh\<lparr>handlers := [catch_handler this (Suc (length (heap w)))]\<rparr>,
                                    fresh]\<rparr>)"
proof -
  let ?L = "length (heap w)"
  let ?w1 = "w\<lparr>heap := (heap w)[a := (heap w ! a)\<lparr>handlers := handlers (heap w ! a) @
                         [\<lparr>cbFulfilled = f, cbRejected = Absent, derived = ?L\<rparr>]\<rparr>] @ [fresh]\<rparr>"
  have 1: "promise_then onF onR a f Absent w = Some (?L, ?w1)"
    by (rule then_pending[OF a])
  have L: "?L < length (heap ?w1)" "state (heap ?w1 ! ?L) = 0"
    by (simp_all add: nth_append fresh_def)
  have "promise_then onF onR ?L Absent (BoundReject this) ?w1 =
          Some (length (heap ?w1),
                ?w1\<lparr>heap := (heap ?w1)[?L := (heap ?w1 ! ?L)\<lparr>handlers := handlers (heap ?w1 ! ?L) @
                     [\<lparr>cbFulfilled = Absent, cbRejected = BoundReject this,
                       derived = length (heap ?w1)\<rparr>]\<rparr>] @ [fresh]\<rparr>)"
    by (rule then_pending[OF L])
  then have 2: "promise_catch onF onR ?L (BoundReject this) ?w1 =
          Some (Suc ?L,
                w\<lparr>heap := (heap w)[a := (heap w ! a)\<lparr>handlers := handlers (heap w ! a) @
                                       [then_handler f ?L]\<rparr>]
                                 @ [fresh\<lparr>handlers := [catch_handler this (Suc ?L)]\<rparr>, fresh]\<rparr>)"
    by (simp add: promise_catch_def nth_append list_update_append then_handler_def
        catch_handler_def fresh_def)
  from 1 2 show ?thesis by blast
qed


lemma caught_reject:
  assumes "d2 < length (heap w)" "heap w ! d2 = fresh\<lparr>handlers := [catch_handler t d3]\<rparr>"
    and "d3 < length (heap w)" "heap w ! d3 = fresh"
    and "t < length (heap w)" "heap w ! t = fresh" "t \<noteq> d3"
  shows "promise_reject (handler_onRejected (Suc n)) d2 rs w =
         Some (w\<lparr>heap := (heap w)[d2 := (rejected_with rs)\<lparr>handlers := [catch_handler t d3]\<rparr>,
                                   t := rejected_with rs, d3 := rejected_with rs]\<rparr>)"
proof -
  from assms have ne: "d2 \<noteq> d3" "d2 \<noteq> t" by (auto simp: fresh_def)
  let ?w1 = "w\<lparr>heap := (heap w)[d2 := (rejected_with rs)\<lparr>handlers := [catch_handler t d3]\<rparr>]\<rparr>"
  let ?w2 = "w\<lparr>heap := (heap w)[d2 := (rejected_with rs)\<lparr>handlers := [catch_handler t d3]\<rparr>,
                                 t := rejected_with rs]\<rparr>"
  have 1: "promise_reject (handler_onRejected n) t rs ?w1 = Some ?w2"
    using assms ne by (simp add: promise_reject_def fresh_def rejected_with_def)
  have 2: "promise_reject (handler_onRejected n) d3 rs ?w2 =
             Some (w\<lparr>heap := (heap w)[d2 := (rejected_with rs)\<lparr>handlers := [catch_handler t d3]\<rparr>,
                                   t := rejected_with rs, d3 := rejected_with rs]\<rparr>)"
    using assms ne by (simp add: promise_reject_def fresh_def rejected_with_def)
  have "handler_onRejected (Suc n) (catch_handler t d3) rs ?w1 =
          Some (w\<lparr>heap := (heap w)[d2 := (rejected_with rs)\<lparr>handlers := [catch_handler t d3]\<rparr>,
                                   t := rejected_with rs, d3 := rejected_with rs]\<rparr>)"
    using 1 2 by (simp add: onRejected_bound_reject catch_handler_def)
  then show ?thesis
    using assms(1,2) by (simp add: promise_reject_def fresh_def rejected_with_def)
qed

text \<open>One round of the loop of a combinator keeps \<open>reg_inv\<close>.\<close>

lemma reg_round:
  assumes inv: "reg_inv as fcb L idx w" and idx: "idx < length as"
    and dist: "distinct as" and low: "\<forall>a \<in> set as. a < L"
  shows "reg_inv as fcb L (Suc idx)
           (w\<lparr>heap := (heap w)[as ! idx := (heap w ! (as ! idx))
                          \<lparr>handlers := handlers (heap w ! (as ! idx)) @
                             [then_handler (fcb idx) (length (heap w))]\<rparr>]
                       @ [fresh\<lparr>handlers := [catch_handler L (Suc (length (heap w)))]\<rparr>, fresh]\<rparr>)"
    (is "reg_inv as fcb L (Suc idx) ?w2")
proof -
  let ?a = "as ! idx"
  from inv have len: "length (heap w) = L + 1 + 2 * idx" and L: "heap w ! L = fresh"
    and sub: "\<And>j. j < idx \<Longrightarrow> subscribed as fcb L j w"
    and rest: "\<And>j. idx \<le> j \<Longrightarrow> j < length as \<Longrightarrow> heap w ! (as ! j) = fresh"
    by (auto simp: reg_inv_def)
  have lowj: "as ! j < L" if "j < length as" for j
    using low that by simp
  have neq: "as ! j \<noteq> ?a" if "j < length as" "j \<noteq> idx" for j
    using dist that idx by (simp add: nth_eq_iff_index_eq)
  have a: "?a < L" "heap w ! ?a = fresh" using lowj[OF idx] rest[OF le_refl idx] by simp_all
  have old: "heap ?w2 ! b = heap w ! b" if "b < length (heap w)" "b \<noteq> ?a" for b
    using that by (simp add: nth_append)
  show ?thesis
    unfolding reg_inv_def
  proof (intro conjI allI impI)
    show "length (heap ?w2) = L + 1 + 2 * Suc idx" using len by simp
    show "heap ?w2 ! L = fresh" using old[of L] len a L by simp
  next
    fix j assume j: "j < Suc idx"
    show "subscribed as fcb L j ?w2"
    proof (cases "j = idx")
      case True
      have 1: "heap ?w2 ! ?a = fresh\<lparr>handlers := [then_handler (fcb idx) (L + 1 + 2 * idx)]\<rparr>"
        using a len by (simp add: nth_append fresh_def)
      have 2: "heap ?w2 ! (L + 1 + 2 * idx) = fresh\<lparr>handlers := [catch_handler L (L + 2 + 2 * idx)]\<rparr>"
        using len by (simp add: nth_append)
      have 3: "heap ?w2 ! (L + 2 + 2 * idx) = fresh"
        using len by (simp add: nth_append)
      from 1 2 3 True show ?thesis by (simp add: subscribed_def)
    next
      case False
      with j have jl: "j < idx" by simp
      then have jn: "j < length as" using idx by simp
      from sub[OF jl] have s: "heap w ! (as ! j) = fresh\<lparr>handlers := [then_handler (fcb j) (L + 1 + 2 * j)]\<rparr>"
        "heap w ! (L + 1 + 2 * j) = fresh\<lparr>handlers := [catch_handler L (L + 2 + 2 * j)]\<rparr>"
        "heap w ! (L + 2 + 2 * j) = fresh"
        by (simp_all add: subscribed_def)
      have "heap ?w2 ! (as ! j) = heap w ! (as ! j)"
        using lowj[OF jn] neq[OF jn] len jl by (intro old) simp_all
      moreover have "heap ?w2 ! (L + 1 + 2 * j) = heap w ! (L + 1 + 2 * j)"
        using a len jl by (intro old) simp_all
      moreover have "heap ?w2 ! (L + 2 + 2 * j) = heap w ! (L + 2 + 2 * j)"
        using a len jl by (intro old) simp_all
      ultimately show ?thesis using s by (simp add: subscribed_def)
    qed
  next
    fix j assume j: "Suc idx \<le> j \<and> j < length as"
    then have "heap ?w2 ! (as ! j) = heap w ! (as ! j)"
      using lowj[of j] neq[of j] len by (intro old) simp_all
    with rest[of j] j show "heap ?w2 ! (as ! j) = fresh" by simp
  qed
qed


lemma race_loop_registers:
  assumes dist: "distinct as" and low: "\<forall>a \<in> set as. a < L"
  shows "reg_inv as (\<lambda>j. BoundResolve L) L idx w \<Longrightarrow> drop idx as = rest \<Longrightarrow> idx \<le> length as \<Longrightarrow>
         \<exists>w'. race_loop onF onR (map VPromise rest) L w = Some (None, w') \<and>
               reg_inv as (\<lambda>j. BoundResolve L) L (length as) w'"
proof (induction rest arbitrary: idx w)
  case Nil
  then have "idx = length as" by simp
  with Nil show ?case by simp
next
  case (Cons a rest)
  from Cons.prems(2) have idx: "idx < length as"
    by (metis drop_all list.distinct(1) not_le)
  from Cons.prems(2) idx have a: "a = as ! idx" and rest: "drop (Suc idx) as = rest"
    by (simp_all add: Cons_nth_drop_Suc[symmetric])
  from Cons.prems(1) idx have "heap w ! (as ! idx) = fresh" and len: "length (heap w) = L + 1 + 2 * idx"
    by (simp_all add: reg_inv_def)
  moreover from low idx have "as ! idx < L" by simp
  ultimately have pend: "as ! idx < length (heap w)" "state (heap w ! (as ! idx)) = 0"
    by (simp_all add: fresh_def)
  let ?w2 = "w\<lparr>heap := (heap w)[as ! idx := (heap w ! (as ! idx))
                          \<lparr>handlers := handlers (heap w ! (as ! idx)) @
                             [then_handler (BoundResolve L) (length (heap w))]\<rparr>]
                       @ [fresh\<lparr>handlers := [catch_handler L (Suc (length (heap w)))]\<rparr>, fresh]\<rparr>"
  from subscribe_step[OF pend, of onF onR "BoundResolve L" L] obtain w1 where
    1: "promise_then onF onR (as ! idx) (BoundResolve L) Absent w = Some (length (heap w), w1)"
    and 2: "promise_catch onF onR (length (heap w)) (BoundReject L) w1 = Some (Suc (length (heap w)), ?w2)"
    by blast
  have inv2: "reg_inv as (\<lambda>j. BoundResolve L) L (Suc idx) ?w2"
    by (rule reg_round[OF Cons.prems(1) idx dist low])
  from Cons.IH[OF inv2 rest] idx obtain w' where
    3: "race_loop onF onR (map VPromise rest) L ?w2 = Some (None, w')"
    and 4: "reg_inv as (\<lambda>j. BoundResolve L) L (length as) w'"
    by auto
  have "race_loop onF onR (map VPromise (a # rest)) L w = Some (None, w')"
    using 1 2 3 a by simp
  with 4 show ?case by simp
qed


lemma promise_race_registers:
  assumes "fresh_inputs as w"
  shows "\<exists>w1. promise_race onF onR (map VPromise as) w = Some (length (heap w), w1) \<and>
              reg_inv as (\<lambda>j. BoundResolve (length (heap w))) (length (heap w)) (length as) w1"
proof -
  let ?L = "length (heap w)"
  let ?w0 = "w\<lparr>heap := heap w @ [fresh]\<rparr>"
  from assms have dist: "distinct as" and low: "\<forall>a \<in> set as. a < ?L"
    and fr: "\<And>a. a \<in> set as \<Longrightarrow> heap w ! a = fresh"
    by (auto simp: fresh_inputs_def)
  have "reg_inv as (\<lambda>j. BoundResolve ?L) ?L 0 ?w0"
    using low fr by (simp add: reg_inv_def nth_append)
  from race_loop_registers[OF dist low this, of as onF onR] obtain w1 where
    1: "race_loop onF onR (map VPromise as) ?L ?w0 = Some (None, w1)"
    and 2: "reg_inv as (\<lambda>j. BoundResolve ?L) ?L (length as) w1"
    by auto
  from 1 have "promise_race onF onR (map VPromise as) w = Some (?L, w1)"
    unfolding promise_race_def by (rule construct_plain)
  with 2 show ?thesis by blast
qed

subsection \<open>The result array of \<open>all\<close>\<close>














section \<open>The combinators on inputs that are observed or repeated\<close>

lemma sub_handlers_0 [simp]: "sub_handlers fcb as L 0 a = []"
  by (simp add: sub_handlers_def)


lemma slot_simps [simp]:
  "pslot L k \<noteq> L" "qslot L k \<noteq> L" "pslot L k \<noteq> qslot L j" "qslot L j \<noteq> pslot L k"
  "(pslot L k = pslot L j) = (k = j)" "(qslot L k = qslot L j) = (k = j)"
  "L < pslot L k" "L < qslot L k" "pslot L k < qslot L k" "Suc (pslot L k) = qslot L k"
  by (simp_all add: pslot_def qslot_def) presburger+

















end
